(* ===== verification/Prelude.thy ===== *)
theory Prelude
  imports Main "HOL-Library.Word" "HOL-Library.Monad_Syntax"
begin

text \<open>
  Shared vocabulary of the development.

  \<^item> Names for the machine types of the Rust sources and for byte strings.
  \<^item> Panics. A Rust function that may panic (an out-of-range index, a missing key of a
    \<^verbatim>\<open>HashMap\<close> that is indexed with \<open>[]\<close>) has a result in \<open>'a option\<close>, where
    \<open>None\<close> is the panic; \<open>Result<T, E>\<close> is the sum \<open>E + T\<close>.
  \<^item> Decimal printing and reading of numbers, as \<^verbatim>\<open>format!("{}", n)\<close> and the parsers of
    the Rust standard library do it.
  \<^item> Hash maps are partial functions; the order in which a hash map or hash set is iterated
    is unspecified in Rust and is an argument here, constrained by \<open>iterates\<close> and
    \<open>enumerates\<close>.
  \<^item> Reachable states of a labelled transition relation and the locale
    \<open>inductive_invariant\<close> that turns a one-step proof into a proof about all of them.
\<close>

section \<open>Machine types\<close>

type_synonym u8 = "8 word"
type_synonym u16 = "16 word"
type_synonym u64 = "64 word"
type_synonym usize = "64 word"
type_synonym bytes = "u8 list"

named_theorems net_simps "equations of the address and packet layer"
named_theorems core_simps "unfoldings of the operations of the VPN core"
named_theorems mgr_simps "unfoldings of the operations of the connection manager"
named_theorems tun_simps "unfoldings of the invariant of the interface supervisor"

section \<open>Panics and errors\<close>

text \<open>\<^verbatim>\<open>xs[i]\<close> on a slice: the index is checked, out of range is a panic.\<close>

definition index :: "'a list \<Rightarrow> nat \<Rightarrow> 'a option" where
  "index xs i = (if i < length xs then Some (xs ! i) else None)"

text \<open>The values of the successful elements of a list of results, in order.\<close>

definition oks :: "('e + 'a) list \<Rightarrow> 'a list" where
  "oks rs = List.map_filter (case_sum (\<lambda>_. None) Some) rs"

text \<open>The last \<open>n\<close> elements of a list.\<close>

definition last_n :: "nat \<Rightarrow> 'a list \<Rightarrow> 'a list" where
  "last_n n xs = drop (length xs - n) xs"

section \<open>Iteration over hash containers\<close>

definition iterates :: "('k \<times> 'v) list \<Rightarrow> ('k \<rightharpoonup> 'v) \<Rightarrow> bool" where
  "iterates xs m \<longleftrightarrow> distinct (map fst xs) \<and> map_of xs = m"

definition enumerates :: "'a list \<Rightarrow> 'a set \<Rightarrow> bool" where
  "enumerates xs A \<longleftrightarrow> distinct xs \<and> set xs = A"

section \<open>Decimal numbers\<close>

definition digit_char :: "nat \<Rightarrow> char" where
  "digit_char d = char_of (48 + d)"

definition is_digit :: "char \<Rightarrow> bool" where
  "is_digit c \<longleftrightarrow> 48 \<le> (of_char c :: nat) \<and> (of_char c :: nat) \<le> 57"

definition digit_value :: "char \<Rightarrow> nat" where
  "digit_value c = of_char c - 48"

fun dec_string :: "nat \<Rightarrow> string" where
  "dec_string n =
     (if n < 10 then [digit_char n] else dec_string (n div 10) @ [digit_char (n mod 10)])"

declare dec_string.simps [simp del]

definition dec_value :: "string \<Rightarrow> nat" where
  "dec_value ds = foldl (\<lambda>v c. v * 10 + digit_value c) 0 ds"

section \<open>Reachability\<close>

inductive reachable :: "('s \<Rightarrow> bool) \<Rightarrow> ('s \<Rightarrow> 'l \<Rightarrow> 's \<Rightarrow> bool) \<Rightarrow> 's \<Rightarrow> bool"
  for initial :: "'s \<Rightarrow> bool" and step :: "'s \<Rightarrow> 'l \<Rightarrow> 's \<Rightarrow> bool" where
  reach_init: "initial s \<Longrightarrow> reachable initial step s"
| reach_step: "reachable initial step s \<Longrightarrow> step s l t \<Longrightarrow> reachable initial step t"

text \<open>A schedule of steps, by its labels.\<close>

inductive schedule :: "('s \<Rightarrow> 'l \<Rightarrow> 's \<Rightarrow> bool) \<Rightarrow> 's \<Rightarrow> 'l list \<Rightarrow> 's \<Rightarrow> bool"
  for step :: "'s \<Rightarrow> 'l \<Rightarrow> 's \<Rightarrow> bool" where
  path_end: "schedule step s [] s"
| path_step: "step s l t \<Longrightarrow> schedule step t ls u \<Longrightarrow> schedule step s (l # ls) u"

lemma path_reachable: "schedule step s ls t \<Longrightarrow> reachable initial step s \<Longrightarrow> reachable initial step t"
  by (induction rule: schedule.induct) (auto intro: reach_step)

lemma path_append: "schedule step s ls t \<Longrightarrow> schedule step t ms u \<Longrightarrow> schedule step s (ls @ ms) u"
  by (induction rule: schedule.induct) (auto intro: path_step)

text \<open>Running a partial event processor over a list of events, collecting what it emits.\<close>

fun run_events :: "('s \<Rightarrow> 'e \<Rightarrow> ('s \<times> 'o list) option) \<Rightarrow> 's \<Rightarrow> 'e list \<Rightarrow> ('s \<times> 'o list) option" where
  "run_events f s [] = Some (s, [])"
| "run_events f s (e # es) = do {
     (t, as) \<leftarrow> f s e;
     (u, bs) \<leftarrow> run_events f t es;
     Some (u, as @ bs)
   }"

text \<open>The same for a total specification.\<close>

fun run_spec :: "('a \<Rightarrow> 'e \<Rightarrow> 'a \<times> 'o list) \<Rightarrow> 'a \<Rightarrow> 'e list \<Rightarrow> 'a \<times> 'o list" where
  "run_spec g a [] = (a, [])"
| "run_spec g a (e # es) =
     (let (b, xs) = g a e; (c, ys) = run_spec g b es in (c, xs @ ys))"

section \<open>Lemmas on panics, maps and lists\<close>

lemma index_Some [simp]: "i < length xs \<Longrightarrow> index xs i = Some (xs ! i)"
  by (simp add: index_def)

lemma index_eq_Some_iff: "index xs i = Some x \<longleftrightarrow> i < length xs \<and> xs ! i = x"
  by (auto simp: index_def)

lemma index_eq_None_iff [simp]: "index xs i = None \<longleftrightarrow> length xs \<le> i"
  by (auto simp: index_def)

lemma oks_Nil [simp]: "oks [] = []"
  and oks_Inl [simp]: "oks (Inl e # rs) = oks rs"
  and oks_Inr [simp]: "oks (Inr a # rs) = a # oks rs"
  by (simp_all add: oks_def map_filter_simps)

lemma iterates_set: "iterates xs m \<Longrightarrow> set xs = {(k, v). m k = Some v}"
  by (auto simp: iterates_def)

lemma iterates_values: "iterates xs m \<Longrightarrow> snd ` set xs = ran m"
  by (auto simp: iterates_set ran_def image_def)

lemma iterates_keys: "iterates xs m \<Longrightarrow> fst ` set xs = dom m"
  by (simp add: iterates_def flip: dom_map_of_conv_image_fst)

lemma enumerates_set: "enumerates xs A \<Longrightarrow> set xs = A"
  by (simp add: enumerates_def)

lemma length_last_n [simp]: "length (last_n n xs) = min n (length xs)"
  by (simp add: last_n_def)

lemma last_n_all [simp]: "length xs \<le> n \<Longrightarrow> last_n n xs = xs"
  by (simp add: last_n_def)

lemma last_n_append: "last_n n (last_n n xs @ ys) = last_n n (xs @ ys)"
  by (cases "length xs \<le> n") (auto simp: last_n_def add.commute)

lemma set_last_n: "set (last_n n xs) \<subseteq> set xs"
  by (simp add: last_n_def set_drop_subset)

lemma map_filter_append: "List.map_filter f (xs @ ys) = List.map_filter f xs @ List.map_filter f ys"
  by (simp add: map_filter_def)

lemma map_filter_Cons_opt:
  "List.map_filter f (x # xs) = (case f x of Some y \<Rightarrow> [y] | None \<Rightarrow> []) @ List.map_filter f xs"
  by (simp add: map_filter_simps split: option.splits)

lemma set_map_filter: "y \<in> set (List.map_filter f xs) \<longleftrightarrow> (\<exists>x \<in> set xs. f x = Some y)"
  by (force simp: map_filter_def)

lemma find_SomeD: "find P xs = Some x \<Longrightarrow> x \<in> set xs \<and> P x"
  by (auto simp: find_Some_iff)

lemma ran_map_upd_subset: "ran (m(k \<mapsto> v)) \<subseteq> insert v (ran m)"
  by (auto simp: ran_def split: if_splits)

lemma run_events_append:
  "run_events f s (es @ fs) = do {
     (t, as) \<leftarrow> run_events f s es;
     (u, bs) \<leftarrow> run_events f t fs;
     Some (u, as @ bs)
   }"
  by (induction es arbitrary: s) (auto simp: Option.bind_assoc split: Option.bind_splits prod.splits)

section \<open>Lemmas on decimal numbers\<close>

lemma of_char_digit_char: "d < 10 \<Longrightarrow> (of_char (digit_char d) :: nat) = 48 + d"
  by (simp add: digit_char_def of_char_of)

lemma is_digit_digit_char [simp]: "d < 10 \<Longrightarrow> is_digit (digit_char d)"
  by (simp add: is_digit_def of_char_digit_char)

lemma digit_value_digit_char [simp]: "d < 10 \<Longrightarrow> digit_value (digit_char d) = d"
  by (simp add: digit_value_def of_char_digit_char)

lemma digit_char_inject: "a < 10 \<Longrightarrow> b < 10 \<Longrightarrow> digit_char a = digit_char b \<longleftrightarrow> a = b"
  by (metis digit_value_digit_char)

lemma dec_string_digits: "c \<in> set (dec_string n) \<Longrightarrow> is_digit c"
proof (induction n rule: dec_string.induct)
  case (1 n)
  then show ?case
    by (subst (asm) dec_string.simps) (auto split: if_splits)
qed

lemma dec_string_not_Nil [simp]: "dec_string n \<noteq> []"
  by (subst dec_string.simps) simp

lemma dec_value_snoc: "dec_value (ds @ [c]) = dec_value ds * 10 + digit_value c"
  by (simp add: dec_value_def)

lemma dec_value_dec_string [simp]: "dec_value (dec_string n) = n"
proof (induction n rule: dec_string.induct)
  case (1 n)
  show ?case
  proof (cases "n < 10")
    case True
    then show ?thesis by (subst dec_string.simps) (simp add: dec_value_def)
  next
    case False
    with 1 show ?thesis by (subst dec_string.simps) (simp add: dec_value_snoc)
  qed
qed

lemma dec_string_inject [simp]: "dec_string m = dec_string n \<longleftrightarrow> m = n"
  by (metis dec_value_dec_string)

lemma dec_string_length: "n < 10 ^ Suc k \<Longrightarrow> length (dec_string n) \<le> Suc k"
proof (induction k arbitrary: n)
  case 0
  then show ?case by (subst dec_string.simps) simp
next
  case (Suc k)
  show ?case
  proof (cases "n < 10")
    case True
    then show ?thesis by (subst dec_string.simps) simp
  next
    case False
    from Suc.prems have "n div 10 < 10 ^ Suc k" by (simp add: less_mult_imp_div_less)
    then have "length (dec_string (n div 10)) \<le> Suc k" by (rule Suc.IH)
    with False show ?thesis by (subst dec_string.simps) simp
  qed
qed

lemma dec_string_hd_zero: "hd (dec_string n) = CHR ''0'' \<Longrightarrow> n = 0"
proof (induction n rule: dec_string.induct)
  case (1 n)
  have zero: "CHR ''0'' = digit_char 0" by code_simp
  show ?case
  proof (cases "n < 10")
    case True
    with 1 show ?thesis
      by (subst (asm) (2) dec_string.simps) (simp add: zero digit_char_inject)
  next
    case False
    with 1 have "hd (dec_string (n div 10)) = CHR ''0''"
      by (subst (asm) (2) dec_string.simps) simp
    with False "1.IH" show ?thesis by auto
  qed
qed

lemma takeWhile_dec_string:
  "\<not> is_digit c \<Longrightarrow> takeWhile is_digit (dec_string n @ c # cs) = dec_string n"
  "takeWhile is_digit (dec_string n) = dec_string n"
  by (simp_all add: takeWhile_append2 takeWhile_eq_all_conv dec_string_digits)

lemma dropWhile_dec_string:
  "\<not> is_digit c \<Longrightarrow> dropWhile is_digit (dec_string n @ c # cs) = c # cs"
  "dropWhile is_digit (dec_string n) = []"
  by (simp_all add: dropWhile_append2 dropWhile_eq_Nil_conv dec_string_digits)

lemma word_of_nat_unat_u8 [simp]: "word_of_nat (unat b) = (b :: u8)"
  by simp

lemma unat_u8_bound: "unat (b :: u8) < 256"
  using unsigned_less [of b] by simp

section \<open>Invariants of transition systems\<close>

text \<open>
  The contract between a component and its clients: an invariant that the initial states
  have and every step keeps. What a client gets from it is the invariant in every reachable
  state.
\<close>

locale inductive_invariant =
  fixes initial :: "'s \<Rightarrow> bool"
    and step :: "'s \<Rightarrow> 'l \<Rightarrow> 's \<Rightarrow> bool"
    and inv :: "'s \<Rightarrow> bool"
  assumes inv_initial: "initial s \<Longrightarrow> inv s"
    and inv_step: "inv s \<Longrightarrow> step s l t \<Longrightarrow> inv t"
begin

lemma inv_reachable: "reachable initial step s \<Longrightarrow> inv s"
  by (induction rule: reachable.induct) (auto intro: inv_initial inv_step)

end

text \<open>
  A transition system with an invariant that implements an abstract one: seen through \<open>view\<close>,
  every step is a step of the abstract system or changes nothing. What a client gets is that
  every schedule has an abstract schedule and every reachable state a reachable view.
\<close>

locale simulation = inductive_invariant initial step inv
  for initial :: "'s \<Rightarrow> bool" and step :: "'s \<Rightarrow> 'l \<Rightarrow> 's \<Rightarrow> bool" and inv :: "'s \<Rightarrow> bool" +
  fixes view :: "'s \<Rightarrow> 'a"
    and a_initial :: "'a \<Rightarrow> bool"
    and a_step :: "'a \<Rightarrow> 'm \<Rightarrow> 'a \<Rightarrow> bool"
  assumes view_initial: "initial s \<Longrightarrow> a_initial (view s)"
    and view_step: "inv s \<Longrightarrow> step s l t \<Longrightarrow> view t = view s \<or> (\<exists>m. a_step (view s) m (view t))"
begin

lemma view_schedule:
  assumes "schedule step s ls t" and "inv s"
  shows "\<exists>ms. schedule a_step (view s) ms (view t) \<and> length ms \<le> length ls"
  using assms
proof (induction rule: schedule.induct)
  case (path_end s)
  have "schedule a_step (view s) [] (view s)" by (rule schedule.path_end)
  then show ?case by fastforce
next
  case (path_step s l t ls u)
  have "inv t" using path_step.prems path_step.hyps(1) by (rule inv_step)
  with path_step.IH obtain ms where ms: "schedule a_step (view t) ms (view u)" "length ms \<le> length ls" by blast
  from view_step [OF path_step.prems path_step.hyps(1)] show ?case
  proof (elim disjE exE)
    assume "view t = view s"
    with ms show ?thesis by (intro exI [of _ ms]) simp
  next
    fix m
    assume "a_step (view s) m (view t)"
    with ms show ?thesis by (intro exI [of _ "m # ms"]) (simp add: schedule.path_step)
  qed
qed

lemma view_reachable: "reachable initial step s \<Longrightarrow> reachable a_initial a_step (view s)"
proof (induction rule: reachable.induct)
  case (reach_init s)
  then show ?case by (intro reachable.reach_init view_initial)
next
  case (reach_step s l t)
  from view_step [OF inv_reachable [OF reach_step(1)] reach_step(2)] reach_step.IH show ?case
    by (auto intro: reachable.reach_step)
qed

end

text \<open>
  An event processor that may panic: under its invariant it never does, and it keeps the
  invariant. A client that feeds it any sequence of events gets a total run.
\<close>

locale panic_free =
  fixes process :: "'s \<Rightarrow> 'e \<Rightarrow> ('s \<times> 'o list) option"
    and inv :: "'s \<Rightarrow> bool"
  assumes no_panic: "inv s \<Longrightarrow> process s e \<noteq> None"
    and keeps_inv: "inv s \<Longrightarrow> process s e = Some (t, os) \<Longrightarrow> inv t"
begin

lemma process_total:
  assumes "inv s"
  obtains t os where "process s e = Some (t, os)" and "inv t"
proof -
  obtain r where r: "process s e = Some r"
    using no_panic [OF assms, of e] by blast
  obtain t os where "r = (t, os)" by (cases r)
  with r assms show thesis using keeps_inv that by blast
qed

lemma run_total:
  assumes "inv s"
  shows "\<exists>t os. run_events process s es = Some (t, os) \<and> inv t"
  using assms
proof (induction es arbitrary: s)
  case Nil
  then show ?case by simp
next
  case (Cons e es)
  from Cons.prems obtain t os where "process s e = Some (t, os)" and "inv t"
    by (rule process_total)
  with Cons.IH [of t] show ?case by auto
qed

end

text \<open>
  A panic-free processor that refines a total specification: an abstraction of its states and
  of what it emits commutes with every step. A client may then reason about whole runs on the
  specification.
\<close>

locale refined_processor = panic_free process inv
  for process :: "'s \<Rightarrow> 'e \<Rightarrow> ('s \<times> 'o list) option" and inv :: "'s \<Rightarrow> bool" +
  fixes abs :: "'s \<Rightarrow> 'a"
    and out :: "'o \<Rightarrow> 'p option"
    and spec :: "'a \<Rightarrow> 'e \<Rightarrow> 'a \<times> 'p list"
  assumes simulates: "inv s \<Longrightarrow> process s e = Some (t, os) \<Longrightarrow>
    spec (abs s) e = (abs t, List.map_filter out os)"
begin

lemma run_simulates:
  assumes "inv s"
  shows "\<exists>t os. run_events process s es = Some (t, os) \<and> inv t \<and>
    run_spec spec (abs s) es = (abs t, List.map_filter out os)"
  using assms
proof (induction es arbitrary: s)
  case Nil
  then show ?case by (simp add: map_filter_simps)
next
  case (Cons e es)
  from Cons.prems obtain t os where t: "process s e = Some (t, os)" and "inv t"
    by (rule process_total)
  with Cons.IH [of t] simulates [OF Cons.prems t] show ?case
    by (auto simp: map_filter_def)
qed

end

end
