(* ===== verification/Rust_Net.thy ===== *)
theory Rust_Net
  imports Prelude
begin

text \<open>
  The part of \<^verbatim>\<open>std::net::Ipv4Addr\<close> that the program uses: the constructor
  \<^verbatim>\<open>Ipv4Addr::new\<close>, the octet-wise \<open>&\<close>, \<^verbatim>\<open>Display\<close> and \<^verbatim>\<open>FromStr\<close>.
  \<^verbatim>\<open>FromStr\<close> follows the parser of the standard library: at most fifteen bytes, four
  decimal groups of one to three digits separated by dots, no superfluous leading zero, each
  at most 255, and nothing after the last group. The main fact is that printing an address
  and reading it back gives the address.
\<close>

unbundle bit_operations_syntax

section \<open>Addresses\<close>

datatype Ipv4Addr = Ipv4Addr (octet0: u8) (octet1: u8) (octet2: u8) (octet3: u8)

fun ipv4_and :: "Ipv4Addr \<Rightarrow> Ipv4Addr \<Rightarrow> Ipv4Addr" where
  "ipv4_and (Ipv4Addr a b c d) (Ipv4Addr a' b' c' d') =
     Ipv4Addr (a AND a') (b AND b') (c AND c') (d AND d')"

fun ipv4_to_string :: "Ipv4Addr \<Rightarrow> string" where
  "ipv4_to_string (Ipv4Addr a b c d) =
     dec_string (unat a) @ ''.'' @ dec_string (unat b) @ ''.'' @
     dec_string (unat c) @ ''.'' @ dec_string (unat d)"

section \<open>Reading an address\<close>

datatype AddrParseError = AddrParseError

definition read_octet :: "string \<Rightarrow> (u8 \<times> string) option" where
  "read_octet cs =
     (let ds = takeWhile is_digit cs; rest = dropWhile is_digit cs in
      if ds = [] then None
      else if 3 < length ds then None
      else if hd ds = CHR ''0'' \<and> 1 < length ds then None
      else if 255 < dec_value ds then None
      else Some (word_of_nat (dec_value ds), rest))"

fun read_dot :: "string \<Rightarrow> string option" where
  "read_dot (c # cs) = (if c = CHR ''.'' then Some cs else None)"
| "read_dot [] = None"

definition read_ipv4 :: "string \<Rightarrow> (Ipv4Addr \<times> string) option" where
  "read_ipv4 s0 = do {
     (a, s1) \<leftarrow> read_octet s0;
     s2 \<leftarrow> read_dot s1;
     (b, s3) \<leftarrow> read_octet s2;
     s4 \<leftarrow> read_dot s3;
     (c, s5) \<leftarrow> read_octet s4;
     s6 \<leftarrow> read_dot s5;
     (d, s7) \<leftarrow> read_octet s6;
     Some (Ipv4Addr a b c d, s7)
   }"

definition ipv4_from_str :: "string \<Rightarrow> AddrParseError + Ipv4Addr" where
  "ipv4_from_str s =
     (if 15 < length s then Inl AddrParseError
      else case read_ipv4 s of
             Some (ip, []) \<Rightarrow> Inr ip
           | _ \<Rightarrow> Inl AddrParseError)"

section \<open>Round trip\<close>

lemma dot_not_digit [simp]: "\<not> is_digit CHR ''.''"
  by (simp add: is_digit_def)

lemma dec_string_length_u8: "n < 256 \<Longrightarrow> length (dec_string n) \<le> 3"
  using dec_string_length [of n 2] by simp

lemma dec_string_leading_zero:
  "hd (dec_string n) = CHR ''0'' \<Longrightarrow> length (dec_string n) = 1"
  by (drule dec_string_hd_zero) (simp add: dec_string.simps)

lemma octet_digits_accepted:
  assumes "n < 256"
  shows "\<not> 3 < length (dec_string n)"
    and "\<not> (hd (dec_string n) = CHR ''0'' \<and> 1 < length (dec_string n))"
    and "\<not> 255 < dec_value (dec_string n)"
  using assms dec_string_length_u8 [of n] dec_string_leading_zero [of n] by auto

lemma read_octet_dec_string [net_simps]:
  "read_octet (dec_string (unat b) @ CHR ''.'' # cs) = Some (b, CHR ''.'' # cs)"
  "read_octet (dec_string (unat b)) = Some (b, [])"
  using octet_digits_accepted [OF unat_u8_bound [of b]]
  by (auto simp: read_octet_def Let_def takeWhile_dec_string dropWhile_dec_string)


lemma read_octet_too_big:
  "255 < n \<Longrightarrow> read_octet (dec_string n @ CHR ''.'' # cs) = None"
  "255 < n \<Longrightarrow> read_octet (dec_string n) = None"
  by (simp_all add: read_octet_def Let_def takeWhile_dec_string dropWhile_dec_string)

lemma read_ipv4_to_string: "read_ipv4 (ipv4_to_string ip) = Some (ip, [])"
  by (cases ip) (simp add: read_ipv4_def read_octet_dec_string)

lemma read_ipv4_last_too_big:
  "255 < n \<Longrightarrow> read_ipv4 (dec_string (unat (a :: u8)) @ ''.'' @ dec_string (unat (b :: u8)) @ ''.'' @
     dec_string (unat (c :: u8)) @ ''.'' @ dec_string n) = None"
  by (simp add: read_ipv4_def read_octet_dec_string read_octet_too_big)

lemma ipv4_to_string_length: "length (ipv4_to_string ip) \<le> 15"
proof (cases ip)
  case (Ipv4Addr a b c d)
  then show ?thesis
    using dec_string_length_u8 [OF unat_u8_bound [of a]] dec_string_length_u8 [OF unat_u8_bound [of b]]
      dec_string_length_u8 [OF unat_u8_bound [of c]] dec_string_length_u8 [OF unat_u8_bound [of d]]
    by simp
qed

lemma ipv4_from_str_to_string [simp]: "ipv4_from_str (ipv4_to_string ip) = Inr ip"
  using ipv4_to_string_length [of ip]
  by (simp add: ipv4_from_str_def read_ipv4_to_string)

lemma ipv4_to_string_inject: "ipv4_to_string a = ipv4_to_string b \<longleftrightarrow> a = b"
  by (metis ipv4_from_str_to_string sum.inject(2))

section \<open>The order of addresses\<close>

text \<open>\<^verbatim>\<open>Ord\<close> of the standard library: addresses compare as the 32-bit numbers of their octets.\<close>

fun ipv4_to_bits :: "Ipv4Addr \<Rightarrow> nat" where
  "ipv4_to_bits (Ipv4Addr a b c d) = ((unat a * 256 + unat b) * 256 + unat c) * 256 + unat d"

lemma ipv4_to_bits_inject: "ipv4_to_bits x = ipv4_to_bits y \<longleftrightarrow> x = y"
proof (cases x; cases y)
  fix a b c d a' b' c' d'
  assume xy: "x = Ipv4Addr a b c d" "y = Ipv4Addr a' b' c' d'"
  have base: "p * 256 + m = q * 256 + n \<longleftrightarrow> p = q \<and> m = n" if "m < 256" "n < 256" for p q m n :: nat
  proof
    assume eq: "p * 256 + m = q * 256 + n"
    have "p = (p * 256 + m) div 256" using that(1) by simp
    also have "\<dots> = q" unfolding eq using that(2) by simp
    finally show "p = q \<and> m = n" using eq by simp
  qed simp
  have digit: "p * 256 + unat u = q * 256 + unat v \<longleftrightarrow> p = q \<and> u = v" for p q and u v :: u8
    using base [OF unat_u8_bound unat_u8_bound] by (simp add: word_unat_eq_iff)
  show ?thesis
    unfolding xy ipv4_to_bits.simps digit word_unat_eq_iff [of a a', symmetric] by auto
qed

instantiation Ipv4Addr :: linorder
begin

definition less_eq_Ipv4Addr :: "Ipv4Addr \<Rightarrow> Ipv4Addr \<Rightarrow> bool" where
  "less_eq_Ipv4Addr x y \<longleftrightarrow> ipv4_to_bits x \<le> ipv4_to_bits y"

definition less_Ipv4Addr :: "Ipv4Addr \<Rightarrow> Ipv4Addr \<Rightarrow> bool" where
  "less_Ipv4Addr x y \<longleftrightarrow> ipv4_to_bits x < ipv4_to_bits y"

instance
  by standard (auto simp: less_eq_Ipv4Addr_def less_Ipv4Addr_def ipv4_to_bits_inject)

end

end
