(* ===== verification/Ipv4_Packet.thy ===== *)
theory Ipv4_Packet
  imports Rust_Net
begin

text \<open>
  The packet parser \<^verbatim>\<open>src/packet/ipv4.rs\<close>. \<open>Ipv4Packet_new\<close> reads the fields of an IPv4
  header out of a byte string; every byte is read with a checked index, so a read past the
  end would be a panic (\<open>None\<close>). Lengths are natural numbers; the \<^verbatim>\<open>usize\<close> expression that
  assembles the total length is computed on 64-bit words as in the source.
  \<open>ipv4_header\<close> is a reference serialiser of the 20-byte header; the parser is shown to be
  its inverse on the fields it extracts, never to panic, and to report its two errors in
  exactly the documented cases.
\<close>

section \<open>Data\<close>

record Ipv4Packet =
  packet_length :: nat
  total_length :: nat
  ttl :: u8
  src_ip :: Ipv4Addr
  dest_ip :: Ipv4Addr

datatype ParseError = TooSmallPacket | IncorrectIpVersion

fun fmt_ParseError :: "ParseError \<Rightarrow> string" where
  "fmt_ParseError IncorrectIpVersion = ''unsupported IP version (only IPv4 is allowed)''"
| "fmt_ParseError TooSmallPacket = ''packet is too small to contain a valid IPv4 header''"

section \<open>The parser\<close>

definition Ipv4Packet_new :: "bytes \<Rightarrow> (ParseError + Ipv4Packet) option" where
  "Ipv4Packet_new packet =
     (if length packet < 20 then Some (Inl TooSmallPacket)
      else do {
        b0 \<leftarrow> index packet 0;
        let ip_version = drop_bit 4 b0;
        if ip_version \<noteq> 4 then Some (Inl IncorrectIpVersion)
        else do {
          b2 \<leftarrow> index packet 2;
          b3 \<leftarrow> index packet 3;
          let total = push_bit 8 (ucast b2 :: usize) OR (ucast b3 :: usize);
          t \<leftarrow> index packet 8;
          s0 \<leftarrow> index packet 12;
          s1 \<leftarrow> index packet 13;
          s2 \<leftarrow> index packet 14;
          s3 \<leftarrow> index packet 15;
          d0 \<leftarrow> index packet 16;
          d1 \<leftarrow> index packet 17;
          d2 \<leftarrow> index packet 18;
          d3 \<leftarrow> index packet 19;
          Some (Inr \<lparr>packet_length = length packet,
                     total_length = unat total,
                     ttl = t,
                     src_ip = Ipv4Addr s0 s1 s2 s3,
                     dest_ip = Ipv4Addr d0 d1 d2 d3\<rparr>)
        }
      })"

section \<open>Reference layout of the header\<close>

text \<open>The 20 bytes of an option-less IPv4 header, multi-byte fields in network byte order.\<close>

definition be16 :: "u16 \<Rightarrow> bytes" where
  "be16 w = [ucast (drop_bit 8 w), ucast w]"

fun ipv4_octets :: "Ipv4Addr \<Rightarrow> bytes" where
  "ipv4_octets (Ipv4Addr a b c d) = [a, b, c, d]"

definition ipv4_header ::
  "u8 \<Rightarrow> u8 \<Rightarrow> u16 \<Rightarrow> u16 \<Rightarrow> u16 \<Rightarrow> u8 \<Rightarrow> u8 \<Rightarrow> u16 \<Rightarrow> Ipv4Addr \<Rightarrow> Ipv4Addr \<Rightarrow> bytes" where
  "ipv4_header vihl tos len ident frag life proto cksum src dst =
     [vihl, tos] @ be16 len @ be16 ident @ be16 frag @ [life, proto] @ be16 cksum @
     ipv4_octets src @ ipv4_octets dst"

text \<open>The same fields by byte offset, as RFC 791 numbers them.\<close>

definition header_version :: "bytes \<Rightarrow> nat" where
  "header_version p = unat (p ! 0) div 16"

definition header_total_length :: "bytes \<Rightarrow> nat" where
  "header_total_length p = 256 * unat (p ! 2) + unat (p ! 3)"

definition header_src :: "bytes \<Rightarrow> Ipv4Addr" where
  "header_src p = Ipv4Addr (p ! 12) (p ! 13) (p ! 14) (p ! 15)"

definition header_dst :: "bytes \<Rightarrow> Ipv4Addr" where
  "header_dst p = Ipv4Addr (p ! 16) (p ! 17) (p ! 18) (p ! 19)"

section \<open>Bits and numbers\<close>

lemma join_bytes: "unat (push_bit 8 (ucast a :: usize) OR (ucast b :: usize)) = 256 * unat a + unat b"
  for a b :: u8
proof -
  have "uint (push_bit 8 (ucast a :: usize) OR (ucast b :: usize))
      = push_bit 8 (uint a) OR uint b"
    by (simp add: unsigned_or_eq unsigned_push_bit_eq unsigned_ucast_eq take_bit_push_bit bintr_uint)
  also have "\<dots> = push_bit 8 (uint a) + uint b"
    by (rule disjunctive_add [symmetric]) (auto simp: bit_push_bit_iff bit_uint_iff)
  also have "\<dots> = 256 * uint a + uint b"
    by (simp add: push_bit_eq_mult)
  finally have "int (unat (push_bit 8 (ucast a :: usize) OR (ucast b :: usize)))
      = int (256 * unat a + unat b)"
    by (simp only: uint_nat of_nat_add of_nat_mult of_nat_numeral)
  then show ?thesis by (simp only: of_nat_eq_iff)
qed

lemma version_nibble: "drop_bit 4 b = (4 :: u8) \<longleftrightarrow> unat b div 16 = 4"
proof -
  have "drop_bit 4 b = (4 :: u8) \<longleftrightarrow> unat (drop_bit 4 b) = unat (4 :: u8)"
    by (simp only: word_unat_eq_iff)
  then show ?thesis by (simp add: drop_bit_eq_div unat_div_distrib)
qed

lemma be16_joined: "256 * unat (ucast (drop_bit 8 w) :: u8) + unat (ucast w :: u8) = unat w"
  for w :: u16
proof -
  have "unat w < 2 ^ 16" using unsigned_less [of w] by simp
  then have "unat w div 256 < 256" by (simp add: less_mult_imp_div_less)
  then have "unat (ucast (drop_bit 8 w) :: u8) = unat w div 256"
    by (simp add: unsigned_ucast_eq drop_bit_eq_div take_bit_eq_mod unat_div_distrib)
  moreover have "unat (ucast w :: u8) = unat w mod 256"
    by (simp add: unsigned_ucast_eq take_bit_eq_mod)
  ultimately show ?thesis by simp
qed

section \<open>The parser by offsets\<close>

lemma Ipv4Packet_new_eq [net_simps]:
  "Ipv4Packet_new p =
     Some (if length p < 20 then Inl TooSmallPacket
           else if header_version p \<noteq> 4 then Inl IncorrectIpVersion
           else Inr \<lparr>packet_length = length p, total_length = header_total_length p,
                     ttl = p ! 8, src_ip = header_src p, dest_ip = header_dst p\<rparr>)"
proof (cases "length p < 20")
  case False
  then have idx: "index p i = Some (p ! i)" if "i < 20" for i
    using that by simp
  from False show ?thesis
    by (simp add: idx Ipv4Packet_new_def header_version_def header_total_length_def header_src_def
        header_dst_def version_nibble join_bytes Let_def)
qed (simp add: Ipv4Packet_new_def)

text \<open>The index reads of the source are the only partial operations of the parser.\<close>

lemma ipv4_header_length: "length (ipv4_header v t l i f e r c s d) = 20"
  by (cases s; cases d) (simp add: ipv4_header_def be16_def)

lemma ipv4_header_fields:
  fixes v t l i f e r c s d rest
  defines "p \<equiv> ipv4_header v t l i f e r c s d @ rest"
  shows "p ! 0 = v" and "header_total_length p = unat l" and "p ! 8 = e"
    and "header_src p = s" and "header_dst p = d"
  by (cases s; cases d; simp add: p_def ipv4_header_def be16_def header_total_length_def
      header_src_def header_dst_def be16_joined)+

section \<open>Properties\<close>

text \<open>
  C38. The parser never panics, and each of its outcomes is determined by the bytes: fewer
  than 20 bytes is \<open>TooSmallPacket\<close>; a version nibble other than 4 is
  \<open>IncorrectIpVersion\<close>; otherwise the fields are those at the offsets of RFC 791, with the
  two bytes of the total length read in network byte order.
\<close>

theorem Ipv4Packet_new_correct:
  "Ipv4Packet_new p \<noteq> None \<and>
   (Ipv4Packet_new p = Some (Inl TooSmallPacket) \<longleftrightarrow> length p < 20) \<and>
   (Ipv4Packet_new p = Some (Inl IncorrectIpVersion) \<longleftrightarrow> 20 \<le> length p \<and> unat (p ! 0) div 16 \<noteq> 4) \<and>
   (Ipv4Packet_new p = Some (Inr r) \<longleftrightarrow>
      20 \<le> length p \<and> unat (p ! 0) div 16 = 4 \<and>
      r = \<lparr>packet_length = length p, total_length = 256 * unat (p ! 2) + unat (p ! 3),
           ttl = p ! 8, src_ip = Ipv4Addr (p ! 12) (p ! 13) (p ! 14) (p ! 15),
           dest_ip = Ipv4Addr (p ! 16) (p ! 17) (p ! 18) (p ! 19)\<rparr>)"
  by (auto simp: Ipv4Packet_new_eq header_version_def header_total_length_def header_src_def
      header_dst_def)

text \<open>
  C39. Round trip with the reference serialiser: a header whose version nibble is 4, followed
  by any payload, parses to the fields it was built from, and the packet length is the length
  of the whole byte string.
\<close>

theorem Ipv4Packet_new_header:
  assumes "unat v div 16 = 4"
  shows "Ipv4Packet_new (ipv4_header v t l i f e r c s d @ payload) =
    Some (Inr \<lparr>packet_length = 20 + length payload, total_length = unat l, ttl = e,
               src_ip = s, dest_ip = d\<rparr>)"
  using assms
  by (simp add: Ipv4Packet_new_eq header_version_def ipv4_header_length ipv4_header_fields)

theorem Ipv4Packet_new_header_witness:
  "unat (0x45 :: u8) div 16 = 4 \<and>
   Ipv4Packet_new (ipv4_header 0x45 0 21 7 0 64 1 0 (Ipv4Addr 10 67 1 1) (Ipv4Addr 10 67 1 2) @ [9])
   = Some (Inr \<lparr>packet_length = 21, total_length = 21, ttl = 64,
               src_ip = Ipv4Addr 10 67 1 1, dest_ip = Ipv4Addr 10 67 1 2\<rparr>)"
  using Ipv4Packet_new_header [of "0x45" 0 21 7 0 64 1 0 "Ipv4Addr 10 67 1 1" "Ipv4Addr 10 67 1 2" "[9]"]
  by simp

end
