(* ===== verification/Vpn_Core.thy ===== *)
theory Vpn_Core
  imports Ipv4_Packet
begin

text \<open>
  The synchronous routing core, \<^verbatim>\<open>src/vpn_core.rs\<close>: its data, its operations and the
  invariant \<open>core_inv\<close> that every operation keeps. A public key is any linearly ordered type
  (the core only compares keys for equality). An operation that indexes a hash map
  (\<^verbatim>\<open>self.peers[node]\<close>, \<^verbatim>\<open>self.route_table[&ip]\<close>) panics when the key is missing, and so
  has an optional result. \<open>process\<close> returns the new state and the actions of the source's
  \<^verbatim>\<open>Vec<Action>\<close>, in order. Under the invariant \<open>process\<close> is total; the interpretation
  of \<open>panic_free\<close> states this for the coordinator, which is its client.
\<close>

section \<open>Data\<close>

definition MAX_PACKETS_IN_QUEUE :: nat where
  "MAX_PACKETS_IN_QUEUE = 1000"

record PeerState =
  is_connected :: bool
  peer_ipv4_addr :: Ipv4Addr
  packet_queue :: "bytes list"

record 'pk VpnCore =
  max_packet_size :: nat
  ipv4_addr :: Ipv4Addr
  peers :: "'pk \<rightharpoonup> PeerState"
  route_table :: "Ipv4Addr \<rightharpoonup> 'pk"

datatype 'pk Event =
    PeerConnected 'pk
  | PeerDisconnected 'pk
  | PacketFromTun bytes
  | PacketFromIroh bytes 'pk

datatype SendPacketError =
    IncorrectSrcIp | UnknownDestIp | MtuError | IncorrectTTL | BrokenLength
  | ParseError ParseError

datatype RecvPacketError =
    UnknownSrcIp | IncorrectDestIp | MtuError | Spoofing | BrokenLength
  | ParseError ParseError

datatype LogEvent =
    UnknownPeer | AlreadyConnected | AlreadyDisconnected
  | SendPacketError SendPacketError | RecvPacketError RecvPacketError
  | ConnectionNotOpen | InternalStateError | PacketBuffered | PacketQueueOverflow

datatype 'pk Action =
    ConnectToPeer 'pk
  | DisconnectFromPeer 'pk
  | SendPacketTo bytes 'pk
  | WriteToTun bytes
  | NoAction LogEvent

section \<open>Log messages\<close>

fun fmt_SendPacketError :: "SendPacketError \<Rightarrow> string" where
  "fmt_SendPacketError IncorrectSrcIp = ''source IP does not match the assigned tun IP''"
| "fmt_SendPacketError UnknownDestIp = ''destination IP is not found in the routing table''"
| "fmt_SendPacketError SendPacketError.MtuError = ''packet length exceeds the MTU limit''"
| "fmt_SendPacketError IncorrectTTL = ''TTL is 0 or invalid''"
| "fmt_SendPacketError SendPacketError.BrokenLength = ''incorrect length of packet''"
| "fmt_SendPacketError (SendPacketError.ParseError e) = ''packet parse error: '' @ fmt_ParseError e"

fun fmt_RecvPacketError :: "RecvPacketError \<Rightarrow> string" where
  "fmt_RecvPacketError UnknownSrcIp = ''source IP is not found in the routing table''"
| "fmt_RecvPacketError IncorrectDestIp = ''destination IP does not match local tun IP''"
| "fmt_RecvPacketError RecvPacketError.MtuError = ''received packet length exceeds the MTU limit''"
| "fmt_RecvPacketError Spoofing =
     ''anti-spoofing triggered: Source IP does not match the sender'' @ [CHR 0x27] @ ''s public key''"
| "fmt_RecvPacketError RecvPacketError.BrokenLength = ''incorrect length of packet''"
| "fmt_RecvPacketError (RecvPacketError.ParseError e) = ''packet parse error: '' @ fmt_ParseError e"

fun fmt_LogEvent :: "LogEvent \<Rightarrow> string" where
  "fmt_LogEvent UnknownPeer = ''Unknown peer''"
| "fmt_LogEvent AlreadyConnected = ''Peers are already connected''"
| "fmt_LogEvent AlreadyDisconnected = ''Peers are already disconnected''"
| "fmt_LogEvent (LogEvent.SendPacketError e) = ''Dropped outgoing packet: '' @ fmt_SendPacketError e"
| "fmt_LogEvent (LogEvent.RecvPacketError e) = ''Dropped incoming packet: '' @ fmt_RecvPacketError e"
| "fmt_LogEvent ConnectionNotOpen = ''Connection is not open''"
| "fmt_LogEvent InternalStateError = ''Internal State Error''"
| "fmt_LogEvent PacketBuffered = ''Packet buffered (connection is not open yet)''"
| "fmt_LogEvent PacketQueueOverflow = ''Queue overflow: oldest packet dropped''"

text \<open>The text of a public key is produced by the iroh crate: the argument \<open>show_pk\<close>.\<close>

fun fmt_Action :: "('pk \<Rightarrow> string) \<Rightarrow> 'pk Action \<Rightarrow> string" where
  "fmt_Action show_pk (ConnectToPeer k) = ''Connect to: '' @ show_pk k"
| "fmt_Action show_pk (DisconnectFromPeer k) = ''Disconnect from: '' @ show_pk k"
| "fmt_Action show_pk (SendPacketTo p k) =
     ''Send '' @ dec_string (length p) @ '' bytes to '' @ show_pk k"
| "fmt_Action show_pk (WriteToTun p) = ''Write '' @ dec_string (length p) @ '' bytes to TUN''"
| "fmt_Action show_pk (NoAction reason) = ''Info -> '' @ fmt_LogEvent reason"

section \<open>Construction and queries\<close>

text \<open>\<open>iter\<close> is the order in which the hash map \<open>table\<close> hands out its entries.\<close>

definition VpnCore_new ::
  "Ipv4Addr \<Rightarrow> (Ipv4Addr \<rightharpoonup> 'pk) \<Rightarrow> (Ipv4Addr \<times> 'pk) list \<Rightarrow> nat \<Rightarrow> 'pk VpnCore" where
  "VpnCore_new addr table iter max_size =
     \<lparr>max_packet_size = max_size,
      ipv4_addr = addr,
      peers = fold (\<lambda>(ip, k) m. m(k \<mapsto> \<lparr>is_connected = False, peer_ipv4_addr = ip,
                                         packet_queue = []\<rparr>)) iter Map.empty,
      route_table = table\<rparr>"

definition is_neighbour :: "'pk VpnCore \<Rightarrow> 'pk \<Rightarrow> bool" where
  "is_neighbour s node \<longleftrightarrow> peers s node \<noteq> None"

definition is_neighbour_ipv4 :: "'pk VpnCore \<Rightarrow> Ipv4Addr \<Rightarrow> bool" where
  "is_neighbour_ipv4 s ip \<longleftrightarrow> route_table s ip \<noteq> None"

definition is_connect_open :: "'pk VpnCore \<Rightarrow> 'pk \<Rightarrow> bool option" where
  "is_connect_open s node = map_option is_connected (peers s node)"

definition verify_connection :: "'pk VpnCore \<Rightarrow> 'pk \<Rightarrow> bool" where
  "verify_connection s k = is_neighbour s k"

section \<open>Packet checks\<close>

definition verify_send_packet ::
  "'pk VpnCore \<Rightarrow> bytes \<Rightarrow> (SendPacketError + Ipv4Addr) option" where
  "verify_send_packet s packet = do {
     parsed \<leftarrow> Ipv4Packet_new packet;
     case parsed of
       Inl e \<Rightarrow> Some (Inl (SendPacketError.ParseError e))
     | Inr ipv4_packet \<Rightarrow>
         if max_packet_size s < packet_length ipv4_packet
           then Some (Inl SendPacketError.MtuError)
         else if packet_length ipv4_packet < total_length ipv4_packet
           then Some (Inl SendPacketError.BrokenLength)
         else if ttl ipv4_packet = 0 then Some (Inl IncorrectTTL)
         else if src_ip ipv4_packet \<noteq> ipv4_addr s then Some (Inl IncorrectSrcIp)
         else if \<not> is_neighbour_ipv4 s (dest_ip ipv4_packet) then Some (Inl UnknownDestIp)
         else Some (Inr (dest_ip ipv4_packet))
   }"

definition verify_recv_packet ::
  "'pk VpnCore \<Rightarrow> bytes \<Rightarrow> 'pk \<Rightarrow> (RecvPacketError + unit) option" where
  "verify_recv_packet s packet from = do {
     parsed \<leftarrow> Ipv4Packet_new packet;
     case parsed of
       Inl e \<Rightarrow> Some (Inl (RecvPacketError.ParseError e))
     | Inr ipv4_packet \<Rightarrow>
         if max_packet_size s < packet_length ipv4_packet
           then Some (Inl RecvPacketError.MtuError)
         else if packet_length ipv4_packet < total_length ipv4_packet
           then Some (Inl RecvPacketError.BrokenLength)
         else if \<not> is_neighbour_ipv4 s (src_ip ipv4_packet) then Some (Inl UnknownSrcIp)
         else if dest_ip ipv4_packet \<noteq> ipv4_addr s then Some (Inl IncorrectDestIp)
         else do {
           owner \<leftarrow> route_table s (src_ip ipv4_packet);
           if owner \<noteq> from then Some (Inl Spoofing) else Some (Inr ())
         }
   }"

section \<open>Event handlers\<close>

definition on_peer_connected :: "'pk VpnCore \<Rightarrow> 'pk \<Rightarrow> ('pk VpnCore \<times> 'pk Action list) option" where
  "on_peer_connected s node =
     (if \<not> is_neighbour s node then Some (s, [DisconnectFromPeer node])
      else do {
        open_now \<leftarrow> is_connect_open s node;
        if open_now then Some (s, [NoAction AlreadyConnected])
        else case peers s node of
            Some peer \<Rightarrow>
              Some (s\<lparr>peers := (peers s)(node \<mapsto> peer\<lparr>is_connected := True, packet_queue := []\<rparr>)\<rparr>,
                    map (\<lambda>packet. SendPacketTo packet node) (packet_queue peer))
          | None \<Rightarrow> Some (s, [NoAction InternalStateError])
      })"

definition on_peer_disconnected ::
  "'pk VpnCore \<Rightarrow> 'pk \<Rightarrow> ('pk VpnCore \<times> 'pk Action list) option" where
  "on_peer_disconnected s node =
     (if \<not> is_neighbour s node then Some (s, [NoAction UnknownPeer])
      else do {
        open_now \<leftarrow> is_connect_open s node;
        if \<not> open_now then Some (s, [NoAction AlreadyDisconnected])
        else case peers s node of
            Some peer \<Rightarrow> Some (s\<lparr>peers := (peers s)(node \<mapsto> peer\<lparr>is_connected := False\<rparr>)\<rparr>, [])
          | None \<Rightarrow> Some (s, [NoAction InternalStateError])
      })"

text \<open>The two statements on the queue at the end of \<^verbatim>\<open>send_packet\<close>: \<^verbatim>\<open>pop_front\<close> when
  full, then \<^verbatim>\<open>push_back\<close>.\<close>

definition buffer_packet :: "bytes list \<Rightarrow> bytes \<Rightarrow> bytes list \<times> LogEvent list" where
  "buffer_packet queue packet =
     (if MAX_PACKETS_IN_QUEUE \<le> length queue
      then (tl queue @ [packet], [PacketQueueOverflow, PacketBuffered])
      else (queue @ [packet], [PacketBuffered]))"

definition send_packet :: "'pk VpnCore \<Rightarrow> bytes \<Rightarrow> ('pk VpnCore \<times> 'pk Action list) option" where
  "send_packet s packet = do {
     check_result \<leftarrow> verify_send_packet s packet;
     case check_result of
       Inl e \<Rightarrow> Some (s, [NoAction (LogEvent.SendPacketError e)])
     | Inr dest \<Rightarrow>
         (case route_table s dest of
            None \<Rightarrow> Some (s, [NoAction (LogEvent.SendPacketError UnknownDestIp)])
          | Some pub_key \<Rightarrow> do {
              open_now \<leftarrow> is_connect_open s pub_key;
              if open_now then Some (s, [SendPacketTo packet pub_key])
              else case peers s pub_key of
                  None \<Rightarrow> Some (s, [NoAction InternalStateError])
                | Some peer \<Rightarrow>
                    let (queue, logs) = buffer_packet (packet_queue peer) packet in
                    Some (s\<lparr>peers := (peers s)(pub_key \<mapsto> peer\<lparr>packet_queue := queue\<rparr>)\<rparr>,
                          map NoAction logs)
            })
   }"

definition recv_packet :: "'pk VpnCore \<Rightarrow> bytes \<Rightarrow> 'pk \<Rightarrow> 'pk Action list option" where
  "recv_packet s packet from = do {
     result \<leftarrow> verify_recv_packet s packet from;
     case result of
       Inr _ \<Rightarrow> Some [WriteToTun packet]
     | Inl e \<Rightarrow> Some [NoAction (LogEvent.RecvPacketError e)]
   }"

fun process :: "'pk VpnCore \<Rightarrow> 'pk Event \<Rightarrow> ('pk VpnCore \<times> 'pk Action list) option" where
  "process s (PeerConnected pk) = on_peer_connected s pk"
| "process s (PeerDisconnected pk) = on_peer_disconnected s pk"
| "process s (PacketFromTun packet) = send_packet s packet"
| "process s (PacketFromIroh packet from) =
     map_option (\<lambda>actions. (s, actions)) (recv_packet s packet from)"

text \<open>A run over a list of events, with all actions in order.\<close>

abbreviation process_all ::
  "'pk VpnCore \<Rightarrow> 'pk Event list \<Rightarrow> ('pk VpnCore \<times> 'pk Action list) option" where
  "process_all \<equiv> run_events process"

section \<open>Admission, stated on the bytes\<close>

definition well_formed :: "nat \<Rightarrow> bytes \<Rightarrow> bool" where
  "well_formed max_size p \<longleftrightarrow>
     20 \<le> length p \<and> length p \<le> max_size \<and> header_version p = 4 \<and>
     header_total_length p \<le> length p"

text \<open>A packet from the host may leave towards \<open>k\<close>.\<close>

definition egress_ok :: "'pk VpnCore \<Rightarrow> bytes \<Rightarrow> 'pk \<Rightarrow> bool" where
  "egress_ok s p k \<longleftrightarrow>
     well_formed (max_packet_size s) p \<and> p ! 8 \<noteq> 0 \<and> header_src p = ipv4_addr s \<and>
     route_table s (header_dst p) = Some k"

text \<open>A packet that peer \<open>from\<close> sent may be written to the host.\<close>

definition ingress_ok :: "'pk VpnCore \<Rightarrow> bytes \<Rightarrow> 'pk \<Rightarrow> bool" where
  "ingress_ok s p from \<longleftrightarrow>
     well_formed (max_packet_size s) p \<and> header_dst p = ipv4_addr s \<and>
     route_table s (header_src p) = Some from"

section \<open>Invariant\<close>

definition peer_inv :: "'pk VpnCore \<Rightarrow> 'pk \<Rightarrow> PeerState \<Rightarrow> bool" where
  "peer_inv s k peer \<longleftrightarrow>
     length (packet_queue peer) \<le> MAX_PACKETS_IN_QUEUE \<and>
     (is_connected peer \<longrightarrow> packet_queue peer = []) \<and>
     (\<forall>p \<in> set (packet_queue peer). egress_ok s p k)"

definition core_inv :: "'pk VpnCore \<Rightarrow> bool" where
  "core_inv s \<longleftrightarrow>
     ran (route_table s) \<subseteq> dom (peers s) \<and>
     (\<forall>k peer. peers s k = Some peer \<longrightarrow> peer_inv s k peer)"

text \<open>The configuration, which no event changes.\<close>

definition core_config :: "'pk VpnCore \<Rightarrow> nat \<times> Ipv4Addr \<times> (Ipv4Addr \<rightharpoonup> 'pk) \<times> 'pk set" where
  "core_config s = (max_packet_size s, ipv4_addr s, route_table s, dom (peers s))"

section \<open>Checks, branch by branch\<close>

lemma verify_send_packet_eq [core_simps]:
  "verify_send_packet s p =
     Some (if length p < 20 then Inl (SendPacketError.ParseError TooSmallPacket)
           else if header_version p \<noteq> 4 then Inl (SendPacketError.ParseError IncorrectIpVersion)
           else if max_packet_size s < length p then Inl SendPacketError.MtuError
           else if length p < header_total_length p then Inl SendPacketError.BrokenLength
           else if p ! 8 = 0 then Inl IncorrectTTL
           else if header_src p \<noteq> ipv4_addr s then Inl IncorrectSrcIp
           else if route_table s (header_dst p) = None then Inl UnknownDestIp
           else Inr (header_dst p))"
  by (simp add: verify_send_packet_def Ipv4Packet_new_eq is_neighbour_ipv4_def)

lemma verify_recv_packet_eq [core_simps]:
  "verify_recv_packet s p from =
     Some (if length p < 20 then Inl (RecvPacketError.ParseError TooSmallPacket)
           else if header_version p \<noteq> 4 then Inl (RecvPacketError.ParseError IncorrectIpVersion)
           else if max_packet_size s < length p then Inl RecvPacketError.MtuError
           else if length p < header_total_length p then Inl RecvPacketError.BrokenLength
           else if route_table s (header_src p) = None then Inl UnknownSrcIp
           else if header_dst p \<noteq> ipv4_addr s then Inl IncorrectDestIp
           else if route_table s (header_src p) \<noteq> Some from then Inl Spoofing
           else Inr ())"
  by (auto simp: verify_recv_packet_def Ipv4Packet_new_eq is_neighbour_ipv4_def)

lemma verify_send_packet_ok:
  "verify_send_packet s p = Some (Inr ip) \<longleftrightarrow> ip = header_dst p \<and> (\<exists>k. egress_ok s p k)"
  by (auto simp: verify_send_packet_eq egress_ok_def well_formed_def)

lemma verify_recv_packet_ok:
  "verify_recv_packet s p from = Some (Inr u) \<longleftrightarrow> ingress_ok s p from"
  by (auto simp: verify_recv_packet_eq ingress_ok_def well_formed_def)

lemma send_packet_reject:
  assumes "\<And>k. \<not> egress_ok s p k"
  shows "\<exists>e. send_packet s p = Some (s, [NoAction (LogEvent.SendPacketError e)])"
proof -
  obtain r where r: "verify_send_packet s p = Some r" by (simp add: verify_send_packet_eq)
  with assms obtain e where "r = Inl e"
    by (cases r) (auto simp: verify_send_packet_ok)
  with r show ?thesis by (simp add: send_packet_def)
qed

lemma send_packet_accept:
  assumes "egress_ok s p k"
  shows "send_packet s p = do {
     open_now \<leftarrow> is_connect_open s k;
     if open_now then Some (s, [SendPacketTo p k])
     else case peers s k of
         None \<Rightarrow> Some (s, [NoAction InternalStateError])
       | Some peer \<Rightarrow>
           Some (s\<lparr>peers := (peers s)(k \<mapsto> peer\<lparr>packet_queue := fst (buffer_packet (packet_queue peer) p)\<rparr>)\<rparr>,
                 map NoAction (snd (buffer_packet (packet_queue peer) p)))
   }"
proof -
  from assms have "verify_send_packet s p = Some (Inr (header_dst p))"
    and "route_table s (header_dst p) = Some k"
    by (auto simp: verify_send_packet_ok egress_ok_def)
  then show ?thesis
    by (cases "peers s k") (auto simp: send_packet_def is_connect_open_def Let_def split: prod.splits)
qed

lemma egress_ok_unique: "egress_ok s p k \<Longrightarrow> egress_ok s p k' \<Longrightarrow> k' = k"
  by (simp add: egress_ok_def)

lemma buffer_packet_last_n:
  "length queue \<le> MAX_PACKETS_IN_QUEUE \<Longrightarrow>
   fst (buffer_packet queue p) = last_n MAX_PACKETS_IN_QUEUE (queue @ [p])"
  by (cases queue) (auto simp: buffer_packet_def last_n_def MAX_PACKETS_IN_QUEUE_def)

section \<open>The invariant under the handlers\<close>

lemma core_config_updates [simp]:
  "egress_ok (s\<lparr>peers := m\<rparr>) = egress_ok s"
  "ingress_ok (s\<lparr>peers := m\<rparr>) = ingress_ok s"
  "peer_inv (s\<lparr>peers := m\<rparr>) = peer_inv s"
  by (auto simp: egress_ok_def ingress_ok_def peer_inv_def fun_eq_iff)

lemma core_inv_peer: "core_inv s \<Longrightarrow> peers s k = Some peer \<Longrightarrow> peer_inv s k peer"
  by (simp add: core_inv_def)

lemma core_inv_queued:
  "core_inv s \<Longrightarrow> peers s k = Some peer \<Longrightarrow> p \<in> set (packet_queue peer) \<Longrightarrow> egress_ok s p k"
  by (auto simp: core_inv_def peer_inv_def)

lemma core_inv_route: "core_inv s \<Longrightarrow> egress_ok s p k \<Longrightarrow> \<exists>peer. peers s k = Some peer"
  by (auto simp: core_inv_def egress_ok_def ran_def)

lemma core_inv_upd:
  "core_inv s \<Longrightarrow> peers s k = Some old \<Longrightarrow> peer_inv s k new \<Longrightarrow>
   core_inv (s\<lparr>peers := (peers s)(k \<mapsto> new)\<rparr>)"
  by (auto simp: core_inv_def)

lemma core_config_upd:
  "peers s k = Some old \<Longrightarrow> core_config (s\<lparr>peers := (peers s)(k \<mapsto> new)\<rparr>) = core_config s"
  by (auto simp: core_config_def)

lemma peer_inv_connect: "peer_inv s k (peer\<lparr>is_connected := True, packet_queue := []\<rparr>)"
  by (simp add: peer_inv_def)

lemma peer_inv_disconnect: "peer_inv s k peer \<Longrightarrow> peer_inv s k (peer\<lparr>is_connected := False\<rparr>)"
  by (simp add: peer_inv_def)

lemma peer_inv_buffer:
  assumes "peer_inv s k peer" and "egress_ok s p k" and "\<not> is_connected peer"
  shows "peer_inv s k (peer\<lparr>packet_queue := fst (buffer_packet (packet_queue peer) p)\<rparr>)"
  using assms set_last_n [of MAX_PACKETS_IN_QUEUE "packet_queue peer @ [p]"]
  by (auto simp: peer_inv_def buffer_packet_last_n)

text \<open>What a handler did to the state: nothing, or it replaced the entry of one known peer.\<close>

definition touches :: "'pk VpnCore \<Rightarrow> 'pk VpnCore \<Rightarrow> bool" where
  "touches s t \<longleftrightarrow> t = s \<or>
     (\<exists>k old new. peers s k = Some old \<and> peer_inv s k new \<and>
                   t = s\<lparr>peers := (peers s)(k \<mapsto> new)\<rparr>)"

lemma touches_inv: "touches s t \<Longrightarrow> core_inv s \<Longrightarrow> core_inv t \<and> core_config t = core_config s"
  by (auto simp: touches_def core_inv_upd core_config_upd)

lemma touches_refl: "touches s s"
  by (simp add: touches_def)

lemma touchesI:
  "peers s k = Some old \<Longrightarrow> peer_inv s k new \<Longrightarrow> touches s (s\<lparr>peers := (peers s)(k \<mapsto> new)\<rparr>)"
  by (auto simp: touches_def)

lemma on_peer_connected_cases:
  obtains (unknown) "peers s k = None"
      "on_peer_connected s k = Some (s, [DisconnectFromPeer k])"
    | (already) peer where "peers s k = Some peer" and "is_connected peer"
      "on_peer_connected s k = Some (s, [NoAction AlreadyConnected])"
    | (drained) peer where "peers s k = Some peer" and "\<not> is_connected peer"
      "on_peer_connected s k =
         Some (s\<lparr>peers := (peers s)(k \<mapsto> peer\<lparr>is_connected := True, packet_queue := []\<rparr>)\<rparr>,
               map (\<lambda>p. SendPacketTo p k) (packet_queue peer))"
  by (cases "peers s k"; cases "is_connected (the (peers s k))")
     (auto simp: on_peer_connected_def is_neighbour_def is_connect_open_def)

lemma on_peer_disconnected_cases:
  obtains (unknown) "peers s k = None"
      "on_peer_disconnected s k = Some (s, [NoAction UnknownPeer])"
    | (already) peer where "peers s k = Some peer" and "\<not> is_connected peer"
      "on_peer_disconnected s k = Some (s, [NoAction AlreadyDisconnected])"
    | (closed) peer where "peers s k = Some peer" and "is_connected peer"
      "on_peer_disconnected s k =
         Some (s\<lparr>peers := (peers s)(k \<mapsto> peer\<lparr>is_connected := False\<rparr>)\<rparr>, [])"
  by (cases "peers s k"; cases "is_connected (the (peers s k))")
     (auto simp: on_peer_disconnected_def is_neighbour_def is_connect_open_def)

lemma send_packet_cases:
  assumes "core_inv s"
  obtains (rejected) e where "\<And>k. \<not> egress_ok s p k"
      "send_packet s p = Some (s, [NoAction (LogEvent.SendPacketError e)])"
    | (sent) k peer where "egress_ok s p k" and "peers s k = Some peer" and "is_connected peer"
      "send_packet s p = Some (s, [SendPacketTo p k])"
    | (buffered) k peer where "egress_ok s p k" and "peers s k = Some peer" and "\<not> is_connected peer"
      "send_packet s p =
         Some (s\<lparr>peers := (peers s)(k \<mapsto> peer\<lparr>packet_queue := fst (buffer_packet (packet_queue peer) p)\<rparr>)\<rparr>,
               map NoAction (snd (buffer_packet (packet_queue peer) p)))"
proof (cases "\<exists>k. egress_ok s p k")
  case True
  then obtain k where k: "egress_ok s p k" ..
  from core_inv_route [OF assms k] obtain peer where peer: "peers s k = Some peer" ..
  with send_packet_accept [OF k] show thesis
    by (cases "is_connected peer") (auto simp: is_connect_open_def intro: sent [OF k] buffered [OF k])
next
  case False
  with send_packet_reject [of s p] show thesis using rejected by blast
qed

lemma recv_packet_eq:
  "\<exists>e. recv_packet s p from =
     Some (if ingress_ok s p from then [WriteToTun p] else [NoAction (LogEvent.RecvPacketError e)])"
proof -
  obtain r where r: "verify_recv_packet s p from = Some r" by (simp add: verify_recv_packet_eq)
  show ?thesis
  proof (cases r)
    case (Inl e)
    with r have "\<not> ingress_ok s p from" using verify_recv_packet_ok [of s p "from"] by auto
    with r Inl show ?thesis by (simp add: recv_packet_def)
  next
    case (Inr u)
    with r have "ingress_ok s p from" using verify_recv_packet_ok [of s p "from"] by auto
    with r Inr show ?thesis by (simp add: recv_packet_def)
  qed
qed

section \<open>Totality\<close>

lemma process_touches:
  assumes "core_inv s"
  shows "\<exists>t acts. process s e = Some (t, acts) \<and> touches s t"
proof (cases e)
  case (PeerConnected k)
  then show ?thesis
    by (cases rule: on_peer_connected_cases [of s k])
       (auto intro: touches_refl touchesI peer_inv_connect)
next
  case (PeerDisconnected k)
  then show ?thesis
    by (cases rule: on_peer_disconnected_cases [of s k])
       (auto intro: touches_refl touchesI peer_inv_disconnect core_inv_peer [OF assms])
next
  case (PacketFromTun p)
  then show ?thesis
    by (cases rule: send_packet_cases [OF assms, of p])
       (auto intro: touches_refl touchesI peer_inv_buffer core_inv_peer [OF assms])
next
  case (PacketFromIroh p "from")
  with recv_packet_eq [of s p "from"] show ?thesis by (auto intro: touches_refl)
qed

interpretation core: panic_free process core_inv
proof
  show "process s e \<noteq> None" if "core_inv s" for s :: "'a VpnCore" and e
    using process_touches [OF that, of e] by auto
  show "core_inv t" if "core_inv s" and "process s e = Some (t, os)" for s t :: "'a VpnCore" and e os
    using process_touches [OF that(1), of e] that touches_inv by fastforce
qed

lemma process_config:
  assumes "core_inv s" and "process s e = Some (t, acts)"
  shows "core_config t = core_config s"
  using process_touches [OF assms(1), of e] assms touches_inv by fastforce

section \<open>Construction\<close>

lemma fold_peers:
  "fold (\<lambda>(ip, k) m. m(k \<mapsto> \<lparr>is_connected = False, peer_ipv4_addr = ip, packet_queue = []\<rparr>)) xs m k =
     (case find (\<lambda>(ip, k'). k' = k) (rev xs) of
        Some (ip, _) \<Rightarrow> Some \<lparr>is_connected = False, peer_ipv4_addr = ip, packet_queue = []\<rparr>
      | None \<Rightarrow> m k)"
  by (induction xs arbitrary: m rule: rev_induct) (auto split: prod.splits)

lemma VpnCore_new_peers:
  "peers (VpnCore_new addr table iter n) k =
     map_option (\<lambda>(ip, _). \<lparr>is_connected = False, peer_ipv4_addr = ip, packet_queue = []\<rparr>)
       (find (\<lambda>(ip, k'). k' = k) (rev iter))"
  by (auto simp: VpnCore_new_def fold_peers split: option.splits prod.splits)

lemma VpnCore_new_peer_cases:
  assumes "peers (VpnCore_new addr table iter n) k = Some peer"
  shows "\<exists>ip. (ip, k) \<in> set iter \<and>
    peer = \<lparr>is_connected = False, peer_ipv4_addr = ip, packet_queue = []\<rparr>"
  using assms by (fastforce simp: VpnCore_new_peers dest: find_SomeD)

lemma VpnCore_new_dom: "dom (peers (VpnCore_new addr table iter n)) = snd ` set iter"
  by (force simp: VpnCore_new_peers dom_def find_None_iff image_iff)

lemma VpnCore_new_core_inv:
  assumes "ran table = snd ` set iter"
  shows "core_inv (VpnCore_new addr table iter n)"
proof -
  have "route_table (VpnCore_new addr table iter n) = table" by (simp add: VpnCore_new_def)
  with assms show ?thesis
    unfolding core_inv_def VpnCore_new_dom
    by (auto simp: peer_inv_def dest: VpnCore_new_peer_cases)
qed

section \<open>What the handlers emit\<close>

lemma buffer_packet_set: "x \<in> set (fst (buffer_packet q p)) \<Longrightarrow> x \<in> insert p (set q)"
  by (cases q) (auto simp: buffer_packet_def split: if_splits)

lemma buffer_packet_logs: "set (snd (buffer_packet q p)) \<subseteq> {PacketQueueOverflow, PacketBuffered}"
  by (simp add: buffer_packet_def)

lemma process_no_internal_error:
  assumes "core_inv s" and "process s e = Some (t, acts)"
  shows "NoAction InternalStateError \<notin> set acts \<and> (\<forall>k. ConnectToPeer k \<notin> set acts)"
proof (cases e)
  case (PeerConnected k)
  with assms show ?thesis by (cases rule: on_peer_connected_cases [of s k]) auto
next
  case (PeerDisconnected k)
  with assms show ?thesis by (cases rule: on_peer_disconnected_cases [of s k]) auto
next
  case (PacketFromTun p)
  with assms show ?thesis
    by (cases rule: send_packet_cases [OF assms(1), of p]) (auto dest: subsetD [OF buffer_packet_logs])
next
  case (PacketFromIroh p "from")
  with assms recv_packet_eq [of s p "from"] show ?thesis by (auto split: if_splits)
qed

lemma process_disconnect_unknown:
  assumes "core_inv s" and "process s e = Some (t, acts)" and "DisconnectFromPeer k \<in> set acts"
  shows "e = PeerConnected k \<and> peers s k = None"
proof (cases e)
  case (PeerConnected k')
  with assms show ?thesis by (cases rule: on_peer_connected_cases [of s k']) auto
next
  case (PeerDisconnected k')
  with assms show ?thesis by (cases rule: on_peer_disconnected_cases [of s k']) auto
next
  case (PacketFromTun p)
  with assms show ?thesis by (cases rule: send_packet_cases [OF assms(1), of p]) auto
next
  case (PacketFromIroh p "from")
  with assms recv_packet_eq [of s p "from"] show ?thesis by (auto split: if_splits)
qed

lemma process_send_packet_to:
  assumes "core_inv s" and "process s e = Some (t, acts)" and "SendPacketTo p k \<in> set acts"
  shows "egress_ok s p k \<and> (\<exists>peer. peers t k = Some peer \<and> is_connected peer) \<and>
    (e = PacketFromTun p \<or> e = PeerConnected k)"
proof (cases e)
  case (PeerConnected k')
  with assms show ?thesis
    by (cases rule: on_peer_connected_cases [of s k'])
       (auto intro: core_inv_queued [OF assms(1)])
next
  case (PeerDisconnected k')
  with assms show ?thesis by (cases rule: on_peer_disconnected_cases [of s k']) auto
next
  case (PacketFromTun p')
  with assms show ?thesis by (cases rule: send_packet_cases [OF assms(1), of p']) auto
next
  case (PacketFromIroh p' "from")
  with assms recv_packet_eq [of s p' "from"] show ?thesis by (auto split: if_splits)
qed

lemma process_write_to_tun:
  assumes "core_inv s" and "process s e = Some (t, acts)" and "WriteToTun p \<in> set acts"
  shows "\<exists>from. e = PacketFromIroh p from \<and> ingress_ok s p from"
proof (cases e)
  case (PeerConnected k')
  with assms show ?thesis by (cases rule: on_peer_connected_cases [of s k']) auto
next
  case (PeerDisconnected k')
  with assms show ?thesis by (cases rule: on_peer_disconnected_cases [of s k']) auto
next
  case (PacketFromTun p')
  with assms show ?thesis by (cases rule: send_packet_cases [OF assms(1), of p']) auto
next
  case (PacketFromIroh p' "from")
  with assms recv_packet_eq [of s p' "from"] show ?thesis by (auto split: if_splits)
qed

section \<open>Buffering a run of packets\<close>

lemma send_packet_disconnected:
  assumes "core_inv s" and "egress_ok s p k" and "peers s k = Some peer" and "\<not> is_connected peer"
  shows "process s (PacketFromTun p) =
     Some (s\<lparr>peers := (peers s)(k \<mapsto> peer\<lparr>packet_queue :=
              last_n MAX_PACKETS_IN_QUEUE (packet_queue peer @ [p])\<rparr>)\<rparr>,
           map NoAction (snd (buffer_packet (packet_queue peer) p)))"
  using assms core_inv_peer [OF assms(1,3)]
  by (simp add: send_packet_accept is_connect_open_def buffer_packet_last_n peer_inv_def)

definition is_log :: "'pk Action \<Rightarrow> bool" where
  "is_log a \<longleftrightarrow> (\<exists>e. a = NoAction e)"

lemma is_log_simps [simp]:
  "is_log (NoAction e)" "\<not> is_log (SendPacketTo p k)" "\<not> is_log (WriteToTun p)"
  "\<not> is_log (DisconnectFromPeer k)" "\<not> is_log (ConnectToPeer k)"
  by (simp_all add: is_log_def)

lemma process_all_buffers:
  assumes "core_inv s" and "peers s k = Some peer" and "\<not> is_connected peer"
    and "\<forall>p \<in> set ps. egress_ok s p k"
  shows "\<exists>acts. process_all s (map PacketFromTun ps) =
      Some (s\<lparr>peers := (peers s)(k \<mapsto> peer\<lparr>packet_queue :=
               last_n MAX_PACKETS_IN_QUEUE (packet_queue peer @ ps)\<rparr>)\<rparr>, acts)
    \<and> (\<forall>a \<in> set acts. is_log a)"
  using assms
proof (induction ps arbitrary: s peer)
  case Nil
  then have "packet_queue peer = last_n MAX_PACKETS_IN_QUEUE (packet_queue peer)"
    by (auto dest: core_inv_peer simp: peer_inv_def)
  with Nil show ?case by (simp add: fun_upd_idem)
next
  case (Cons p ps)
  let ?q = "last_n MAX_PACKETS_IN_QUEUE (packet_queue peer @ [p])"
  let ?t = "s\<lparr>peers := (peers s)(k \<mapsto> peer\<lparr>packet_queue := ?q\<rparr>)\<rparr>"
  have step: "process s (PacketFromTun p) =
      Some (?t, map NoAction (snd (buffer_packet (packet_queue peer) p)))"
    using Cons.prems by (intro send_packet_disconnected) auto
  then have "core_inv ?t" by (rule core.keeps_inv [OF Cons.prems(1)])
  with Cons.prems Cons.IH [of ?t "peer\<lparr>packet_queue := ?q\<rparr>"]
  obtain acts where "process_all ?t (map PacketFromTun ps) =
      Some (s\<lparr>peers := (peers s)(k \<mapsto> peer\<lparr>packet_queue :=
               last_n MAX_PACKETS_IN_QUEUE (packet_queue peer @ p # ps)\<rparr>)\<rparr>, acts)"
    and "\<forall>a \<in> set acts. is_log a"
    by (auto simp: last_n_append fun_upd_same simp del: fun_upd_apply)
  with step show ?case by (auto simp del: fun_upd_apply)
qed

lemma process_all_drains:
  assumes "core_inv s" and "peers s k = Some peer" and "\<not> is_connected peer"
    and "\<forall>p \<in> set ps. egress_ok s p k"
  shows "\<exists>t acts. process_all s (map PacketFromTun ps @ [PeerConnected k]) = Some (t, acts)
    \<and> filter (\<lambda>a. \<not> is_log a) acts =
        map (\<lambda>p. SendPacketTo p k) (last_n MAX_PACKETS_IN_QUEUE (packet_queue peer @ ps))
    \<and> peers t = (peers s)(k \<mapsto> peer\<lparr>is_connected := True, packet_queue := []\<rparr>)"
proof -
  obtain logs where run: "process_all s (map PacketFromTun ps) =
      Some (s\<lparr>peers := (peers s)(k \<mapsto> peer\<lparr>packet_queue :=
               last_n MAX_PACKETS_IN_QUEUE (packet_queue peer @ ps)\<rparr>)\<rparr>, logs)"
    and logs: "\<forall>a \<in> set logs. is_log a"
    using process_all_buffers [OF assms] by blast
  from logs have "filter (\<lambda>a. \<not> is_log a) logs = []" by simp
  with run assms(3) show ?thesis
    by (simp add: run_events_append on_peer_connected_def is_neighbour_def is_connect_open_def)
qed

section \<open>Log texts\<close>

lemma fmt_ParseError_inject [simp]: "fmt_ParseError a = fmt_ParseError b \<longleftrightarrow> a = b"
  by (cases a; cases b) simp_all

lemma fmt_SendPacketError_inject [simp]: "fmt_SendPacketError a = fmt_SendPacketError b \<longleftrightarrow> a = b"
  by (cases a; cases b) simp_all

lemma fmt_RecvPacketError_inject [simp]: "fmt_RecvPacketError a = fmt_RecvPacketError b \<longleftrightarrow> a = b"
  by (cases a; cases b) simp_all

section \<open>An example configuration\<close>

text \<open>A node 10.67.1.1 with one peer, key 7 at 10.67.1.2, and a packet from one to the other.\<close>

definition sample_table :: "(Ipv4Addr \<times> nat) list" where
  "sample_table = [(Ipv4Addr 10 67 1 2, 7)]"

definition sample_core :: "nat VpnCore" where
  "sample_core = VpnCore_new (Ipv4Addr 10 67 1 1) (map_of sample_table) sample_table 1100"

definition sample_packet :: "u8 \<Rightarrow> bytes" where
  "sample_packet b =
     ipv4_header 0x45 0 21 0 0 64 1 0 (Ipv4Addr 10 67 1 1) (Ipv4Addr 10 67 1 2) @ [b]"

definition sample_reply :: bytes where
  "sample_reply = ipv4_header 0x45 0 20 0 0 64 1 0 (Ipv4Addr 10 67 1 2) (Ipv4Addr 10 67 1 1)"

lemma sample_peers: "peers sample_core = [7 \<mapsto> \<lparr>is_connected = False,
    peer_ipv4_addr = Ipv4Addr 10 67 1 2, packet_queue = []\<rparr>]"
  by (simp add: sample_core_def VpnCore_new_def sample_table_def)

lemma sample_inv: "core_inv sample_core"
  by (simp add: core_inv_def sample_peers peer_inv_def)
     (simp add: sample_core_def VpnCore_new_def sample_table_def)

lemma sample_egress: "egress_ok sample_core (sample_packet b) 7"
  by (simp add: egress_ok_def well_formed_def sample_packet_def sample_core_def sample_table_def
      VpnCore_new_def header_version_def ipv4_header_length ipv4_header_fields)

lemma sample_ingress: "ingress_ok sample_core sample_reply 7"
  using ipv4_header_fields [of "0x45" 0 20 0 0 64 1 0 "Ipv4Addr 10 67 1 2" "Ipv4Addr 10 67 1 1" "[]"]
  by (simp add: ingress_ok_def well_formed_def sample_reply_def sample_core_def sample_table_def
      VpnCore_new_def header_version_def ipv4_header_length)

section \<open>Properties\<close>

text \<open>
  \<^verbatim>\<open>VpnCore::new\<close> establishes the invariant whatever order the hash map iterates in:
  every key of the routing table gets a peer entry and no other key does, every peer starts
  disconnected with an empty queue and with an address that the table maps to it.
\<close>

theorem VpnCore_new_inv:
  assumes "iterates iter table"
  shows "core_inv (VpnCore_new addr table iter n) \<and>
    dom (peers (VpnCore_new addr table iter n)) = ran table \<and>
    (\<forall>k peer. peers (VpnCore_new addr table iter n) k = Some peer \<longrightarrow>
       \<not> is_connected peer \<and> packet_queue peer = [] \<and> table (peer_ipv4_addr peer) = Some k)"
proof -
  let ?s = "VpnCore_new addr table iter n"
  have dom: "dom (peers ?s) = ran table"
    using assms by (simp add: VpnCore_new_dom iterates_values)
  have peer: "\<not> is_connected peer \<and> packet_queue peer = [] \<and> table (peer_ipv4_addr peer) = Some k"
    if "peers ?s k = Some peer" for k peer
    using VpnCore_new_peer_cases [OF that] iterates_set [OF assms] by auto
  moreover have "core_inv ?s"
    using assms by (intro VpnCore_new_core_inv) (simp add: iterates_values)
  ultimately show ?thesis using dom by blast
qed

theorem VpnCore_new_inv_witness:
  "iterates sample_table (map_of sample_table) \<and>
   dom (peers (VpnCore_new (Ipv4Addr 10 67 1 1) (map_of sample_table) sample_table 1100)) = {7}"
proof -
  have it: "iterates sample_table (map_of sample_table)"
    by (simp add: iterates_def sample_table_def)
  from VpnCore_new_inv [OF it, of "Ipv4Addr 10 67 1 1" 1100]
  have "dom (peers (VpnCore_new (Ipv4Addr 10 67 1 1) (map_of sample_table) sample_table 1100))
      = ran (map_of sample_table)" by blast
  with it show ?thesis by (simp add: sample_table_def)
qed

text \<open>
  C18. Under the invariant \<^verbatim>\<open>process\<close> never panics on any event (none of its hash map index
  expressions misses), keeps the invariant, leaves address, size limit, routing table and
  whitelist unchanged, and never takes one of its \<open>InternalStateError\<close> branches.
\<close>

theorem core_process_total:
  assumes "core_inv s"
  shows "\<exists>t acts. process s e = Some (t, acts) \<and> core_inv t \<and> core_config t = core_config s \<and>
    NoAction InternalStateError \<notin> set acts"
proof -
  obtain t acts where t: "process s e = Some (t, acts)" "core_inv t"
    using assms by (rule core.process_total)
  with process_config [OF assms t(1)] process_no_internal_error [OF assms t(1)] show ?thesis by blast
qed

theorem core_process_total_witness:
  "core_inv sample_core \<and>
   (\<exists>t acts. process sample_core (PacketFromTun (sample_packet 9)) = Some (t, acts) \<and> core_inv t)"
  using core_process_total [OF sample_inv, of "PacketFromTun (sample_packet 9)"] sample_inv by blast

text \<open>
  C19. Ingress and anti-spoofing: a packet that a peer delivers is written to the host exactly
  when it is a well-formed IPv4 packet within the size limit, is addressed to this node, and
  its source address is the one the routing table assigns to that very peer. Otherwise it is
  dropped with a logged reason. In both cases the state is unchanged and nothing panics.
\<close>

theorem recv_packet_admission:
  "\<exists>e. process s (PacketFromIroh p from) =
     Some (s, if 20 \<le> length p \<and> length p \<le> max_packet_size s \<and> header_version p = 4 \<and>
                 header_total_length p \<le> length p \<and> header_dst p = ipv4_addr s \<and>
                 route_table s (header_src p) = Some from
              then [WriteToTun p] else [NoAction (LogEvent.RecvPacketError e)])"
  using recv_packet_eq [of s p "from"] by (auto simp: ingress_ok_def well_formed_def)

text \<open>
  Egress: whatever the event, a packet is handed to the network for peer \<open>k\<close> only if it
  is well formed, has this node's address as source, a non-zero TTL and a destination that
  the routing table maps to \<open>k\<close>; \<open>k\<close> is connected after the step, and the packet is the
  one just read from the host or one that was queued for \<open>k\<close> and is released by its
  connection.
\<close>

theorem send_packet_admission:
  assumes "core_inv s" and "process s e = Some (t, acts)" and "SendPacketTo p k \<in> set acts"
  shows "egress_ok s p k \<and> (\<exists>peer. peers t k = Some peer \<and> is_connected peer) \<and>
    (e = PacketFromTun p \<or>
     e = PeerConnected k \<and> (\<exists>old. peers s k = Some old \<and> p \<in> set (packet_queue old)))"
proof (cases "e = PacketFromTun p")
  case True
  with process_send_packet_to [OF assms] show ?thesis by blast
next
  case False
  with process_send_packet_to [OF assms] have e: "e = PeerConnected k" by blast
  have "\<exists>old. peers s k = Some old \<and> p \<in> set (packet_queue old)"
    using assms e by (cases rule: on_peer_connected_cases [of s k]) auto
  with process_send_packet_to [OF assms] e show ?thesis by blast
qed

lemma sample_connected:
  "process sample_core (PeerConnected 7) =
     Some (sample_core\<lparr>peers := (peers sample_core)(7 \<mapsto> \<lparr>is_connected = True,
       peer_ipv4_addr = Ipv4Addr 10 67 1 2, packet_queue = []\<rparr>)\<rparr>, [])"
  by (simp add: on_peer_connected_def is_neighbour_def is_connect_open_def sample_peers)

definition sample_connected_core :: "nat VpnCore" where
  "sample_connected_core = sample_core\<lparr>peers := (peers sample_core)(7 \<mapsto> \<lparr>is_connected = True,
       peer_ipv4_addr = Ipv4Addr 10 67 1 2, packet_queue = []\<rparr>)\<rparr>"

lemma sample_connected_inv: "core_inv sample_connected_core"
  unfolding sample_connected_core_def by (rule core.keeps_inv [OF sample_inv sample_connected])

lemma sample_connected_send:
  "process sample_connected_core (PacketFromTun (sample_packet b)) =
     Some (sample_connected_core, [SendPacketTo (sample_packet b) 7])"
proof -
  have "egress_ok sample_connected_core (sample_packet b) 7"
    using sample_egress [of b] by (simp add: sample_connected_core_def)
  then show ?thesis
    by (simp add: send_packet_accept is_connect_open_def) (simp add: sample_connected_core_def)
qed

theorem send_packet_admission_witness:
  "core_inv sample_connected_core \<and>
   process sample_connected_core (PacketFromTun (sample_packet 9)) =
     Some (sample_connected_core, [SendPacketTo (sample_packet 9) 7]) \<and>
   egress_ok sample_connected_core (sample_packet 9) 7"
  using send_packet_admission [OF sample_connected_inv sample_connected_send, of "sample_packet 9" 7 9]
    sample_connected_inv sample_connected_send by simp

text \<open>
  Store and forward: packets from the host for a disconnected peer are kept in arrival
  order, at most the newest 1000 of them; when the peer connects exactly these are sent, in
  that order, each once, and the queue is empty afterwards. Nothing else is emitted in
  between but log entries.
\<close>

theorem buffered_packets_released:
  assumes "core_inv s" and "peers s k = Some peer" and "\<not> is_connected peer"
    and "\<forall>p \<in> set ps. egress_ok s p k"
  shows "\<exists>t acts. process_all s (map PacketFromTun ps @ [PeerConnected k]) = Some (t, acts)
    \<and> filter (\<lambda>a. \<not> is_log a) acts =
        map (\<lambda>p. SendPacketTo p k) (last_n 1000 (packet_queue peer @ ps))
    \<and> peers t = (peers s)(k \<mapsto> peer\<lparr>is_connected := True, packet_queue := []\<rparr>)"
  using process_all_drains [OF assms] by (simp add: MAX_PACKETS_IN_QUEUE_def)

theorem buffered_packets_released_witness:
  "\<exists>t acts. process_all sample_core
       (map PacketFromTun [sample_packet 1, sample_packet 2] @ [PeerConnected 7]) = Some (t, acts)
    \<and> filter (\<lambda>a. \<not> is_log a) acts =
        [SendPacketTo (sample_packet 1) 7, SendPacketTo (sample_packet 2) 7]"
proof -
  let ?peer = "\<lparr>is_connected = False, peer_ipv4_addr = Ipv4Addr 10 67 1 2, packet_queue = []\<rparr>"
  have "peers sample_core 7 = Some ?peer" by (simp add: sample_peers)
  from buffered_packets_released [OF sample_inv this, of "[sample_packet 1, sample_packet 2]"]
  show ?thesis by (auto simp: sample_egress)
qed

text \<open>
  The log text identifies the event: the texts printed for two different log events are
  different, and so are the texts of the errors nested in them.
\<close>

theorem fmt_LogEvent_injective: "inj fmt_LogEvent"
proof (rule injI)
  show "a = b" if "fmt_LogEvent a = fmt_LogEvent b" for a b
    using that by (cases a; cases b) simp_all
qed

end
