(* ===== verification/Vpn_Core_Spec.thy ===== *)
theory Vpn_Core_Spec
  imports Vpn_Core
begin

text \<open>
  What the VPN core promises, as a specification that is independent of its code: a router
  keeps for every whitelisted key either an open link or a bounded buffer, and its events act
  on that. The core refines the specification: \<open>router_of\<close> abstracts its state,
  \<open>effect_of\<close> forgets log entries, and every event commutes with them. Whole runs follow
  from the locale \<open>refined_processor\<close>, interpreted here on the core's definitions.
\<close>

section \<open>The specification\<close>

datatype link = Up | Down "bytes list"

record 'pk Router =
  r_max :: nat
  r_addr :: Ipv4Addr
  r_routes :: "Ipv4Addr \<rightharpoonup> 'pk"
  r_links :: "'pk \<rightharpoonup> link"

datatype 'pk effect = Transmit bytes 'pk | Deliver bytes | Refuse 'pk

definition egress_key :: "'pk Router \<Rightarrow> bytes \<Rightarrow> 'pk option" where
  "egress_key r p =
     (if well_formed (r_max r) p \<and> p ! 8 \<noteq> 0 \<and> header_src p = r_addr r
      then r_routes r (header_dst p) else None)"

fun router_step :: "'pk Router \<Rightarrow> 'pk Event \<Rightarrow> 'pk Router \<times> 'pk effect list" where
  "router_step r (PeerConnected k) =
     (case r_links r k of
        None \<Rightarrow> (r, [Refuse k])
      | Some Up \<Rightarrow> (r, [])
      | Some (Down buf) \<Rightarrow> (r\<lparr>r_links := (r_links r)(k \<mapsto> Up)\<rparr>, map (\<lambda>p. Transmit p k) buf))"
| "router_step r (PeerDisconnected k) =
     (case r_links r k of
        Some Up \<Rightarrow> (r\<lparr>r_links := (r_links r)(k \<mapsto> Down [])\<rparr>, [])
      | _ \<Rightarrow> (r, []))"
| "router_step r (PacketFromTun p) =
     (case egress_key r p of
        None \<Rightarrow> (r, [])
      | Some k \<Rightarrow>
          (case r_links r k of
             Some Up \<Rightarrow> (r, [Transmit p k])
           | Some (Down buf) \<Rightarrow> (r\<lparr>r_links := (r_links r)(k \<mapsto> Down (last_n 1000 (buf @ [p])))\<rparr>, [])
           | None \<Rightarrow> (r, [])))"
| "router_step r (PacketFromIroh p from) =
     (r, if well_formed (r_max r) p \<and> header_dst p = r_addr r \<and> r_routes r (header_src p) = Some from
         then [Deliver p] else [])"

section \<open>The abstraction\<close>

definition link_of :: "PeerState \<Rightarrow> link" where
  "link_of peer = (if is_connected peer then Up else Down (packet_queue peer))"

definition router_of :: "'pk VpnCore \<Rightarrow> 'pk Router" where
  "router_of s = \<lparr>r_max = max_packet_size s, r_addr = ipv4_addr s, r_routes = route_table s,
                  r_links = map_option link_of \<circ> peers s\<rparr>"

fun effect_of :: "'pk Action \<Rightarrow> 'pk effect option" where
  "effect_of (SendPacketTo p k) = Some (Transmit p k)"
| "effect_of (WriteToTun p) = Some (Deliver p)"
| "effect_of (DisconnectFromPeer k) = Some (Refuse k)"
| "effect_of (ConnectToPeer k) = None"
| "effect_of (NoAction e) = None"

section \<open>Simulation\<close>

lemma map_filter_effect_log [simp]: "List.map_filter effect_of (map NoAction logs) = []"
  by (induction logs) (simp_all add: map_filter_simps)

lemma map_filter_effect_send [simp]:
  "List.map_filter effect_of (map (\<lambda>p. SendPacketTo p k) ps) = map (\<lambda>p. Transmit p k) ps"
  by (induction ps) (simp_all add: map_filter_simps)

lemma router_of_simps [simp]:
  "r_max (router_of s) = max_packet_size s" "r_addr (router_of s) = ipv4_addr s"
  "r_routes (router_of s) = route_table s" "r_links (router_of s) k = map_option link_of (peers s k)"
  by (simp_all add: router_of_def)

lemma router_of_upd:
  "router_of (s\<lparr>peers := (peers s)(k \<mapsto> peer)\<rparr>) =
     (router_of s)\<lparr>r_links := (r_links (router_of s))(k \<mapsto> link_of peer)\<rparr>"
  by (simp add: router_of_def fun_eq_iff)

lemma egress_key_iff: "egress_key (router_of s) p = Some k \<longleftrightarrow> egress_ok s p k"
  by (auto simp: egress_key_def egress_ok_def)

lemma egress_key_None: "egress_key (router_of s) p = None \<longleftrightarrow> (\<forall>k. \<not> egress_ok s p k)"
  by (auto simp: egress_key_iff [symmetric])

lemma process_refines:
  assumes inv: "core_inv s" and step: "process s e = Some (t, acts)"
  shows "router_step (router_of s) e = (router_of t, List.map_filter effect_of acts)"
proof (cases e)
  case (PeerConnected k)
  with step show ?thesis
    by (cases rule: on_peer_connected_cases [of s k])
       (auto simp: map_filter_simps router_of_upd link_of_def)
next
  case (PeerDisconnected k)
  with step show ?thesis
    using core_inv_peer [OF inv]
    by (cases rule: on_peer_disconnected_cases [of s k])
       (auto simp: map_filter_simps router_of_upd link_of_def peer_inv_def)
next
  case (PacketFromTun p)
  from inv show ?thesis
  proof (cases rule: send_packet_cases [of s p, consumes 1, case_names rejected sent buffered])
    case (rejected err)
    then have "egress_key (router_of s) p = None" by (simp add: egress_key_None)
    with rejected step PacketFromTun show ?thesis by (auto simp: map_filter_simps)
  next
    case (sent k peer)
    then have "egress_key (router_of s) p = Some k" by (simp add: egress_key_iff)
    with sent step PacketFromTun show ?thesis by (auto simp: map_filter_simps link_of_def)
  next
    case (buffered k peer)
    then have "egress_key (router_of s) p = Some k" by (simp add: egress_key_iff)
    with buffered step PacketFromTun core_inv_peer [OF inv buffered(2)] show ?thesis
      by (auto simp: router_of_upd link_of_def peer_inv_def buffer_packet_last_n MAX_PACKETS_IN_QUEUE_def)
  qed
next
  case (PacketFromIroh p "from")
  with step recv_packet_eq [of s p "from"] show ?thesis
    by (auto simp: map_filter_simps ingress_ok_def)
qed

interpretation core_router: refined_processor process core_inv router_of effect_of router_step
  by unfold_locales (rule process_refines)

section \<open>Properties\<close>

text \<open>
  C9. Refinement: from any state that satisfies the invariant, any sequence of events runs
  without a panic, and the packets it transmits and delivers and the peers it refuses are, in
  order, those of the router specification; the final states correspond too.
\<close>

theorem core_refines_router:
  assumes "core_inv s"
  shows "\<exists>t acts. process_all s es = Some (t, acts) \<and> core_inv t \<and>
    run_spec router_step (router_of s) es = (router_of t, List.map_filter effect_of acts)"
  using assms by (rule core_router.run_simulates)

theorem core_refines_router_witness:
  "\<exists>t acts. process_all sample_core [PeerConnected 7, PacketFromTun (sample_packet 1)] = Some (t, acts) \<and>
    run_spec router_step (router_of sample_core) [PeerConnected 7, PacketFromTun (sample_packet 1)]
      = (router_of t, List.map_filter effect_of acts)"
  using core_refines_router [OF sample_inv, of "[PeerConnected 7, PacketFromTun (sample_packet 1)]"]
  by blast

end
