(* ===== verification/Vpn_Core_History.thy ===== *)
theory Vpn_Core_History
  imports Vpn_Core_Spec
begin

text \<open>
  The core, event by event, against a reference that looks at the whole history at once:
  \<open>link_history\<close> reads off the list of all events whether a peer is connected and which packets
  wait for it, without any state. The two agree after every run.
\<close>

section \<open>The reference\<close>

text \<open>The packet an event leaves for peer \<open>k\<close>.\<close>

fun packet_for :: "'pk Router \<Rightarrow> 'pk \<Rightarrow> 'pk Event \<Rightarrow> bytes option" where
  "packet_for r k (PacketFromTun p) = (if egress_key r p = Some k then Some p else None)"
| "packet_for r k _ = None"

text \<open>
  The events since the last connection of \<open>k\<close>, and of these the ones since it was lost: all of
  them when there never was a connection.
\<close>

definition since_connected :: "'pk \<Rightarrow> 'pk Event list \<Rightarrow> 'pk Event list" where
  "since_connected k es = rev (takeWhile (\<lambda>e. e \<noteq> PeerConnected k) (rev es))"

definition offline :: "'pk \<Rightarrow> 'pk Event list \<Rightarrow> 'pk Event list" where
  "offline k es =
     (if PeerConnected k \<in> set es then dropWhile (\<lambda>e. e \<noteq> PeerDisconnected k) (since_connected k es) else es)"

definition link_history :: "'pk Router \<Rightarrow> 'pk \<Rightarrow> 'pk Event list \<Rightarrow> link" where
  "link_history r k es =
     (if PeerConnected k \<in> set es \<and> PeerDisconnected k \<notin> set (since_connected k es) then Up
      else Down (last_n 1000 (List.map_filter (packet_for r k) (offline k es))))"

section \<open>One more event\<close>

lemma since_connected_snoc:
  "since_connected k (es @ [e]) = (if e = PeerConnected k then [] else since_connected k es @ [e])"
  by (simp add: since_connected_def)

lemma offline_snoc:
  "offline k (es @ [e]) =
     (if e = PeerConnected k then []
      else if PeerConnected k \<in> set es \<and> PeerDisconnected k \<notin> set (since_connected k es)
      then (if e = PeerDisconnected k then [e] else [])
      else offline k es @ [e])"
  by (auto simp: offline_def since_connected_snoc dropWhile_append)

fun link_step :: "'pk Router \<Rightarrow> 'pk \<Rightarrow> 'pk Event \<Rightarrow> link \<Rightarrow> link" where
  "link_step r k (PeerConnected k') l = (if k' = k then Up else l)"
| "link_step r k (PeerDisconnected k') l = (if k' = k \<and> l = Up then Down [] else l)"
| "link_step r k (PacketFromTun p) l =
     (case l of
        Down buf \<Rightarrow> if egress_key r p = Some k then Down (last_n 1000 (buf @ [p])) else l
      | Up \<Rightarrow> Up)"
| "link_step r k (PacketFromIroh p from) l = l"

lemma link_history_snoc: "link_history r k (es @ [e]) = link_step r k e (link_history r k es)"
  by (cases e)
     (auto simp: link_history_def since_connected_snoc offline_snoc map_filter_append map_filter_simps
        last_n_append)

lemma router_step_config:
  assumes "router_step r e = (r', effs)"
  shows "r_max r' = r_max r" "r_addr r' = r_addr r" "r_routes r' = r_routes r"
  using assms by (cases e; auto split: option.splits link.splits)+

lemma router_step_links:
  assumes "router_step r e = (r', effs)"
  shows "r_links r' k = map_option (link_step r k e) (r_links r k)"
proof (cases e)
  case (PeerConnected k')
  with assms show ?thesis by (cases "r_links r k") (auto split: option.splits link.splits)
next
  case (PeerDisconnected k')
  with assms show ?thesis by (cases "r_links r k") (auto split: option.splits link.splits)
next
  case (PacketFromTun p)
  with assms show ?thesis
    by (cases "r_links r k"; cases "egress_key r p") (auto split: option.splits link.splits)
next
  case (PacketFromIroh p k')
  with assms show ?thesis by (cases "r_links r k") auto
qed

text \<open>The specification keeps exactly the reference's view of every peer.\<close>

lemma run_spec_snoc:
  "run_spec g a (es @ [e]) = (let (b, xs) = run_spec g a es; (c, ys) = g b e in (c, xs @ ys))"
  by (induction es arbitrary: a) (auto simp: Let_def split: prod.splits)

lemma egress_key_config:
  "r_max r' = r_max r \<Longrightarrow> r_addr r' = r_addr r \<Longrightarrow> r_routes r' = r_routes r \<Longrightarrow> egress_key r' = egress_key r"
  by (simp add: fun_eq_iff egress_key_def)

lemma link_step_config:
  assumes "egress_key r' = egress_key r"
  shows "link_step r' k e = link_step r k e"
  using assms by (cases e) (auto split: link.splits)

lemma router_history:
  assumes "\<forall>k. r_links r k = map_option (\<lambda>_. Down []) (r_links r k)"
  shows "run_spec router_step r es = (r', effs) \<Longrightarrow>
    egress_key r' = egress_key r \<and> r_max r' = r_max r \<and> r_addr r' = r_addr r \<and> r_routes r' = r_routes r \<and>
    (\<forall>k. r_links r' k = map_option (\<lambda>_. link_history r k es) (r_links r k))"
proof (induction es arbitrary: r' effs rule: rev_induct)
  case Nil
  have "link_history r k [] = Down []" for k by (simp add: link_history_def offline_def map_filter_simps)
  with Nil assms show ?case by simp
next
  case (snoc e es)
  obtain r1 xs where r1: "run_spec router_step r es = (r1, xs)" by fastforce
  obtain ys where r': "router_step r1 e = (r', ys)"
    using snoc.prems r1 by (auto simp: run_spec_snoc split: prod.splits)
  note IH = snoc.IH [OF r1] and step = router_step_config [OF r'] router_step_links [OF r']
  have "egress_key r' = egress_key r" using IH step egress_key_config [of r' r1] by simp
  moreover have "r_links r' k = map_option (\<lambda>_. link_history r k (es @ [e])) (r_links r k)" for k
    using step(4) [of k] IH link_step_config [of r1 r k e]
    by (cases "r_links r k") (simp_all add: link_history_snoc)
  ultimately show ?case using IH step by simp
qed

section \<open>Property\<close>

text \<open>
  C17. The incremental core equals the reference on histories: after any sequence of events from
  a fresh core, a peer counts as connected exactly when its last connection was not followed by
  a disconnection, and the packets waiting for it are the newest 1000 of those that were
  accepted for it since the connection was lost.
\<close>

theorem core_equals_history:
  assumes "iterates iter table"
  shows "\<exists>t acts. process_all (VpnCore_new addr table iter mtu) es = Some (t, acts) \<and>
    dom (peers t) = ran table \<and>
    (\<forall>k peer. peers t k = Some peer \<longrightarrow>
       link_of peer = link_history (router_of (VpnCore_new addr table iter mtu)) k es)"
proof -
  let ?c = "VpnCore_new addr table iter mtu"
  have inv: "core_inv ?c" using assms by (intro VpnCore_new_core_inv) (simp add: iterates_values)
  obtain t acts where t: "process_all ?c es = Some (t, acts)"
    "run_spec router_step (router_of ?c) es = (router_of t, List.map_filter effect_of acts)"
    using core_router.run_simulates [OF inv, of es] by blast
  have "r_links (router_of ?c) k = map_option (\<lambda>_. Down []) (r_links (router_of ?c) k)" for k
    by (cases "peers ?c k") (auto simp: link_of_def dest: VpnCore_new_peer_cases)
  from router_history [OF _ t(2)] this
  have links: "map_option link_of (peers t k) = map_option (\<lambda>_. link_history (router_of ?c) k es) (peers ?c k)" for k
    by (simp add: option.map_comp comp_def)
  have "dom (peers t) = dom (peers ?c)" using links by (auto simp: dom_def) (metis map_option_is_None not_None_eq)+
  then have "dom (peers t) = ran table" using assms by (simp add: VpnCore_new_dom iterates_values)
  moreover have "link_of peer = link_history (router_of ?c) k es" if "peers t k = Some peer" for k peer
    using links [of k] that by (cases "peers ?c k") auto
  ultimately show ?thesis using t(1) by blast
qed

theorem core_equals_history_witness:
  "\<exists>t acts peer. process_all sample_core
      [PeerConnected 7, PeerDisconnected 7, PacketFromTun (sample_packet 1)] = Some (t, acts) \<and>
    peers t 7 = Some peer \<and> packet_queue peer = [sample_packet 1]"
proof -
  let ?es = "[PeerConnected 7, PeerDisconnected 7, PacketFromTun (sample_packet 1)]"
  have it: "iterates sample_table (map_of sample_table)" by (simp add: iterates_def sample_table_def)
  obtain t acts where t: "process_all sample_core ?es = Some (t, acts)" "dom (peers t) = ran (map_of sample_table)"
    "\<forall>k peer. peers t k = Some peer \<longrightarrow> link_of peer = link_history (router_of sample_core) k ?es"
    using core_equals_history [OF it, of "Ipv4Addr 10 67 1 1" 1100 ?es] unfolding sample_core_def by blast
  have "7 \<in> dom (peers t)" unfolding t(2) by (simp add: sample_table_def)
  then obtain peer where p: "peers t 7 = Some peer" by blast
  have "egress_key (router_of sample_core) (sample_packet 1) = Some 7" by (simp add: egress_key_iff sample_egress)
  then have "link_history (router_of sample_core) 7 ?es = Down [sample_packet 1]"
    by (simp add: link_history_def since_connected_def offline_def map_filter_simps)
  with t(3) p have "link_of peer = Down [sample_packet 1]" by metis
  then have "packet_queue peer = [sample_packet 1]" by (simp add: link_of_def split: if_splits)
  with t(1) p show ?thesis by blast
qed

end
