(* ===== verification/Channels.thy ===== *)
theory Channels
  imports Prelude
begin

text \<open>
  The bounded channels of \<^verbatim>\<open>tokio::sync::mpsc\<close> as the program uses them: a queue with a fixed
  capacity, \<^verbatim>\<open>try_send\<close>, which fails on a full channel, and \<^verbatim>\<open>recv\<close>, which takes the oldest
  message. The interface is the locale \<open>bounded_channel\<close>: its laws are what the documentation of
  the crate promises, its lemmas are what the components rely on (a channel never holds more
  than its capacity, and messages come out in the order in which they went in, none lost and
  none twice). The capacities are the constants of \<^verbatim>\<open>src/main.rs\<close> and \<^verbatim>\<open>src/iroh.rs\<close>.
\<close>

section \<open>Operations\<close>

text \<open>The answers of \<^verbatim>\<open>try_send\<close>; the receiving end of a closed channel is gone.\<close>

datatype TrySend = Sent | Full | Closed

definition INTERMOD_CHANNEL_CAPACITY :: nat where
  "INTERMOD_CHANNEL_CAPACITY = 8192"

definition CHANNEL_CAPACITY :: nat where
  "CHANNEL_CAPACITY = 8192"

definition try_send :: "nat \<Rightarrow> 'a list \<Rightarrow> TrySend" where
  "try_send capacity queue = (if length queue < capacity then Sent else Full)"

text \<open>The queue after an attempt, and the oldest message with the rest of the queue.\<close>

definition offer :: "nat \<Rightarrow> 'a list \<Rightarrow> 'a \<Rightarrow> 'a list" where
  "offer capacity queue x = (if try_send capacity queue = Sent then queue @ [x] else queue)"

fun take_oldest :: "'a list \<Rightarrow> ('a \<times> 'a list) option" where
  "take_oldest [] = None"
| "take_oldest (x # q) = Some (x, q)"

section \<open>Interface\<close>

datatype 'a channel_op = Push 'a | Pop

locale bounded_channel =
  fixes capacity :: nat
    and content :: "'q \<Rightarrow> 'a list"
    and push :: "'q \<Rightarrow> 'a \<Rightarrow> 'q"
    and pop :: "'q \<Rightarrow> ('a \<times> 'q) option"
  assumes push_room: "length (content q) < capacity \<Longrightarrow> content (push q x) = content q @ [x]"
    and push_full: "capacity \<le> length (content q) \<Longrightarrow> content (push q x) = content q"
    and pop_None: "pop q = None \<longleftrightarrow> content q = []"
    and pop_Some: "pop q = Some (x, q') \<Longrightarrow> content q = x # content q'"
begin

text \<open>A run of operations: the messages that were accepted and those that were taken.\<close>

fun run :: "'q \<Rightarrow> 'a channel_op list \<Rightarrow> 'a list \<times> 'a list \<times> 'q" where
  "run q [] = ([], [], q)"
| "run q (Push x # ops) =
     (let (ins, outs, q') = run (push q x) ops
      in (if length (content q) < capacity then x # ins else ins, outs, q'))"
| "run q (Pop # ops) =
     (case pop q of
        None \<Rightarrow> run q ops
      | Some (x, q1) \<Rightarrow> (let (ins, outs, q') = run q1 ops in (ins, x # outs, q')))"

lemma push_bound: "length (content q) \<le> capacity \<Longrightarrow> length (content (push q x)) \<le> capacity"
  by (cases "length (content q) < capacity") (simp_all add: push_room push_full)

lemma pop_bound: "length (content q) \<le> capacity \<Longrightarrow> pop q = Some (x, q') \<Longrightarrow> length (content q') \<le> capacity"
  by (auto dest: pop_Some)

lemma run_bound:
  "length (content q) \<le> capacity \<Longrightarrow> length (content (snd (snd (run q ops)))) \<le> capacity"
  by (induction q ops rule: run.induct)
     (auto simp: push_bound pop_bound split: prod.splits option.splits)

lemma run_fifo:
  "run q ops = (ins, outs, q') \<Longrightarrow> content q @ ins = outs @ content q'"
proof (induction q ops arbitrary: ins outs q' rule: run.induct)
  case (2 q x ops)
  then show ?case
    by (cases "length (content q) < capacity") (auto simp: push_room push_full Let_def split: prod.splits)
next
  case (3 q ops)
  then show ?case
    by (auto split: option.splits prod.splits dest: pop_Some)
qed auto

end

section \<open>The queues of the program\<close>

lemma try_send_cases: "try_send c q = Sent \<and> length q < c \<or> try_send c q = Full \<and> c \<le> length q"
  by (auto simp: try_send_def)

lemma try_send_open [simp]: "try_send c q \<noteq> Closed"
  by (simp add: try_send_def)

lemma offer_set: "set (offer c q x) \<subseteq> insert x (set q)"
  by (auto simp: offer_def)

lemma empty_room [simp]:
  "try_send INTERMOD_CHANNEL_CAPACITY [] = Sent" "try_send CHANNEL_CAPACITY [] = Sent"
  "offer INTERMOD_CHANNEL_CAPACITY [] x = [x]"
  "0 < INTERMOD_CHANNEL_CAPACITY" "0 < CHANNEL_CAPACITY"
  by (simp_all add: try_send_def offer_def INTERMOD_CHANNEL_CAPACITY_def CHANNEL_CAPACITY_def)

interpretation mpsc: bounded_channel c "\<lambda>q. q" "offer c" take_oldest for c
proof
  show "take_oldest q = None \<longleftrightarrow> q = []" for q :: "'a list" by (cases q) simp_all
  show "take_oldest q = Some (x, q') \<Longrightarrow> q = x # q'" for q q' :: "'a list" and x by (cases q) simp_all
qed (simp_all add: offer_def try_send_def)

end
