(* ===== verification/Iroh_Manager.thy ===== *)
theory Iroh_Manager
  imports Channels
begin

text \<open>
  The connection manager of \<^verbatim>\<open>src/iroh.rs\<close>: the data of the module, \<^verbatim>\<open>Iroh::new\<close>,
  \<^verbatim>\<open>init\<close>, the two event handlers and the transitions of the per-peer connection state.

  The crates iroh and tokio are not modelled; the manager's calls into them appear as
  effects on fields of the manager record, and their answers are arguments.
  \<^item> A \<^verbatim>\<open>Connection\<close> is an opaque handle with the remote key it was authenticated for; a
    public key is any linearly ordered type.
  \<^item> \<^verbatim>\<open>tokio::spawn\<close> enters a task under a fresh number in \<open>tasks\<close> and yields that number
    as the \<^verbatim>\<open>JoinHandle\<close>; \<^verbatim>\<open>abort\<close> removes it; a task that ends on its own is removed by
    the environment (\<open>task_ends\<close>).
  \<^item> \<^verbatim>\<open>mpsc::channel\<close> enters an empty packet queue under a fresh number in \<open>channels\<close>;
    \<^verbatim>\<open>try_send\<close> is answered by a \<open>TrySend\<close> argument.
  \<^item> \<^verbatim>\<open>Connection::close\<close> is recorded in \<open>closed\<close> with its code and reason.
  \<^item> \<^verbatim>\<open>tx_to_coord.send(e).await\<close> suspends the handler: the event and the rest of the
    handler are kept in \<open>awaiting\<close> and no other handler runs until \<open>complete_send\<close>, which
    either delivers the event to \<open>to_coord\<close> or, when the coordinator is gone, loses it; the
    source ignores the difference.
\<close>

section \<open>Data\<close>

record 'pk Connection =
  conn_handle :: nat
  remote_id :: 'pk

datatype 'pk ConnectionState =
    Connected (task: nat) (connection: "'pk Connection") (tx_packet_channel: nat)
  | Connecting nat
  | WaitingIncomingConnection
  | Disconnected

datatype 'pk IrohEvent =
    ConnectedToPeer 'pk
  | DisconnectedFromPeer 'pk
  | RecvPacketFrom bytes 'pk

datatype 'pk CoreAction =
    SendPacketTo bytes 'pk
  | ConnectToPeer 'pk
  | DisconnectFromPeer 'pk

datatype ('e1, 'e2) InitError = BindAddrError 'e1 | BuildError 'e2

datatype 'pk ConnectionEvent =
    OutgoingConnection "'pk Connection"
  | IncomingConnection "'pk Connection"
  | Disconnected 'pk
  | InternalError

fun fmt_InitError :: "('e1 \<Rightarrow> string) \<Rightarrow> ('e2 \<Rightarrow> string) \<Rightarrow> ('e1, 'e2) InitError \<Rightarrow> string" where
  "fmt_InitError show1 show2 (BindAddrError e) = ''Iroh init error: '' @ show1 e"
| "fmt_InitError show1 show2 (BuildError e) = ''Iroh init error: '' @ show2 e"

text \<open>The asynchronous functions the manager spawns, with their arguments.\<close>

datatype 'pk Task =
    ConnectTask 'pk
  | SessionTask "'pk Connection" nat
  | AcceptTask

text \<open>What a suspended handler still has to do after its \<^verbatim>\<open>send(...).await\<close>.\<close>

datatype 'pk Cont =
    StartSession "'pk Connection"
  | Reconnect 'pk
  | MarkDisconnected 'pk

record 'pk Iroh =
  endpoint_id :: 'pk
  state_table :: "'pk \<rightharpoonup> 'pk ConnectionState"
  whitelist :: "'pk set"
  to_coord :: "'pk IrohEvent list"
  awaiting :: "('pk IrohEvent \<times> 'pk Cont) option"
  tasks :: "nat \<rightharpoonup> 'pk Task"
  channels :: "nat \<rightharpoonup> bytes list"
  next_id :: nat
  closed :: "('pk Connection \<times> nat \<times> string) list"

section \<open>Calls into tokio and iroh\<close>

definition spawn :: "'pk Task \<Rightarrow> 'pk Iroh \<Rightarrow> nat \<times> 'pk Iroh" where
  "spawn tsk s = (next_id s, s\<lparr>tasks := (tasks s)(next_id s \<mapsto> tsk), next_id := Suc (next_id s)\<rparr>)"

definition new_channel :: "'pk Iroh \<Rightarrow> nat \<times> 'pk Iroh" where
  "new_channel s = (next_id s, s\<lparr>channels := (channels s)(next_id s \<mapsto> []), next_id := Suc (next_id s)\<rparr>)"

definition abort :: "nat \<Rightarrow> 'pk Iroh \<Rightarrow> 'pk Iroh" where
  "abort t s = s\<lparr>tasks := (tasks s)(t := None)\<rparr>"

definition task_ends :: "nat \<Rightarrow> 'pk Iroh \<Rightarrow> 'pk Iroh" where
  "task_ends t s = s\<lparr>tasks := (tasks s)(t := None)\<rparr>"

definition close :: "'pk Connection \<Rightarrow> nat \<Rightarrow> string \<Rightarrow> 'pk Iroh \<Rightarrow> 'pk Iroh" where
  "close conn code reason s = s\<lparr>closed := closed s @ [(conn, code, reason)]\<rparr>"

definition set_state :: "'pk \<Rightarrow> 'pk ConnectionState \<Rightarrow> 'pk Iroh \<Rightarrow> 'pk Iroh" where
  "set_state k st s = s\<lparr>state_table := (state_table s)(k \<mapsto> st)\<rparr>"

definition send_await :: "'pk IrohEvent \<Rightarrow> 'pk Cont \<Rightarrow> 'pk Iroh \<Rightarrow> 'pk Iroh" where
  "send_await ev k s = s\<lparr>awaiting := Some (ev, k)\<rparr>"

section \<open>Construction\<close>

text \<open>
  \<open>bind_addr\<close> and \<open>bound\<close> stand for the endpoint builder of the iroh crate: the first rejects
  a malformed socket address, the second is the outcome of binding the socket: the endpoint, of which
  the manager only uses the public key.
\<close>

definition Iroh_new ::
  "(string \<Rightarrow> 'e1 option) \<Rightarrow> ('e2 + 'pk) \<Rightarrow> 'pk set \<Rightarrow> 'pk list \<Rightarrow> u16 \<Rightarrow> ('e1, 'e2) InitError + 'pk Iroh" where
  "Iroh_new bind_addr bound peers iter listen_port =
     (let table = fold (\<lambda>k m. m(k \<mapsto> ConnectionState.Disconnected)) iter Map.empty in
      case bind_addr (''0.0.0.0:'' @ dec_string (unat listen_port)) of
        Some e \<Rightarrow> Inl (BindAddrError e)
      | None \<Rightarrow>
          (case bound of
             Inl e \<Rightarrow> Inl (BuildError e)
           | Inr endpoint \<Rightarrow>
               Inr \<lparr>endpoint_id = endpoint, state_table = table, whitelist = peers, to_coord = [],
                    awaiting = None, tasks = Map.empty, channels = Map.empty, next_id = 0,
                    closed = []\<rparr>))"

section \<open>State transitions\<close>

definition init_new_connection :: "'pk::linorder \<Rightarrow> 'pk Iroh \<Rightarrow> 'pk Iroh" where
  "init_new_connection pub_key s =
     (if endpoint_id s < pub_key then set_state pub_key WaitingIncomingConnection s
      else let (t, s') = spawn (ConnectTask pub_key) s in set_state pub_key (Connecting t) s')"

text \<open>\<^verbatim>\<open>init_ready_connection\<close>: the event is sent first, the session starts afterwards.\<close>

definition start_session :: "'pk Connection \<Rightarrow> 'pk Iroh \<Rightarrow> 'pk Iroh" where
  "start_session conn s =
     (let (ch, s1) = new_channel s; (t, s2) = spawn (SessionTask conn ch) s1
      in set_state (remote_id conn) (Connected t conn ch) s2)"

definition init_ready_connection :: "'pk Connection \<Rightarrow> 'pk Iroh \<Rightarrow> 'pk Iroh" where
  "init_ready_connection conn s =
     send_await (ConnectedToPeer (remote_id conn)) (StartSession conn) s"

fun resume :: "'pk::linorder Cont \<Rightarrow> 'pk Iroh \<Rightarrow> 'pk Iroh" where
  "resume (StartSession conn) s = start_session conn s"
| "resume (Reconnect k) s = init_new_connection k s"
| "resume (MarkDisconnected k) s = set_state k ConnectionState.Disconnected s"

definition complete_send :: "bool \<Rightarrow> 'pk::linorder Iroh \<Rightarrow> 'pk Iroh" where
  "complete_send delivered s =
     (case awaiting s of
        None \<Rightarrow> s
      | Some (ev, k) \<Rightarrow>
          resume k (s\<lparr>awaiting := None,
                      to_coord := to_coord s @ (if delivered then [ev] else [])\<rparr>))"

definition init_peer :: "'pk::linorder \<Rightarrow> 'pk Iroh \<Rightarrow> 'pk Iroh" where
  "init_peer pub_key s =
     (if pub_key > endpoint_id s then set_state pub_key WaitingIncomingConnection s
      else let (t, s') = spawn (ConnectTask pub_key) s in set_state pub_key (Connecting t) s')"

definition init :: "'pk::linorder list \<Rightarrow> 'pk Iroh \<Rightarrow> 'pk Iroh" where
  "init iter s = snd (spawn AcceptTask (fold init_peer iter s))"

section \<open>Event handlers\<close>

definition handle_outgoing :: "'pk Connection \<Rightarrow> 'pk Iroh \<Rightarrow> 'pk Iroh" where
  "handle_outgoing conn s =
     (case state_table s (remote_id conn) of
        Some (Connecting _) \<Rightarrow> init_ready_connection conn s
      | Some (Connected expired_task expired_conn _) \<Rightarrow>
          init_ready_connection conn
            (close expired_conn 1 ''connection is expired: data race resolver'' (abort expired_task s))
      | Some WaitingIncomingConnection \<Rightarrow> close conn 1 ''peer violated public keys invariant'' s
      | Some ConnectionState.Disconnected \<Rightarrow> close conn 1 (''can'' @ [CHR 0x27] @ ''t connect right now'') s
      | None \<Rightarrow> close conn 1 (''can'' @ [CHR 0x27] @ ''t connect to unknown peer'') s)"

definition handle_incoming :: "'pk Connection \<Rightarrow> 'pk Iroh \<Rightarrow> 'pk Iroh" where
  "handle_incoming conn s =
     (case state_table s (remote_id conn) of
        Some WaitingIncomingConnection \<Rightarrow> init_ready_connection conn s
      | Some (Connected expired_task expired_conn _) \<Rightarrow>
          init_ready_connection conn
            (close expired_conn 1 ''connection is expired: peer open another connection''
              (abort expired_task s))
      | Some (Connecting _) \<Rightarrow> close conn 1 ''peer violated public keys invariant'' s
      | Some ConnectionState.Disconnected \<Rightarrow> close conn 1 (''can'' @ [CHR 0x27] @ ''t connect right now'') s
      | None \<Rightarrow> close conn 1 (''can'' @ [CHR 0x27] @ ''t connect to unknown peer'') s)"

definition handle_disconnected :: "'pk \<Rightarrow> 'pk Iroh \<Rightarrow> 'pk Iroh" where
  "handle_disconnected pub_key s =
     (case state_table s pub_key of
        Some (Connected _ _ _) \<Rightarrow> send_await (DisconnectedFromPeer pub_key) (Reconnect pub_key) s
      | Some (Connecting _) \<Rightarrow> s
      | Some WaitingIncomingConnection \<Rightarrow> s
      | Some ConnectionState.Disconnected \<Rightarrow> s
      | None \<Rightarrow> s)"

fun handle_conn_event :: "'pk Iroh \<Rightarrow> 'pk ConnectionEvent \<Rightarrow> unit + 'pk Iroh" where
  "handle_conn_event s (OutgoingConnection conn) = Inr (handle_outgoing conn s)"
| "handle_conn_event s (IncomingConnection conn) = Inr (handle_incoming conn s)"
| "handle_conn_event s (ConnectionEvent.Disconnected pub_key) = Inr (handle_disconnected pub_key s)"
| "handle_conn_event s InternalError = Inl ()"

text \<open>\<open>answer\<close> is what \<^verbatim>\<open>try_send\<close> on the packet channel of the session returns.\<close>

definition push_packet :: "nat \<Rightarrow> bytes \<Rightarrow> TrySend \<Rightarrow> 'pk Iroh \<Rightarrow> 'pk Iroh" where
  "push_packet ch packet answer s =
     (case answer of
        Sent \<Rightarrow> s\<lparr>channels := (channels s)(ch \<mapsto> (case channels s ch of Some q \<Rightarrow> q | None \<Rightarrow> []) @ [packet])\<rparr>
      | Full \<Rightarrow> s
      | Closed \<Rightarrow> s)"

fun handle_core_event :: "'pk::linorder Iroh \<Rightarrow> TrySend \<Rightarrow> 'pk CoreAction \<Rightarrow> 'pk Iroh" where
  "handle_core_event s answer (SendPacketTo packet to) =
     (case state_table s to of
        Some (Connected _ _ ch) \<Rightarrow> push_packet ch packet answer s
      | _ \<Rightarrow> s)"
| "handle_core_event s answer (ConnectToPeer pub_key) =
     (case state_table s pub_key of
        Some ConnectionState.Disconnected \<Rightarrow> init_new_connection pub_key s
      | Some (Connected _ _ _) \<Rightarrow> s
      | Some (Connecting _) \<Rightarrow> s
      | Some WaitingIncomingConnection \<Rightarrow> s
      | None \<Rightarrow> s)"
| "handle_core_event s answer (DisconnectFromPeer pub_key) =
     (case state_table s pub_key of
        Some (Connected old_task old_conn _) \<Rightarrow>
          send_await (DisconnectedFromPeer pub_key) (MarkDisconnected pub_key)
            (close old_conn 1 ''disconnect from peer core action'' (abort old_task s))
      | Some (Connecting conn_task) \<Rightarrow>
          set_state pub_key ConnectionState.Disconnected (abort conn_task s)
      | _ \<Rightarrow> set_state pub_key ConnectionState.Disconnected s)"

section \<open>The event loop\<close>

text \<open>
  What the two branches of the \<^verbatim>\<open>select!\<close> of \<^verbatim>\<open>run\<close> receive: a message, or \<open>None\<close> when all
  senders of the channel are gone. \<open>run_iteration\<close> is one pass of the loop up to the first
  suspension; its result is \<open>None\<close> when \<^verbatim>\<open>run\<close> returns.
\<close>

datatype 'pk mgr_input =
    RecvTasks "'pk ConnectionEvent option"
  | RecvCoord TrySend "'pk CoreAction option"

fun run_iteration :: "'pk::linorder Iroh \<Rightarrow> 'pk mgr_input \<Rightarrow> 'pk Iroh option" where
  "run_iteration s (RecvTasks (Some ev)) =
     (case handle_conn_event s ev of Inl _ \<Rightarrow> None | Inr t \<Rightarrow> Some t)"
| "run_iteration s (RecvTasks None) = None"
| "run_iteration s (RecvCoord answer (Some a)) = Some (handle_core_event s answer a)"
| "run_iteration s (RecvCoord answer None) = None"

section \<open>What the state says\<close>

definition up_in :: "('pk \<rightharpoonup> 'pk ConnectionState) \<Rightarrow> 'pk \<Rightarrow> bool" where
  "up_in table k \<longleftrightarrow> (\<exists>t c ch. table k = Some (Connected t c ch))"

abbreviation is_up :: "'pk Iroh \<Rightarrow> 'pk \<Rightarrow> bool" where
  "is_up s \<equiv> up_in (state_table s)"

definition up_keys :: "'pk Iroh \<Rightarrow> 'pk set" where
  "up_keys s = {k. is_up s k}"

text \<open>The set of peers a listener believes connected after it has read some events.\<close>

fun note_event :: "'pk IrohEvent \<Rightarrow> 'pk set \<Rightarrow> 'pk set" where
  "note_event (ConnectedToPeer k) A = insert k A"
| "note_event (DisconnectedFromPeer k) A = A - {k}"
| "note_event (RecvPacketFrom p k) A = A"

definition replay :: "'pk IrohEvent list \<Rightarrow> 'pk set \<Rightarrow> 'pk set" where
  "replay evs A = fold note_event evs A"

text \<open>A packet channel is open while the table holds its sender.\<close>

definition open_channel :: "'pk Iroh \<Rightarrow> nat \<Rightarrow> bool" where
  "open_channel s ch \<longleftrightarrow> (\<exists>k t c. state_table s k = Some (Connected t c ch))"

section \<open>Invariant\<close>

definition entry_inv :: "'pk::linorder Iroh \<Rightarrow> 'pk \<Rightarrow> 'pk ConnectionState \<Rightarrow> bool" where
  "entry_inv s k st \<longleftrightarrow>
     (case st of
        Connected t c ch \<Rightarrow> remote_id c = k \<and> t < next_id s \<and> ch < next_id s \<and>
          tasks s t \<in> {None, Some (SessionTask c ch)} \<and> channels s ch \<noteq> None
      | Connecting t \<Rightarrow> \<not> endpoint_id s < k \<and> t < next_id s \<and> tasks s t \<in> {None, Some (ConnectTask k)}
      | WaitingIncomingConnection \<Rightarrow> endpoint_id s < k
      | ConnectionState.Disconnected \<Rightarrow> True)"

fun cont_ok :: "('pk \<rightharpoonup> 'pk ConnectionState) \<Rightarrow> 'pk IrohEvent \<Rightarrow> 'pk Cont \<Rightarrow> bool" where
  "cont_ok table ev (StartSession c) \<longleftrightarrow> ev = ConnectedToPeer (remote_id c) \<and> remote_id c \<in> dom table"
| "cont_ok table ev (Reconnect k) \<longleftrightarrow> ev = DisconnectedFromPeer k \<and> up_in table k"
| "cont_ok table ev (MarkDisconnected k) \<longleftrightarrow> ev = DisconnectedFromPeer k \<and> up_in table k"

definition await_inv :: "'pk Iroh \<Rightarrow> bool" where
  "await_inv s \<longleftrightarrow> (\<forall>ev k. awaiting s = Some (ev, k) \<longrightarrow> cont_ok (state_table s) ev k)"

text \<open>Tasks have fresh numbers, and a session's channel belongs to that session alone.\<close>

definition task_inv :: "'pk Iroh \<Rightarrow> bool" where
  "task_inv s \<longleftrightarrow>
     (\<forall>t. tasks s t \<noteq> None \<longrightarrow> t < next_id s) \<and>
     (\<forall>t c ch. tasks s t = Some (SessionTask c ch) \<longrightarrow> ch < next_id s) \<and>
     (\<forall>t c ch k t' c'. tasks s t = Some (SessionTask c ch) \<longrightarrow>
        state_table s k = Some (Connected t' c' ch) \<longrightarrow> t' = t \<and> c' = c)"

definition mgr_inv :: "'pk::linorder Iroh \<Rightarrow> bool" where
  "mgr_inv s \<longleftrightarrow>
     dom (state_table s) = whitelist s \<and>
     (\<forall>k st. state_table s k = Some st \<longrightarrow> entry_inv s k st) \<and>
     await_inv s \<and> task_inv s"

section \<open>Runs of the manager\<close>

text \<open>
  One label per thing that can happen: a pass of the event loop on a received message, the completion of a suspended send, the end of a task, and the receivers of the two kinds
  of channels taking a message. The events are arbitrary, in any order: nothing is assumed
  about the network or about the tasks. Actions are restricted to what \<open>known_target\<close> says;
  the composed system discharges it.
\<close>

datatype 'pk mgr_label =
    LInput "'pk mgr_input"
  | LSendDone bool
  | LTaskEnd nat
  | LCoordTakes
  | LSessionTakes nat

definition known_target :: "'pk Iroh \<Rightarrow> 'pk CoreAction \<Rightarrow> bool" where
  "known_target s a \<longleftrightarrow> (\<forall>k. a = DisconnectFromPeer k \<longrightarrow> k \<in> whitelist s)"

inductive mgr_step :: "'pk::linorder Iroh \<Rightarrow> 'pk mgr_label \<Rightarrow> 'pk Iroh \<Rightarrow> bool" where
  input: "awaiting s = None \<Longrightarrow> (\<And>answer a. i = RecvCoord answer (Some a) \<Longrightarrow> known_target s a) \<Longrightarrow>
     run_iteration s i = Some t \<Longrightarrow> mgr_step s (LInput i) t"
| sent: "awaiting s \<noteq> None \<Longrightarrow> mgr_step s (LSendDone d) (complete_send d s)"
| ended: "mgr_step s (LTaskEnd t) (task_ends t s)"
| coord_takes: "to_coord s = ev # q \<Longrightarrow> mgr_step s LCoordTakes (s\<lparr>to_coord := q\<rparr>)"
| session_takes: "channels s ch = Some (p # q) \<Longrightarrow>
     mgr_step s (LSessionTakes ch) (s\<lparr>channels := (channels s)(ch \<mapsto> q)\<rparr>)"

definition mgr_initial :: "'pk::linorder Iroh \<Rightarrow> bool" where
  "mgr_initial s \<longleftrightarrow>
     (\<exists>(bind_addr :: string \<Rightarrow> unit option) (bound :: unit + 'pk) peers iter port s0.
        enumerates iter peers \<and> Iroh_new bind_addr bound peers iter port = Inr s0 \<and>
        s = init iter s0)"

section \<open>Frame lemmas\<close>

lemmas primitive_defs [mgr_simps] = spawn_def new_channel_def abort_def task_ends_def close_def set_state_def
  send_await_def

lemma entry_inv_frame [simp]:
  "entry_inv (s\<lparr>state_table := m\<rparr>) = entry_inv s"
  "entry_inv (s\<lparr>to_coord := q\<rparr>) = entry_inv s"
  "entry_inv (s\<lparr>awaiting := a\<rparr>) = entry_inv s"
  "entry_inv (s\<lparr>closed := cl\<rparr>) = entry_inv s"
  by (auto simp: entry_inv_def fun_eq_iff split: ConnectionState.splits)

lemma mgr_inv_entry: "mgr_inv s \<Longrightarrow> state_table s k = Some st \<Longrightarrow> entry_inv s k st"
  by (simp add: mgr_inv_def)

lemma mgr_inv_dom: "mgr_inv s \<Longrightarrow> dom (state_table s) = whitelist s"
  by (simp add: mgr_inv_def)

lemma entry_inv_abort: "entry_inv s k st \<Longrightarrow> entry_inv (s\<lparr>tasks := (tasks s)(t := None)\<rparr>) k st"
  by (auto simp: entry_inv_def split: ConnectionState.splits)

lemma mgr_inv_abort: "mgr_inv s \<Longrightarrow> mgr_inv (abort t s)"
  by (auto simp: mgr_inv_def abort_def await_inv_def task_inv_def entry_inv_abort split: if_splits)

lemma mgr_inv_task_ends: "mgr_inv s \<Longrightarrow> mgr_inv (task_ends t s)"
  using mgr_inv_abort [of s t] by (simp add: abort_def task_ends_def)

lemma mgr_inv_close: "mgr_inv s \<Longrightarrow> mgr_inv (close c code reason s)"
  by (simp add: mgr_inv_def close_def await_inv_def task_inv_def)

lemma mgr_inv_to_coord: "mgr_inv s \<Longrightarrow> mgr_inv (s\<lparr>to_coord := q\<rparr>)"
  by (simp add: mgr_inv_def await_inv_def task_inv_def)

lemma mgr_inv_resumable: "mgr_inv s \<Longrightarrow> mgr_inv (s\<lparr>awaiting := None, to_coord := q\<rparr>)"
  by (simp add: mgr_inv_def await_inv_def task_inv_def)


lemma mgr_inv_table_upd:
  assumes "mgr_inv s" and "awaiting s = None" and "k \<in> whitelist s" and "entry_inv s k st"
    and "\<And>t c ch t' c'. tasks s t = Some (SessionTask c ch) \<Longrightarrow> st = Connected t' c' ch \<Longrightarrow> t' = t \<and> c' = c"
  shows "mgr_inv (set_state k st s)"
proof -
  have "dom ((state_table s)(k \<mapsto> st)) = whitelist s"
    using assms(1,3) by (auto simp: mgr_inv_def)
  moreover have "task_inv (set_state k st s)"
    using assms(1,5) by (auto simp: mgr_inv_def task_inv_def set_state_def)
  ultimately show ?thesis
    using assms by (auto simp: mgr_inv_def set_state_def await_inv_def)
qed

lemma entry_inv_fresh_task:
  "entry_inv s k st \<Longrightarrow>
   entry_inv (s\<lparr>tasks := (tasks s)(next_id s \<mapsto> tsk), next_id := Suc (next_id s)\<rparr>) k st"
  by (auto simp: entry_inv_def split: ConnectionState.splits)

lemma entry_inv_fresh_channel:
  "entry_inv s k st \<Longrightarrow>
   entry_inv (s\<lparr>channels := (channels s)(next_id s \<mapsto> []), next_id := Suc (next_id s)\<rparr>) k st"
  by (auto simp: entry_inv_def split: ConnectionState.splits)

lemma mgr_inv_spawn:
  assumes "mgr_inv s" and "\<And>c ch. tsk \<noteq> SessionTask c ch"
  shows "mgr_inv (snd (spawn tsk s))"
  using assms
  by (auto simp: mgr_inv_def spawn_def entry_inv_fresh_task await_inv_def task_inv_def
      intro: less_SucI split: if_splits)

lemma mgr_inv_init_new_connection:
  assumes "mgr_inv s" and "awaiting s = None" and "k \<in> whitelist s"
  shows "mgr_inv (init_new_connection k s)"
proof (cases "endpoint_id s < k")
  case True
  with assms show ?thesis
    by (auto simp: init_new_connection_def entry_inv_def intro!: mgr_inv_table_upd)
next
  case False
  let ?s = "snd (spawn (ConnectTask k) s)"
  have "mgr_inv ?s" using assms(1) by (rule mgr_inv_spawn) simp
  moreover have "awaiting ?s = None" "k \<in> whitelist ?s" "entry_inv ?s k (Connecting (next_id s))"
    using assms False by (auto simp: spawn_def entry_inv_def)
  ultimately have "mgr_inv (set_state k (Connecting (next_id s)) ?s)"
    by (rule mgr_inv_table_upd) simp
  with False show ?thesis by (simp add: init_new_connection_def spawn_def)
qed

lemma mgr_inv_new_channel: "mgr_inv s \<Longrightarrow> mgr_inv (snd (new_channel s))"
  by (auto simp: mgr_inv_def new_channel_def entry_inv_fresh_channel await_inv_def task_inv_def
      intro: less_SucI)

lemma mgr_inv_start_session:
  assumes inv: "mgr_inv s" and idle: "awaiting s = None" and known: "remote_id conn \<in> whitelist s"
  shows "mgr_inv (start_session conn s)"
proof -
  let ?c = "next_id s" and ?t = "Suc (next_id s)"
  let ?m = "(state_table s)(remote_id conn \<mapsto> Connected ?t conn ?c)"
  let ?s = "start_session conn s"
  have eq: "?s = s\<lparr>channels := (channels s)(?c \<mapsto> []), tasks := (tasks s)(?t \<mapsto> SessionTask conn ?c),
      next_id := Suc ?t, state_table := ?m\<rparr>"
    by (simp add: start_session_def new_channel_def spawn_def set_state_def)
  have "entry_inv ?s k st" if "?m k = Some st" for k st
    using that mgr_inv_entry [OF inv, of k st]
    by (auto simp: eq entry_inv_def split: if_splits ConnectionState.splits)
  moreover have "task_inv ?s"
  proof -
    have fresh: "t < next_id s" "ch < next_id s"
      if "state_table s k = Some (Connected t c ch)" for k t c ch
      using mgr_inv_entry [OF inv that] by (simp_all add: entry_inv_def)
    from inv have old: "task_inv s" by (simp add: mgr_inv_def)
    have "t' = t \<and> c' = c" if "((tasks s)(?t \<mapsto> SessionTask conn ?c)) t = Some (SessionTask c ch)"
      and "?m k = Some (Connected t' c' ch)" for t c ch k t' c'
    proof (cases "t = ?t")
      case True
      with that show ?thesis by (auto dest: fresh split: if_splits)
    next
      case False
      with that(1) old have "ch < next_id s" by (auto simp: task_inv_def)
      with that False old show ?thesis by (auto simp: task_inv_def split: if_splits)
    qed
    moreover have "t < Suc ?t" if "((tasks s)(?t \<mapsto> SessionTask conn ?c)) t \<noteq> None" for t
      using that old less_SucI by (auto simp: task_inv_def split: if_splits)
    moreover have "ch < Suc ?t" if "((tasks s)(?t \<mapsto> SessionTask conn ?c)) t = Some (SessionTask c ch)" for t c ch
      using that old by (force simp: task_inv_def split: if_splits intro: less_SucI)
    ultimately show ?thesis by (simp add: task_inv_def eq del: fun_upd_apply)
  qed
  moreover have "dom ?m = whitelist s" using inv known by (auto simp: mgr_inv_def)
  ultimately show ?thesis using idle by (simp add: mgr_inv_def await_inv_def eq)
qed

lemma mgr_inv_send_await:
  "mgr_inv s \<Longrightarrow> cont_ok (state_table s) ev k \<Longrightarrow> mgr_inv (send_await ev k s)"
  by (simp add: mgr_inv_def send_await_def await_inv_def task_inv_def)

section \<open>The invariant under the handlers\<close>

lemma mgr_inv_complete_send:
  assumes "mgr_inv s"
  shows "mgr_inv (complete_send d s)"
proof (cases "awaiting s")
  case None
  with assms show ?thesis by (simp add: complete_send_def)
next
  case (Some a)
  obtain ev k where a: "a = (ev, k)" by (cases a)
  let ?s = "s\<lparr>awaiting := None, to_coord := to_coord s @ (if d then [ev] else [])\<rparr>"
  have inv: "mgr_inv ?s" using assms by (rule mgr_inv_resumable)
  from assms Some a have k: "cont_ok (state_table s) ev k"
    by (simp add: mgr_inv_def await_inv_def)
  have "mgr_inv (resume k ?s)"
  proof (cases k)
    case (StartSession c)
    with k have "remote_id c \<in> whitelist s" using mgr_inv_dom [OF assms] by auto
    with inv StartSession show ?thesis by (simp add: mgr_inv_start_session)
  next
    case (Reconnect p)
    with k have "p \<in> whitelist s" using mgr_inv_dom [OF assms] by (auto simp: up_in_def)
    with inv Reconnect show ?thesis by (simp add: mgr_inv_init_new_connection)
  next
    case (MarkDisconnected p)
    with k have "p \<in> whitelist s" using mgr_inv_dom [OF assms] by (auto simp: up_in_def)
    with inv MarkDisconnected show ?thesis
      by (auto intro!: mgr_inv_table_upd simp: entry_inv_def)
  qed
  with Some a show ?thesis by (simp add: complete_send_def)
qed

lemma mgr_inv_ready:
  "mgr_inv s \<Longrightarrow> remote_id conn \<in> whitelist s \<Longrightarrow> mgr_inv (init_ready_connection conn s)"
  by (auto simp: init_ready_connection_def mgr_inv_dom intro!: mgr_inv_send_await)

lemma whitelist_primitives [simp]:
  "whitelist (abort t s) = whitelist s" "whitelist (close c n r s) = whitelist s"
  "whitelist (set_state k st s) = whitelist s" "whitelist (send_await ev co s) = whitelist s"
  "state_table (abort t s) = state_table s" "state_table (close c n r s) = state_table s"
  "state_table (send_await ev co s) = state_table s"
  "awaiting (abort t s) = awaiting s" "awaiting (close c n r s) = awaiting s"
  "to_coord (abort t s) = to_coord s" "to_coord (close c n r s) = to_coord s"
  "to_coord (send_await ev co s) = to_coord s" "to_coord (set_state k st s) = to_coord s"
  "endpoint_id (abort t s) = endpoint_id s" "endpoint_id (close c n r s) = endpoint_id s"
  "endpoint_id (send_await ev co s) = endpoint_id s" "endpoint_id (set_state k st s) = endpoint_id s"
  by (simp_all add: mgr_simps)

lemma mgr_inv_known: "mgr_inv s \<Longrightarrow> state_table s k = Some st \<Longrightarrow> k \<in> whitelist s"
  using mgr_inv_dom by blast

lemma mgr_inv_outgoing: "mgr_inv s \<Longrightarrow> mgr_inv (handle_outgoing conn s)"
  by (auto simp: handle_outgoing_def mgr_inv_known split: option.splits ConnectionState.splits
      intro!: mgr_inv_close mgr_inv_ready mgr_inv_abort)

lemma mgr_inv_incoming: "mgr_inv s \<Longrightarrow> mgr_inv (handle_incoming conn s)"
  by (auto simp: handle_incoming_def mgr_inv_known split: option.splits ConnectionState.splits
      intro!: mgr_inv_close mgr_inv_ready mgr_inv_abort)

lemma mgr_inv_disconnected: "mgr_inv s \<Longrightarrow> mgr_inv (handle_disconnected k s)"
  by (auto simp: handle_disconnected_def up_in_def split: option.splits ConnectionState.splits
      intro!: mgr_inv_send_await)

lemma mgr_inv_conn_event: "mgr_inv s \<Longrightarrow> handle_conn_event s ev = Inr t \<Longrightarrow> mgr_inv t"
  by (cases ev) (auto intro: mgr_inv_outgoing mgr_inv_incoming mgr_inv_disconnected)

lemma mgr_inv_push_packet: "mgr_inv s \<Longrightarrow> mgr_inv (push_packet ch p a s)"
  by (cases a) (auto simp: push_packet_def mgr_inv_def await_inv_def task_inv_def entry_inv_def
      split: ConnectionState.splits)

lemma mgr_inv_core_event:
  assumes "mgr_inv s" and "awaiting s = None" and "known_target s a"
  shows "mgr_inv (handle_core_event s answer a)"
proof (cases a)
  case (SendPacketTo p k)
  with assms show ?thesis
    by (auto intro: mgr_inv_push_packet split: option.splits ConnectionState.splits)
next
  case (ConnectToPeer k)
  with assms show ?thesis
    by (auto intro: mgr_inv_init_new_connection mgr_inv_known split: option.splits ConnectionState.splits)
next
  case (DisconnectFromPeer k)
  with assms have "k \<in> whitelist s" by (simp add: known_target_def)
  with assms DisconnectFromPeer show ?thesis
    by (auto simp: up_in_def entry_inv_def split: option.splits ConnectionState.splits
        intro!: mgr_inv_send_await mgr_inv_close mgr_inv_abort mgr_inv_table_upd)
qed

lemma mgr_inv_run_iteration:
  assumes "run_iteration s i = Some t" and "mgr_inv s" and "awaiting s = None"
    and "\<And>answer a. i = RecvCoord answer (Some a) \<Longrightarrow> known_target s a"
  shows "mgr_inv t"
  using assms
  by (cases "(s, i)" rule: run_iteration.cases)
     (auto split: sum.splits intro: mgr_inv_conn_event mgr_inv_core_event)

section \<open>Start-up\<close>

lemma init_peer_eq: "init_peer k s = init_new_connection k s"
  by (simp add: init_peer_def init_new_connection_def)

lemma init_new_connection_frame [simp]:
  "whitelist (init_new_connection k s) = whitelist s"
  "awaiting (init_new_connection k s) = awaiting s"
  "to_coord (init_new_connection k s) = to_coord s"
  "endpoint_id (init_new_connection k s) = endpoint_id s"
  "closed (init_new_connection k s) = closed s"
  by (simp_all add: init_new_connection_def spawn_def set_state_def)

lemma fold_init_peer_frame [simp]:
  "whitelist (fold init_peer ks s) = whitelist s"
  "awaiting (fold init_peer ks s) = awaiting s"
  "to_coord (fold init_peer ks s) = to_coord s"
  "endpoint_id (fold init_peer ks s) = endpoint_id s"
  by (induction ks arbitrary: s) (simp_all add: init_peer_eq)

lemma init_frame [simp]:
  "whitelist (init ks s) = whitelist s" "awaiting (init ks s) = awaiting s"
  "to_coord (init ks s) = to_coord s" "endpoint_id (init ks s) = endpoint_id s"
  by (simp_all add: init_def spawn_def)

lemma mgr_inv_init:
  assumes "mgr_inv s" and "awaiting s = None" and "set ks \<subseteq> whitelist s"
  shows "mgr_inv (init ks s)"
proof -
  have "mgr_inv (fold init_peer ks s)"
    using assms
    by (induction ks arbitrary: s) (simp_all add: init_peer_eq mgr_inv_init_new_connection)
  then show ?thesis unfolding init_def by (rule mgr_inv_spawn) simp
qed

lemma fold_Disconnected:
  "fold (\<lambda>k m. m(k \<mapsto> ConnectionState.Disconnected)) ks m k =
     (if k \<in> set ks then Some ConnectionState.Disconnected else m k)"
  by (induction ks arbitrary: m) auto

lemma Iroh_new_state:
  assumes "Iroh_new ba bound peers iter port = Inr s" and "enumerates iter peers"
  shows "bound = Inr (endpoint_id s)" and "whitelist s = peers"
    and "state_table s = (\<lambda>k. if k \<in> peers then Some ConnectionState.Disconnected else None)"
    and "awaiting s = None" and "to_coord s = []" and "tasks s = Map.empty"
    and "channels s = Map.empty" and "closed s = []"
  using assms
  by (auto simp: Iroh_new_def Let_def fold_Disconnected enumerates_def fun_eq_iff
      split: option.splits sum.splits)

lemma Iroh_new_inv:
  assumes "Iroh_new ba bound peers iter port = Inr s" and "enumerates iter peers"
  shows "mgr_inv s"
  using Iroh_new_state [OF assms]
  by (auto simp: mgr_inv_def await_inv_def task_inv_def entry_inv_def dom_def split: if_splits)

interpretation mgr: inductive_invariant mgr_initial mgr_step mgr_inv
proof
  show "mgr_inv s" if "mgr_initial s" for s :: "'a Iroh"
  proof -
    from that obtain ba bound peers iter port s0 where
      new: "Iroh_new (ba :: string \<Rightarrow> unit option) (bound :: unit + 'a) peers iter port = Inr s0"
      and en: "enumerates iter peers" and s: "s = init iter s0"
      by (auto simp: mgr_initial_def)
    have "set iter \<subseteq> whitelist s0" and "awaiting s0 = None"
      using Iroh_new_state [OF new en] en by (auto simp: enumerates_def)
    with Iroh_new_inv [OF new en] s show ?thesis by (simp add: mgr_inv_init)
  qed
  show "mgr_inv t" if "mgr_inv s" and "mgr_step s l t" for s t :: "'a Iroh" and l
    using that(2,1)
  proof (induction rule: mgr_step.induct)
    case (input s i t)
    then show ?case by (rule_tac mgr_inv_run_iteration) auto
  next
    case (session_takes s ch p q)
    then show ?case
      by (auto simp: mgr_inv_def await_inv_def task_inv_def entry_inv_def split: ConnectionState.splits)
  qed (auto intro: mgr_inv_complete_send mgr_inv_task_ends mgr_inv_to_coord)
qed

section \<open>Roles after start-up\<close>

text \<open>The smaller key waits, the larger key dials.\<close>

definition role_ok :: "'pk::linorder Iroh \<Rightarrow> 'pk \<Rightarrow> bool" where
  "role_ok s k \<longleftrightarrow>
     (if endpoint_id s < k then state_table s k = Some WaitingIncomingConnection
      else \<exists>t < next_id s. state_table s k = Some (Connecting t) \<and> tasks s t = Some (ConnectTask k))"

lemma role_ok_spawn: "role_ok s k \<Longrightarrow> role_ok (snd (spawn tsk s)) k"
  by (simp add: role_ok_def spawn_def split: if_splits) (metis less_SucI less_irrefl)

lemma role_ok_set_state: "k' \<noteq> k \<Longrightarrow> role_ok (set_state k' st s) k = role_ok s k"
  by (simp add: role_ok_def set_state_def)

lemma role_ok_init_peer: "role_ok s k \<or> k = k' \<Longrightarrow> role_ok (init_peer k' s) k"
proof (cases "k = k'")
  case True
  then show ?thesis by (simp add: role_ok_def init_peer_def spawn_def set_state_def)
next
  case False
  assume "role_ok s k \<or> k = k'"
  with False show ?thesis
    using role_ok_spawn [of s k "ConnectTask k'"]
    by (simp add: init_peer_def role_ok_set_state case_prod_beta Let_def)
qed

lemma role_ok_fold: "k \<in> set ks \<or> role_ok s k \<Longrightarrow> role_ok (fold init_peer ks s) k"
  by (induction ks arbitrary: s) (auto intro: role_ok_init_peer)

lemma role_ok_init: "k \<in> set ks \<Longrightarrow> role_ok (init ks s) k"
  unfolding init_def by (intro role_ok_spawn role_ok_fold) simp

definition dial_tasks :: "'pk Iroh \<Rightarrow> 'pk set" where
  "dial_tasks s = {k. ConnectTask k \<in> ran (tasks s)}"

definition tasks_fresh :: "'pk Iroh \<Rightarrow> bool" where
  "tasks_fresh s \<longleftrightarrow> (\<forall>t. tasks s t \<noteq> None \<longrightarrow> t < next_id s)"

lemma tasks_fresh_init_peer: "tasks_fresh s \<Longrightarrow> tasks_fresh (init_peer k s)"
  by (auto simp: tasks_fresh_def init_peer_def spawn_def set_state_def intro: less_SucI split: if_splits)

lemma dial_tasks_init_peer:
  "tasks_fresh s \<Longrightarrow>
   dial_tasks (init_peer k s) = dial_tasks s \<union> (if endpoint_id s < k then {} else {k})"
  by (auto simp: tasks_fresh_def dial_tasks_def init_peer_def spawn_def set_state_def ran_def
      split: if_splits) (metis less_irrefl option.distinct(1))+

lemma endpoint_init_peer [simp]: "endpoint_id (init_peer k s) = endpoint_id s"
  by (simp add: init_peer_eq)

lemma dial_tasks_fold:
  "tasks_fresh s \<Longrightarrow> tasks_fresh (fold init_peer ks s) \<and>
   dial_tasks (fold init_peer ks s) = dial_tasks s \<union> {k \<in> set ks. \<not> endpoint_id s < k}"
  by (induction ks arbitrary: s) (auto simp: tasks_fresh_init_peer dial_tasks_init_peer split: if_splits)

lemma dial_tasks_init:
  assumes "tasks s = Map.empty"
  shows "dial_tasks (init ks s) = {k \<in> set ks. \<not> endpoint_id s < k}"
proof -
  from assms have fresh: "tasks_fresh s" and none: "dial_tasks s = {}"
    by (simp_all add: tasks_fresh_def dial_tasks_def)
  let ?u = "fold init_peer ks s"
  have "tasks ?u (next_id ?u) = None"
    using dial_tasks_fold [OF fresh, of ks] by (auto simp: tasks_fresh_def)
  then have "dial_tasks (init ks s) = dial_tasks ?u"
    by (auto simp: init_def spawn_def dial_tasks_def ran_def) (metis option.distinct(1))
  with dial_tasks_fold [OF fresh, of ks] none show ?thesis by simp
qed

section \<open>Notifications\<close>

lemma up_keys_table: "state_table t = state_table s \<Longrightarrow> up_keys t = up_keys s"
  by (simp add: up_keys_def)

lemma up_keys_set_state:
  "up_keys (set_state k st s) =
     (case st of Connected _ _ _ \<Rightarrow> insert k (up_keys s) | _ \<Rightarrow> up_keys s - {k})"
  by (auto simp: up_keys_def up_in_def set_state_def split: ConnectionState.splits)

lemma up_keys_init_new_connection: "up_keys (init_new_connection k s) = up_keys s - {k}"
  by (simp add: init_new_connection_def up_keys_set_state spawn_def Let_def)
     (simp add: up_keys_def)

lemma up_keys_start_session: "up_keys (start_session c s) = insert (remote_id c) (up_keys s)"
  by (simp add: start_session_def new_channel_def spawn_def up_keys_set_state)
     (simp add: up_keys_def)

lemma complete_send_notifies:
  assumes "mgr_inv s" and "awaiting s = Some (ev, k)"
  shows "up_keys (complete_send d s) = note_event ev (up_keys s)"
    and "to_coord (complete_send d s) = to_coord s @ (if d then [ev] else [])"
    and "awaiting (complete_send d s) = None"
    and "whitelist (complete_send d s) = whitelist s"
    and "endpoint_id (complete_send d s) = endpoint_id s"
proof -
  from assms have k: "cont_ok (state_table s) ev k" by (simp add: mgr_inv_def await_inv_def)
  show "up_keys (complete_send d s) = note_event ev (up_keys s)"
    using k assms(2)
    by (cases k) (auto simp: complete_send_def up_keys_start_session up_keys_init_new_connection
        up_keys_set_state, simp_all add: up_keys_def)
  show "to_coord (complete_send d s) = to_coord s @ (if d then [ev] else [])"
    and "awaiting (complete_send d s) = None"
    and "whitelist (complete_send d s) = whitelist s"
    and "endpoint_id (complete_send d s) = endpoint_id s"
    using assms(2)
    by (cases k; simp add: complete_send_def start_session_def new_channel_def spawn_def set_state_def)+
qed

lemma handle_conn_event_table:
  assumes "handle_conn_event s ev = Inr t"
  shows "state_table t = state_table s" and "to_coord t = to_coord s"
    and "whitelist t = whitelist s" and "endpoint_id t = endpoint_id s"
  using assms
  by (cases ev; auto simp: handle_outgoing_def handle_incoming_def handle_disconnected_def
      init_ready_connection_def split: option.splits ConnectionState.splits)+

lemma push_packet_frame [simp]:
  "state_table (push_packet ch p a s) = state_table s" "to_coord (push_packet ch p a s) = to_coord s"
  "whitelist (push_packet ch p a s) = whitelist s" "endpoint_id (push_packet ch p a s) = endpoint_id s"
  "awaiting (push_packet ch p a s) = awaiting s" "tasks (push_packet ch p a s) = tasks s"
  by (cases a; simp add: push_packet_def)+

lemma handle_core_event_keeps:
  "up_keys (handle_core_event s answer a) = up_keys s"
  "to_coord (handle_core_event s answer a) = to_coord s"
  "whitelist (handle_core_event s answer a) = whitelist s"
  "endpoint_id (handle_core_event s answer a) = endpoint_id s"
  by (cases a; auto simp: up_keys_init_new_connection up_keys_set_state
      split: option.splits ConnectionState.splits; simp add: up_keys_def up_in_def)+

section \<open>Handlers, end to end\<close>

lemma role_ok_init_new_connection: "role_ok (init_new_connection k s) k"
  using role_ok_init_peer [of s k k] by (simp add: init_peer_eq)

lemma complete_reconnect:
  assumes "state_table s k = Some (Connected t c ch)"
  shows "complete_send d (handle_disconnected k s) =
    init_new_connection k (s\<lparr>awaiting := None,
      to_coord := to_coord s @ (if d then [DisconnectedFromPeer k] else [])\<rparr>)"
  using assms by (simp add: handle_disconnected_def send_await_def complete_send_def)

lemma complete_ready:
  "complete_send d (init_ready_connection c s) =
    start_session c (s\<lparr>awaiting := None,
      to_coord := to_coord s @ (if d then [ConnectedToPeer (remote_id c)] else [])\<rparr>)"
  by (simp add: init_ready_connection_def send_await_def complete_send_def)

lemma start_session_state:
  "state_table (start_session c s) =
     (state_table s)(remote_id c \<mapsto> Connected (Suc (next_id s)) c (next_id s))"
  "tasks (start_session c s) = (tasks s)(Suc (next_id s) \<mapsto> SessionTask c (next_id s))"
  "channels (start_session c s) = (channels s)(next_id s \<mapsto> [])"
  "to_coord (start_session c s) = to_coord s"
  "closed (start_session c s) = closed s"
  by (simp_all add: start_session_def new_channel_def spawn_def set_state_def)

lemma handle_replaces:
  assumes "state_table s (remote_id c) = Some (Connected t0 c0 ch0)"
    and "ev = IncomingConnection c \<or> ev = OutgoingConnection c"
  shows "\<exists>reason. handle_conn_event s ev = Inr (init_ready_connection c (close c0 1 reason (abort t0 s)))"
  using assms by (auto simp: handle_incoming_def handle_outgoing_def)

section \<open>An example manager\<close>

text \<open>Node 5 with the peers 3 (which it dials) and 7 (which dials it).\<close>

definition sample_new :: "nat Iroh" where
  "sample_new = projr (Iroh_new (\<lambda>_. None :: unit option) (Inr 5 :: unit + nat) {3, 7} [3, 7] 0)"

definition sample_mgr :: "nat Iroh" where
  "sample_mgr = init [3, 7] sample_new"

definition sample_conn :: "nat \<Rightarrow> nat Connection" where
  "sample_conn h = \<lparr>conn_handle = h, remote_id = 7\<rparr>"

definition sample_up :: "nat Iroh" where
  "sample_up = complete_send True (handle_incoming (sample_conn 1) sample_mgr)"

lemma sample_new_eq: "Iroh_new (\<lambda>_. None :: unit option) (Inr 5 :: unit + nat) {3, 7} [3, 7] 0 = Inr sample_new"
  by (simp add: sample_new_def Iroh_new_def)

lemma sample_enum: "enumerates [3, 7] {3, 7 :: nat}"
  by (simp add: enumerates_def)

lemmas sample_simps = sample_up_def sample_mgr_def sample_new_def sample_conn_def Iroh_new_def init_def
  init_peer_def spawn_def set_state_def handle_incoming_def init_ready_connection_def send_await_def
  complete_send_def start_session_def new_channel_def

lemma sample_mgr_reachable: "reachable mgr_initial mgr_step sample_mgr"
proof (rule reach_init)
  show "mgr_initial sample_mgr"
    unfolding mgr_initial_def sample_mgr_def using sample_new_eq sample_enum by blast
qed

lemma sample_up_reachable: "reachable mgr_initial mgr_step sample_up"
proof -
  let ?s = "handle_incoming (sample_conn 1) sample_mgr"
  have "mgr_step sample_mgr (LInput (RecvTasks (Some (IncomingConnection (sample_conn 1))))) ?s"
    by (rule mgr_step.input) (simp_all add: sample_mgr_def sample_new_def Iroh_new_def)
  with sample_mgr_reachable have "reachable mgr_initial mgr_step ?s" by (rule reach_step)
  moreover have "awaiting ?s \<noteq> None" by (simp add: sample_simps)
  ultimately show ?thesis unfolding sample_up_def by (blast intro: reach_step mgr_step.sent)
qed

lemma sample_up_state:
  "state_table sample_up 7 = Some (Connected 3 (sample_conn 1) 2)"
  "tasks sample_up 3 = Some (SessionTask (sample_conn 1) 2)"
  "awaiting sample_up = None" "to_coord sample_up = [ConnectedToPeer 7]" "closed sample_up = []"
  "endpoint_id sample_up = 5"
  by (simp_all add: sample_simps)

section \<open>Properties\<close>





text \<open>
  C21. Exactly one side dials: when two nodes with different keys list each other, then after
  \<^verbatim>\<open>init\<close> on both exactly one of them has spawned a connection task for the other, namely
  the one with the larger key, and the other one waits for the incoming connection.
\<close>

theorem exactly_one_side_dials:
  assumes "a \<noteq> b"
    and "enumerates iterA peersA" and "Iroh_new baA (Inr a) peersA iterA portA = Inr sA" and "b \<in> peersA"
    and "enumerates iterB peersB" and "Iroh_new baB (Inr b) peersB iterB portB = Inr sB" and "a \<in> peersB"
  shows "(b \<in> dial_tasks (init iterA sA)) \<noteq> (a \<in> dial_tasks (init iterB sB)) \<and>
    (b \<in> dial_tasks (init iterA sA) \<longleftrightarrow> b < a) \<and>
    (state_table (init iterA sA) b = Some WaitingIncomingConnection \<longleftrightarrow> a < b) \<and>
    (state_table (init iterB sB) a = Some WaitingIncomingConnection \<longleftrightarrow> b < a)"
proof -
  have A: "endpoint_id sA = a" "tasks sA = Map.empty" "b \<in> set iterA"
    using Iroh_new_state [OF assms(3,2)] assms(2,4) by (auto simp: enumerates_def)
  have B: "endpoint_id sB = b" "tasks sB = Map.empty" "a \<in> set iterB"
    using Iroh_new_state [OF assms(6,5)] assms(5,7) by (auto simp: enumerates_def)
  have "b \<in> dial_tasks (init iterA sA) \<longleftrightarrow> \<not> a < b" "a \<in> dial_tasks (init iterB sB) \<longleftrightarrow> \<not> b < a"
    using A B by (simp_all add: dial_tasks_init)
  moreover have "state_table (init iterA sA) b = Some WaitingIncomingConnection \<longleftrightarrow> a < b"
    using role_ok_init [OF A(3), of sA] A(1) by (auto simp: role_ok_def split: if_splits)
  moreover have "state_table (init iterB sB) a = Some WaitingIncomingConnection \<longleftrightarrow> b < a"
    using role_ok_init [OF B(3), of sB] B(1) by (auto simp: role_ok_def split: if_splits)
  ultimately show ?thesis using assms(1) by force
qed

theorem exactly_one_side_dials_witness:
  "\<exists>s7. Iroh_new (\<lambda>_. None :: unit option) (Inr 7 :: unit + nat) {5} [5] 0 = Inr s7 \<and>
    5 \<in> dial_tasks (init [5] s7) \<and> 7 \<notin> dial_tasks (init [3, 7] sample_new)"
proof -
  obtain s7 where s7: "Iroh_new (\<lambda>_. None :: unit option) (Inr 7 :: unit + nat) {5} [5] 0 = Inr s7"
    by (simp add: Iroh_new_def)
  have "enumerates [5] {5 :: nat}" by (simp add: enumerates_def)
  from exactly_one_side_dials [OF _ this s7 _ sample_enum sample_new_eq] s7 show ?thesis by auto
qed

text \<open>
  A connection, incoming or outgoing, from a key that is not configured is closed at once
  with code 1, and nothing else changes: no entry, no task, no event for the coordinator.
\<close>

theorem unknown_connection_refused:
  assumes "mgr_inv s" and "remote_id c \<notin> whitelist s"
    and "ev = IncomingConnection c \<or> ev = OutgoingConnection c"
  shows "\<exists>reason. handle_conn_event s ev = Inr (s\<lparr>closed := closed s @ [(c, 1, reason)]\<rparr>)"
proof -
  have "state_table s (remote_id c) = None" using mgr_inv_dom [OF assms(1)] assms(2) by auto
  with assms(3) show ?thesis by (auto simp: handle_incoming_def handle_outgoing_def close_def)
qed

theorem unknown_connection_refused_witness:
  "\<exists>reason. handle_conn_event sample_up (IncomingConnection \<lparr>conn_handle = 9, remote_id = 8\<rparr>) =
     Inr (sample_up\<lparr>closed := closed sample_up @ [(\<lparr>conn_handle = 9, remote_id = 8\<rparr>, 1, reason)]\<rparr>)"
proof (rule unknown_connection_refused)
  show "mgr_inv sample_up" using sample_up_reachable by (rule mgr.inv_reachable)
  show "remote_id \<lparr>conn_handle = 9, remote_id = 8\<rparr> \<notin> whitelist sample_up" by (simp add: sample_simps)
qed simp

text \<open>
  C23. A newer connection of a connected peer replaces the old one completely: the old session
  task is aborted and its connection closed with code 1, a session task for the new
  connection runs on an empty packet channel, the table points to it, and the coordinator is
  told that the peer is connected.
\<close>

theorem newer_connection_replaces:
  assumes "mgr_inv s" and "awaiting s = None"
    and "state_table s (remote_id c) = Some (Connected t0 c0 ch0)"
    and "ev = IncomingConnection c \<or> ev = OutgoingConnection c"
  shows "\<exists>s1 reason t ch. handle_conn_event s ev = Inr s1 \<and>
    (let s2 = complete_send True s1 in
       state_table s2 = (state_table s)(remote_id c \<mapsto> Connected t c ch) \<and> t \<noteq> t0 \<and> ch \<noteq> ch0 \<and>
       tasks s2 t0 = None \<and> tasks s2 t = Some (SessionTask c ch) \<and> channels s2 ch = Some [] \<and>
       closed s2 = closed s @ [(c0, 1, reason)] \<and>
       to_coord s2 = to_coord s @ [ConnectedToPeer (remote_id c)])"
proof -
  obtain reason where
    h: "handle_conn_event s ev = Inr (init_ready_connection c (close c0 1 reason (abort t0 s)))"
    using handle_replaces [OF assms(3,4)] by blast
  from mgr_inv_entry [OF assms(1,3)] have "t0 < next_id s" "ch0 < next_id s"
    by (auto simp: entry_inv_def)
  then show ?thesis
    by (intro exI [of _ "init_ready_connection c (close c0 1 reason (abort t0 s))"] exI [of _ reason]
        exI [of _ "Suc (next_id s)"] exI [of _ "next_id s"])
       (simp add: h Let_def complete_ready start_session_state close_def abort_def)
qed

theorem newer_connection_replaces_witness:
  "\<exists>s1 reason t ch. handle_conn_event sample_up (IncomingConnection (sample_conn 2)) = Inr s1 \<and>
     state_table (complete_send True s1) 7 = Some (Connected t (sample_conn 2) ch) \<and>
     tasks (complete_send True s1) 3 = None \<and>
     closed (complete_send True s1) = [(sample_conn 1, 1, reason)]"
proof -
  have inv: "mgr_inv sample_up" using sample_up_reachable by (rule mgr.inv_reachable)
  have r: "remote_id (sample_conn 2) = 7" by (simp add: sample_conn_def)
  from newer_connection_replaces [OF inv sample_up_state(3), of "sample_conn 2" 3 "sample_conn 1" 2
      "IncomingConnection (sample_conn 2)"]
  show ?thesis unfolding r using sample_up_state by (auto simp: Let_def)
qed

text \<open>
  Reconnection: when the session of a connected peer reports that its connection ended,
  the coordinator is notified and the peer is put back into its role: it is waited for when
  its key is larger, and otherwise a new connection task for it is running.
\<close>

theorem lost_connection_is_retried:
  assumes "state_table s k = Some (Connected t c ch)"
  shows "\<exists>s1. handle_conn_event s (ConnectionEvent.Disconnected k) = Inr s1 \<and>
    to_coord (complete_send True s1) = to_coord s @ [DisconnectedFromPeer k] \<and>
    \<not> is_up (complete_send True s1) k \<and>
    (if endpoint_id s < k
     then state_table (complete_send True s1) k = Some WaitingIncomingConnection
     else \<exists>t'. state_table (complete_send True s1) k = Some (Connecting t') \<and>
               tasks (complete_send True s1) t' = Some (ConnectTask k))"
proof -
  let ?s = "s\<lparr>awaiting := None, to_coord := to_coord s @ [DisconnectedFromPeer k]\<rparr>"
  have "complete_send True (handle_disconnected k s) = init_new_connection k ?s"
    using complete_reconnect [OF assms, of True] by simp
  moreover have "k \<notin> up_keys (init_new_connection k ?s)" by (simp add: up_keys_init_new_connection)
  ultimately show ?thesis
    using role_ok_init_new_connection [of k ?s]
    by (auto simp: role_ok_def up_keys_def split: if_splits)
qed

theorem lost_connection_is_retried_witness:
  "\<exists>s1. handle_conn_event sample_up (ConnectionEvent.Disconnected 7) = Inr s1 \<and>
     state_table (complete_send True s1) 7 = Some WaitingIncomingConnection"
  using lost_connection_is_retried [OF sample_up_state(1)] by (auto simp: sample_up_state)

text \<open>
  A \<^verbatim>\<open>DisconnectFromPeer\<close> action for a key that is not configured, which the source logs
  as ignored, enters that key into the table; a later \<^verbatim>\<open>ConnectToPeer\<close> for it then dials a
  node outside the whitelist.
\<close>

theorem disconnect_unknown_extends_table:
  assumes "state_table s k = None" and "awaiting s = None" and "k \<le> endpoint_id s"
  shows "state_table (handle_core_event s a (DisconnectFromPeer k)) k = Some ConnectionState.Disconnected \<and>
    k \<in> dial_tasks (handle_core_event (handle_core_event s a (DisconnectFromPeer k)) b (ConnectToPeer k)) \<and>
    handle_core_event s b (ConnectToPeer k) = s"
  using assms
  by (auto simp: set_state_def init_new_connection_def spawn_def dial_tasks_def ran_def)

theorem disconnect_unknown_extends_table_witness:
  "state_table sample_up 4 = None \<and>
   4 \<in> dial_tasks (handle_core_event (handle_core_event sample_up Sent (DisconnectFromPeer 4)) Sent (ConnectToPeer 4))"
proof -
  have "state_table sample_up 4 = None" by (simp add: sample_simps)
  moreover have "4 \<le> endpoint_id sample_up" by (simp add: sample_up_state)
  ultimately show ?thesis
    using disconnect_unknown_extends_table [OF _ sample_up_state(3), of 4 Sent Sent] by blast
qed

end
