(* ===== verification/Coordinator.thy ===== *)
theory Coordinator
  imports Vpn_Core Iroh_Manager
begin

text \<open>
  The coordinator, \<^verbatim>\<open>src/coord.rs\<close>: it feeds the core with the events of the connection
  manager and the packets of the TUN device and carries out the core's actions. The queues
  towards the manager and the TUN device are the messages sent and not yet received. The
  answers of the channel operations are arguments: \<open>ans i\<close> answers the operation of the
  \<open>i\<close>-th action. For \<^verbatim>\<open>try_send\<close> these are \<open>Sent\<close>, \<open>Full\<close> (the message is dropped) and
  \<open>Closed\<close>; for \<^verbatim>\<open>send(...).await\<close>, \<open>Full\<close> means that the handler is suspended there and
  continues with the remaining actions later.
\<close>

section \<open>Data\<close>

record 'pk Coordinator =
  core :: "'pk VpnCore"
  tx_to_iroh :: "'pk CoreAction list"
  tx_to_tun :: "bytes list"

datatype 'pk handled =
    Done "'pk Coordinator"
  | ChannelWasClosed "'pk Coordinator"
  | Suspended "'pk Coordinator" "'pk Action list"

definition Coordinator_new :: "'pk VpnCore \<Rightarrow> 'pk Coordinator" where
  "Coordinator_new c = \<lparr>core = c, tx_to_iroh = [], tx_to_tun = []\<rparr>"

section \<open>Operations\<close>

fun map_iroh_event_to_core_event :: "'pk IrohEvent \<Rightarrow> 'pk Event" where
  "map_iroh_event_to_core_event (ConnectedToPeer k) = PeerConnected k"
| "map_iroh_event_to_core_event (DisconnectedFromPeer k) = PeerDisconnected k"
| "map_iroh_event_to_core_event (RecvPacketFrom packet k) = PacketFromIroh packet k"

definition queue_iroh :: "'pk CoreAction \<Rightarrow> 'pk Coordinator \<Rightarrow> 'pk Coordinator" where
  "queue_iroh a s = s\<lparr>tx_to_iroh := tx_to_iroh s @ [a]\<rparr>"

definition queue_tun :: "bytes \<Rightarrow> 'pk Coordinator \<Rightarrow> 'pk Coordinator" where
  "queue_tun p s = s\<lparr>tx_to_tun := tx_to_tun s @ [p]\<rparr>"

fun handle_actions :: "(nat \<Rightarrow> TrySend) \<Rightarrow> 'pk Coordinator \<Rightarrow> 'pk Action list \<Rightarrow> 'pk handled" where
  "handle_actions ans s [] = Done s"
| "handle_actions ans s (a # as) =
     (let rest = (\<lambda>t. handle_actions (ans \<circ> Suc) t as) in
      case a of
        Action.ConnectToPeer _ \<Rightarrow> rest s
      | Action.DisconnectFromPeer k \<Rightarrow>
          (case ans 0 of
             Sent \<Rightarrow> rest (queue_iroh (CoreAction.DisconnectFromPeer k) s)
           | Full \<Rightarrow> Suspended s (a # as)
           | Closed \<Rightarrow> ChannelWasClosed s)
      | Action.SendPacketTo packet to \<Rightarrow>
          (case ans 0 of
             Sent \<Rightarrow> rest (queue_iroh (CoreAction.SendPacketTo packet to) s)
           | Full \<Rightarrow> rest s
           | Closed \<Rightarrow> ChannelWasClosed s)
      | WriteToTun packet \<Rightarrow>
          (case ans 0 of
             Sent \<Rightarrow> rest (queue_tun packet s)
           | Full \<Rightarrow> rest s
           | Closed \<Rightarrow> ChannelWasClosed s)
      | NoAction log \<Rightarrow> rest s)"

text \<open>The core may panic in principle, so the handlers have an optional result.\<close>

definition handle_core_input ::
  "(nat \<Rightarrow> TrySend) \<Rightarrow> 'pk Coordinator \<Rightarrow> 'pk Event \<Rightarrow> 'pk handled option" where
  "handle_core_input ans s e =
     map_option (\<lambda>(c, actions). handle_actions ans (s\<lparr>core := c\<rparr>) actions) (process (core s) e)"

definition handle_iroh_event ::
  "(nat \<Rightarrow> TrySend) \<Rightarrow> 'pk Coordinator \<Rightarrow> 'pk IrohEvent \<Rightarrow> 'pk handled option" where
  "handle_iroh_event ans s event = handle_core_input ans s (map_iroh_event_to_core_event event)"

definition handle_packet_from_tun ::
  "(nat \<Rightarrow> TrySend) \<Rightarrow> 'pk Coordinator \<Rightarrow> bytes \<Rightarrow> 'pk handled option" where
  "handle_packet_from_tun ans s packet = handle_core_input ans s (PacketFromTun packet)"

text \<open>
  One pass of \<^verbatim>\<open>run\<close>: \<open>Stop\<close> when the loop returns, \<open>Go\<close> with the state otherwise, and the
  actions still to be carried out when the handler is suspended.
\<close>

datatype 'pk coord_input = RecvIroh "'pk IrohEvent option" | RecvTun "bytes option"

datatype 'pk coord_pass = Stop | Go "'pk Coordinator" "'pk Action list"

fun after_handler :: "'pk handled \<Rightarrow> 'pk coord_pass" where
  "after_handler (Done s) = Go s []"
| "after_handler (Suspended s as) = Go s as"
| "after_handler (ChannelWasClosed s) = Stop"

fun coord_run_pass :: "(nat \<Rightarrow> TrySend) \<Rightarrow> 'pk Coordinator \<Rightarrow> 'pk coord_input \<Rightarrow> 'pk coord_pass option" where
  "coord_run_pass ans s (RecvIroh (Some event)) = map_option after_handler (handle_iroh_event ans s event)"
| "coord_run_pass ans s (RecvIroh None) = Some Stop"
| "coord_run_pass ans s (RecvTun (Some packet)) = map_option after_handler (handle_packet_from_tun ans s packet)"
| "coord_run_pass ans s (RecvTun None) = Some Stop"

section \<open>What an action list asks for\<close>

fun iroh_part :: "'pk Action \<Rightarrow> 'pk CoreAction option" where
  "iroh_part (Action.DisconnectFromPeer k) = Some (CoreAction.DisconnectFromPeer k)"
| "iroh_part (Action.SendPacketTo p k) = Some (CoreAction.SendPacketTo p k)"
| "iroh_part _ = None"

fun tun_part :: "'pk Action \<Rightarrow> bytes option" where
  "tun_part (WriteToTun p) = Some p"
| "tun_part _ = None"

definition uses_channel :: "'pk Action \<Rightarrow> bool" where
  "uses_channel a \<longleftrightarrow> iroh_part a \<noteq> None \<or> tun_part a \<noteq> None"

definition no_disconnect :: "'pk Action list \<Rightarrow> bool" where
  "no_disconnect as \<longleftrightarrow> (\<forall>k. Action.DisconnectFromPeer k \<notin> set as)"

text \<open>The actions whose channel operation succeeded.\<close>

fun accepted :: "(nat \<Rightarrow> TrySend) \<Rightarrow> 'pk Action list \<Rightarrow> 'pk Action list" where
  "accepted ans [] = []"
| "accepted ans (a # as) = (if ans 0 = Sent then [a] else []) @ accepted (ans \<circ> Suc) as"

text \<open>
  The answers of real channels: while the actions are carried out in order, a queue answers
  \<open>Full\<close> exactly when it holds as many messages as the capacity given in \<^verbatim>\<open>main\<close>. \<open>alive\<close> tells
  whether the receiving end of the channel to the virtual interface still exists; the answers
  are \<open>honest\<close> when it does.
\<close>

fun answers :: "bool \<Rightarrow> (nat \<Rightarrow> TrySend) \<Rightarrow> 'pk Coordinator \<Rightarrow> 'pk Action list \<Rightarrow> bool" where
  "answers alive ans s [] \<longleftrightarrow> True"
| "answers alive ans s (a # as) \<longleftrightarrow>
     (case (iroh_part a, tun_part a) of
        (Some x, _) \<Rightarrow> ans 0 = try_send INTERMOD_CHANNEL_CAPACITY (tx_to_iroh s) \<and>
          answers alive (ans \<circ> Suc) (if ans 0 = Sent then queue_iroh x s else s) as
      | (None, Some p) \<Rightarrow>
          ans 0 = (if alive then try_send INTERMOD_CHANNEL_CAPACITY (tx_to_tun s) else Closed) \<and>
          answers alive (ans \<circ> Suc) (if ans 0 = Sent then queue_tun p s else s) as
      | (None, None) \<Rightarrow> answers alive (ans \<circ> Suc) s as)"

abbreviation honest :: "(nat \<Rightarrow> TrySend) \<Rightarrow> 'pk Coordinator \<Rightarrow> 'pk Action list \<Rightarrow> bool" where
  "honest \<equiv> answers True"

section \<open>Carrying out actions\<close>

lemma queue_simps [simp]:
  "core (queue_iroh a s) = core s" "core (queue_tun p s) = core s"
  "tx_to_iroh (queue_iroh a s) = tx_to_iroh s @ [a]" "tx_to_iroh (queue_tun p s) = tx_to_iroh s"
  "tx_to_tun (queue_iroh a s) = tx_to_tun s" "tx_to_tun (queue_tun p s) = tx_to_tun s @ [p]"
  by (simp_all add: queue_iroh_def queue_tun_def)

lemma accepted_subset: "set (accepted ans as) \<subseteq> set as"
  by (induction as arbitrary: ans) auto

lemma accepted_all: "\<forall>i. ans i = Sent \<Longrightarrow> accepted ans as = as"
  by (induction as arbitrary: ans) auto

lemma handle_actions_append:
  assumes "no_disconnect as" and "\<forall>i < length as. ans i \<noteq> Closed"
  shows "\<exists>t. handle_actions ans s (as @ bs) = handle_actions (\<lambda>i. ans (length as + i)) t bs \<and>
    core t = core s \<and>
    tx_to_iroh t = tx_to_iroh s @ List.map_filter iroh_part (accepted ans as) \<and>
    tx_to_tun t = tx_to_tun s @ List.map_filter tun_part (accepted ans as)"
  using assms
proof (induction as arbitrary: ans s)
  case Nil
  then show ?case by (auto simp: map_filter_simps)
next
  case (Cons a as)
  let ?ans = "ans \<circ> Suc"
  from Cons.prems have "no_disconnect as" and "\<forall>i < length as. ?ans i \<noteq> Closed" and "ans 0 \<noteq> Closed"
    by (auto simp: no_disconnect_def)
  note IH = Cons.IH [OF this(1,2)]
  obtain u where u: "handle_actions ans s ((a # as) @ bs) = handle_actions ?ans u (as @ bs)"
    "core u = core s" "tx_to_iroh u = tx_to_iroh s @ List.map_filter iroh_part (if ans 0 = Sent then [a] else [])"
    "tx_to_tun u = tx_to_tun s @ List.map_filter tun_part (if ans 0 = Sent then [a] else [])"
    using \<open>ans 0 \<noteq> Closed\<close> Cons.prems(1)
    by (cases a; cases "ans 0") (auto simp: Let_def map_filter_simps no_disconnect_def)
  from IH [of u] obtain t where "handle_actions ?ans u (as @ bs) = handle_actions (\<lambda>i. ?ans (length as + i)) t bs"
    "core t = core u" "tx_to_iroh t = tx_to_iroh u @ List.map_filter iroh_part (accepted ?ans as)"
    "tx_to_tun t = tx_to_tun u @ List.map_filter tun_part (accepted ?ans as)" by blast
  with u show ?case by (auto simp: map_filter_append comp_def)
qed

lemma handle_actions_open:
  assumes "no_disconnect as" and "\<forall>i. ans i \<noteq> Closed"
  shows "\<exists>t. handle_actions ans s as = Done t \<and> core t = core s \<and>
    tx_to_iroh t = tx_to_iroh s @ List.map_filter iroh_part (accepted ans as) \<and>
    tx_to_tun t = tx_to_tun s @ List.map_filter tun_part (accepted ans as)"
  using handle_actions_append [of as ans s "[]"] assms by auto

section \<open>Live channels\<close>

abbreviation within_capacity :: "'pk Coordinator \<Rightarrow> bool" where
  "within_capacity s \<equiv> length (tx_to_iroh s) \<le> INTERMOD_CHANNEL_CAPACITY \<and>
     length (tx_to_tun s) \<le> INTERMOD_CHANNEL_CAPACITY"

lemma handle_actions_within_capacity:
  "honest ans s as \<Longrightarrow> within_capacity s \<Longrightarrow> handle_actions ans s as = Done t \<Longrightarrow> within_capacity t"
proof (induction as arbitrary: ans s)
  case Nil
  then show ?case by simp
next
  case (Cons a as)
  then show ?case
    by (cases a; cases "ans 0") (auto simp: try_send_def split: if_splits)
qed

lemma honest_exists: "\<exists>ans. honest ans s as \<and> (\<forall>i. ans i \<noteq> Closed)"
proof (induction as arbitrary: s)
  case Nil
  show ?case by (rule exI [of _ "\<lambda>_. Sent"]) simp
next
  case (Cons a as)
  let ?cap = INTERMOD_CHANNEL_CAPACITY
  define r where "r = (case (iroh_part a, tun_part a) of
      (Some _, _) \<Rightarrow> try_send ?cap (tx_to_iroh s) | (None, Some _) \<Rightarrow> try_send ?cap (tx_to_tun s) | _ \<Rightarrow> Sent)"
  define u where "u = (case (iroh_part a, tun_part a) of
      (Some x, _) \<Rightarrow> if r = Sent then queue_iroh x s else s
    | (None, Some p) \<Rightarrow> if r = Sent then queue_tun p s else s | _ \<Rightarrow> s)"
  obtain ans where "honest ans u as" "\<forall>i. ans i \<noteq> Closed" using Cons [of u] by blast
  then have "honest (case_nat r ans) s (a # as) \<and> (\<forall>i. case_nat r ans i \<noteq> Closed)"
    by (auto simp: r_def u_def comp_def split: option.splits nat.splits)
  then show ?case by blast
qed

text \<open>Without the receiver of the virtual interface a pass completes only if it writes nothing
  to it, and then the answers are those of a live channel.\<close>

lemma answers_Done:
  "answers alive ans s as \<Longrightarrow> handle_actions ans s as = Done t \<Longrightarrow> honest ans s as"
proof (induction as arbitrary: ans s)
  case (Cons a as)
  then show ?case by (cases a; cases "ans 0") (auto split: if_splits)
qed simp

text \<open>The core asks for a disconnection only when a peer it does not know has connected.\<close>

definition expected_event :: "'pk VpnCore \<Rightarrow> 'pk Event \<Rightarrow> bool" where
  "expected_event c e \<longleftrightarrow> (\<forall>k. e = PeerConnected k \<longrightarrow> k \<in> dom (peers c))"

lemma expected_no_disconnect:
  assumes "core_inv c" and "expected_event c e" and "process c e = Some (d, acts)"
  shows "no_disconnect acts"
  using process_disconnect_unknown [OF assms(1,3)] assms(2)
  by (auto simp: no_disconnect_def expected_event_def)

lemma handle_core_input_open:
  assumes "core_inv (core s)" and "expected_event (core s) e" and "\<forall>i. ans i \<noteq> Closed"
  shows "\<exists>c acts t. process (core s) e = Some (c, acts) \<and> handle_core_input ans s e = Some (Done t) \<and>
    core t = c \<and> core_inv c \<and>
    tx_to_iroh t = tx_to_iroh s @ List.map_filter iroh_part (accepted ans acts) \<and>
    tx_to_tun t = tx_to_tun s @ List.map_filter tun_part (accepted ans acts)"
proof -
  obtain c acts where c: "process (core s) e = Some (c, acts)" "core_inv c"
    using assms(1) by (rule core.process_total)
  then have "no_disconnect acts" using assms expected_no_disconnect by blast
  from handle_actions_open [OF this assms(3), of "s\<lparr>core := c\<rparr>"] c show ?thesis
    by (auto simp: handle_core_input_def)
qed

section \<open>Properties\<close>

text \<open>
  With both channels alive the coordinator handles every event of a known peer and every
  packet of the host to completion: no panic, no suspension, no stop. The messages it queues
  for the connection manager and for the TUN device are exactly those the core's actions ask
  for, in order, except those whose channel was full at that moment.
\<close>

theorem coordinator_forwards:
  assumes "core_inv (core s)" and "\<forall>i. ans i \<noteq> Closed"
    and "\<forall>k. ev = ConnectedToPeer k \<longrightarrow> k \<in> dom (peers (core s))"
  shows "\<exists>c acts t. process (core s) (map_iroh_event_to_core_event ev) = Some (c, acts) \<and>
    coord_run_pass ans s (RecvIroh (Some ev)) = Some (Go t []) \<and> core t = c \<and> core_inv c \<and>
    tx_to_iroh t = tx_to_iroh s @ List.map_filter iroh_part (accepted ans acts) \<and>
    tx_to_tun t = tx_to_tun s @ List.map_filter tun_part (accepted ans acts)"
proof -
  have "expected_event (core s) (map_iroh_event_to_core_event ev)"
    using assms(3) by (cases ev) (auto simp: expected_event_def)
  from handle_core_input_open [OF assms(1) this assms(2)] show ?thesis
    by (auto simp: handle_iroh_event_def)
qed

definition sample_coord :: "nat Coordinator" where
  "sample_coord = Coordinator_new sample_core"

lemma sample_coord_inv: "core_inv (core sample_coord)"
  by (simp add: sample_coord_def Coordinator_new_def sample_inv)

theorem coordinator_forwards_witness:
  "\<exists>t. coord_run_pass (\<lambda>_. Sent) sample_coord (RecvIroh (Some (RecvPacketFrom sample_reply 7))) =
     Some (Go t []) \<and> tx_to_tun t = [sample_reply]"
proof -
  have p: "process (core sample_coord) (PacketFromIroh sample_reply 7) = Some (sample_core, [WriteToTun sample_reply])"
    using recv_packet_eq [of sample_core sample_reply 7] sample_ingress
    by (auto simp: sample_coord_def Coordinator_new_def)
  from coordinator_forwards [OF sample_coord_inv, of "\<lambda>_. Sent" "RecvPacketFrom sample_reply 7"] p
  show ?thesis
    by (auto simp: map_filter_simps) (simp add: sample_coord_def Coordinator_new_def)
qed

text \<open>
  The packets of the host, with both channels alive: handled to completion, and when no
  channel is full nothing is lost and the order is kept.
\<close>

theorem coordinator_host_packet:
  assumes "core_inv (core s)" and "\<forall>i. ans i \<noteq> Closed"
  shows "\<exists>c acts t. send_packet (core s) p = Some (c, acts) \<and>
    coord_run_pass ans s (RecvTun (Some p)) = Some (Go t []) \<and> core t = c \<and> core_inv c \<and>
    tx_to_tun t = tx_to_tun s \<and>
    tx_to_iroh t = tx_to_iroh s @ List.map_filter iroh_part (accepted ans acts) \<and>
    ((\<forall>i. ans i = Sent) \<longrightarrow> tx_to_iroh t = tx_to_iroh s @ List.map_filter iroh_part acts)"
proof -
  have ex: "expected_event (core s) (PacketFromTun p)" by (simp add: expected_event_def)
  obtain c acts t where t: "process (core s) (PacketFromTun p) = Some (c, acts)"
    "handle_core_input ans s (PacketFromTun p) = Some (Done t)" "core t = c" "core_inv c"
    "tx_to_iroh t = tx_to_iroh s @ List.map_filter iroh_part (accepted ans acts)"
    "tx_to_tun t = tx_to_tun s @ List.map_filter tun_part (accepted ans acts)"
    using handle_core_input_open [OF assms(1) ex assms(2)] by blast
  have "tun_part a = None" if "a \<in> set acts" for a
    using process_write_to_tun [OF assms(1) t(1)] that by (cases a) auto
  then have "List.map_filter tun_part (accepted ans acts) = []"
    using accepted_subset [of ans acts] set_map_filter [of _ tun_part "accepted ans acts"]
    by (metis (no_types, lifting) list.set_intros(1) neq_Nil_conv option.distinct(1) subsetD)
  with t show ?thesis by (auto simp: handle_packet_from_tun_def accepted_all)
qed

theorem coordinator_host_packet_witness:
  "\<exists>t. coord_run_pass (\<lambda>_. Sent) (Coordinator_new sample_connected_core) (RecvTun (Some (sample_packet 3))) =
     Some (Go t []) \<and> tx_to_iroh t = [CoreAction.SendPacketTo (sample_packet 3) 7]"
proof -
  have inv: "core_inv (core (Coordinator_new sample_connected_core))"
    by (simp add: Coordinator_new_def sample_connected_inv)
  have "send_packet (core (Coordinator_new sample_connected_core)) (sample_packet 3) =
      Some (sample_connected_core, [Action.SendPacketTo (sample_packet 3) 7])"
    using sample_connected_send [of 3] by (simp add: Coordinator_new_def)
  with coordinator_host_packet [OF inv, of "\<lambda>_. Sent" "sample_packet 3"] show ?thesis
    by (auto simp: map_filter_simps) (simp add: Coordinator_new_def)
qed

text \<open>
  A closed channel stops the coordinator: if the channel needed by an action has no
  receiver any more, the loop returns there; the messages of the actions before it have been
  queued and those after it are not.
\<close>

theorem coordinator_stops_when_closed:
  assumes "process (core s) e = Some (c, as @ a # bs)" and "no_disconnect as"
    and "\<forall>i < length as. ans i \<noteq> Closed" and "ans (length as) = Closed" and "uses_channel a"
  shows "\<exists>t. handle_core_input ans s e = Some (ChannelWasClosed t) \<and>
    tx_to_iroh t = tx_to_iroh s @ List.map_filter iroh_part (accepted ans as) \<and>
    tx_to_tun t = tx_to_tun s @ List.map_filter tun_part (accepted ans as)"
proof -
  obtain t where t: "handle_actions ans (s\<lparr>core := c\<rparr>) (as @ a # bs) =
      handle_actions (\<lambda>i. ans (length as + i)) t (a # bs)"
    "tx_to_iroh t = tx_to_iroh s @ List.map_filter iroh_part (accepted ans as)"
    "tx_to_tun t = tx_to_tun s @ List.map_filter tun_part (accepted ans as)"
    using handle_actions_append [OF assms(2,3), of "s\<lparr>core := c\<rparr>" "a # bs"] by auto
  moreover have "handle_actions (\<lambda>i. ans (length as + i)) t (a # bs) = ChannelWasClosed t"
    using assms(4,5) by (cases a) (auto simp: uses_channel_def)
  ultimately show ?thesis using assms(1) by (auto simp: handle_core_input_def)
qed

theorem coordinator_stops_when_closed_witness:
  "\<exists>t. handle_core_input (\<lambda>_. Closed) (Coordinator_new sample_connected_core) (PacketFromTun (sample_packet 3)) =
     Some (ChannelWasClosed t) \<and> tx_to_iroh t = []"
proof -
  have "process (core (Coordinator_new sample_connected_core)) (PacketFromTun (sample_packet 3)) =
      Some (sample_connected_core, [] @ Action.SendPacketTo (sample_packet 3) 7 # [])"
    using sample_connected_send [of 3] by (simp add: Coordinator_new_def)
  from coordinator_stops_when_closed [OF this, of "\<lambda>_. Closed"] show ?thesis
    by (auto simp: no_disconnect_def uses_channel_def map_filter_simps Coordinator_new_def)
qed

end
