(* ===== verification/Iroh_Tasks.thy ===== *)
theory Iroh_Tasks
  imports Iroh_Manager
begin

text \<open>
  The asynchronous tasks of \<^verbatim>\<open>src/iroh.rs\<close>: the session of a connected peer, the dialling
  loop and the accept loop. What the connection, the endpoint and the channels answer is an
  input of each pass of a loop; what a task does to them is an effect. The dialling loop
  retries until it succeeds and need not end, so it is a \<open>partial_function\<close> whose result is
  \<open>None\<close> when no attempt ever succeeds; the theorems say exactly when it returns and with what.
\<close>

section \<open>The session of a connected peer\<close>

datatype SendDatagramError = TooLarge | OtherDatagramError

text \<open>
  The two branches of the \<^verbatim>\<open>select!\<close>: a datagram read (or the error that ended the
  connection) with the answer of \<^verbatim>\<open>try_send\<close> to the coordinator, or a packet of the manager
  (\<open>None\<close>: the manager dropped the sender) with the result of \<^verbatim>\<open>send_datagram\<close>.
\<close>

datatype 'ce session_input =
    ReadDatagram "'ce + bytes" TrySend
  | RecvFromManager "bytes option" "SendDatagramError option"

datatype 'pk session_effect =
    ToCoord "'pk IrohEvent"
  | ToManager "'pk ConnectionEvent"
  | Datagram bytes

text \<open>One pass of the loop: its effects and whether the loop goes on.\<close>

fun session_pass :: "'pk Connection \<Rightarrow> 'ce session_input \<Rightarrow> 'pk session_effect list \<times> bool" where
  "session_pass conn (ReadDatagram (Inr packet) answer) =
     (if answer = Sent then [ToCoord (RecvPacketFrom packet (remote_id conn))] else [], True)"
| "session_pass conn (ReadDatagram (Inl e) answer) =
     ([ToManager (ConnectionEvent.Disconnected (remote_id conn))], False)"
| "session_pass conn (RecvFromManager (Some packet) None) = ([Datagram packet], True)"
| "session_pass conn (RecvFromManager (Some packet) (Some TooLarge)) = ([], True)"
| "session_pass conn (RecvFromManager (Some packet) (Some OtherDatagramError)) =
     ([ToManager (ConnectionEvent.Disconnected (remote_id conn))], False)"
| "session_pass conn (RecvFromManager None r) = ([], False)"

text \<open>The loop; the second component tells whether the task has returned.\<close>

fun session_on_peer_connected ::
  "'pk Connection \<Rightarrow> 'ce session_input list \<Rightarrow> 'pk session_effect list \<times> bool" where
  "session_on_peer_connected conn [] = ([], False)"
| "session_on_peer_connected conn (i # is) =
     (let (effs, go) = session_pass conn i in
      if go then let (more, ended) = session_on_peer_connected conn is in (effs @ more, ended)
      else (effs, True))"

section \<open>The dialling loop\<close>

text \<open>
  \<open>attempt n\<close> is the result of the \<open>n\<close>-th \<^verbatim>\<open>endpoint.connect\<close>, \<open>resolver n\<close> whether
  \<^verbatim>\<open>dns_resolver()\<close> is available after it. The state counts the seconds slept and the cache
  flushes; the result is the event sent to the manager.
\<close>

record dial_stats =
  slept_secs :: nat
  cache_clears :: nat

partial_function (option) connect_to_peer ::
  "(nat \<Rightarrow> 'e + 'pk Connection) \<Rightarrow> (nat \<Rightarrow> bool) \<Rightarrow> nat \<Rightarrow> dial_stats \<Rightarrow>
     ('pk ConnectionEvent \<times> dial_stats) option" where
  "connect_to_peer attempt resolver n st =
     (case attempt n of
        Inr conn \<Rightarrow> Some (OutgoingConnection conn, st)
      | Inl e \<Rightarrow>
          connect_to_peer attempt resolver (Suc n)
            \<lparr>slept_secs = slept_secs st + 2,
             cache_clears = cache_clears st + (if resolver n then 1 else 0)\<rparr>)"

section \<open>The accept loop\<close>

text \<open>
  \<open>incomings\<close> are the connections that \<^verbatim>\<open>endpoint.accept()\<close> yields before it returns
  \<open>None\<close>; \<^verbatim>\<open>incoming.accept()\<close> fails or gives a handshake, which is spawned as a task of
  its own. \<open>accept_connections\<close> lists the spawned handshakes in order.
\<close>

fun accept_connections :: "('e + 'hs) list \<Rightarrow> 'hs list" where
  "accept_connections [] = []"
| "accept_connections (Inr ac # incomings) = ac # accept_connections incomings"
| "accept_connections (Inl e # incomings) = accept_connections incomings"

fun handshake_task :: "'e + 'pk Connection \<Rightarrow> 'pk ConnectionEvent list" where
  "handshake_task (Inr conn) = [IncomingConnection conn]"
| "handshake_task (Inl e) = []"

section \<open>Observations\<close>

text \<open>The inputs after which the session returns.\<close>

fun final_input :: "'ce session_input \<Rightarrow> bool" where
  "final_input (ReadDatagram r answer) = (case r of Inl _ \<Rightarrow> True | Inr _ \<Rightarrow> False)"
| "final_input (RecvFromManager None r) = True"
| "final_input (RecvFromManager (Some p) r) = (r = Some OtherDatagramError)"

text \<open>The inputs by which a session learns that its connection is unusable.\<close>

fun failed_input :: "'ce session_input \<Rightarrow> bool" where
  "failed_input (ReadDatagram r answer) = (case r of Inl _ \<Rightarrow> True | Inr _ \<Rightarrow> False)"
| "failed_input (RecvFromManager p r) = (p \<noteq> None \<and> r = Some OtherDatagramError)"

fun read_packet :: "'ce session_input \<Rightarrow> bytes option" where
  "read_packet (ReadDatagram r answer) =
     (case r of Inr p \<Rightarrow> if answer = Sent then Some p else None | Inl _ \<Rightarrow> None)"
| "read_packet (RecvFromManager p r) = None"

fun sent_packet :: "'ce session_input \<Rightarrow> bytes option" where
  "sent_packet (RecvFromManager p r) = (if r = None then p else None)"
| "sent_packet (ReadDatagram r answer) = None"

fun coord_part :: "'pk session_effect \<Rightarrow> 'pk IrohEvent option" where
  "coord_part (ToCoord e) = Some e"
| "coord_part _ = None"

fun manager_part :: "'pk session_effect \<Rightarrow> 'pk ConnectionEvent option" where
  "manager_part (ToManager e) = Some e"
| "manager_part _ = None"

fun wire_part :: "'pk session_effect \<Rightarrow> bytes option" where
  "wire_part (Datagram p) = Some p"
| "wire_part _ = None"

abbreviation before_end :: "'ce session_input list \<Rightarrow> 'ce session_input list" where
  "before_end \<equiv> takeWhile (\<lambda>i. \<not> final_input i)"

section \<open>Facts about one pass\<close>

lemma session_pass_go: "snd (session_pass conn i) \<longleftrightarrow> \<not> final_input i"
  by (cases "(conn, i)" rule: session_pass.cases) simp_all

lemma session_pass_effects:
  assumes "eff \<in> set (fst (session_pass conn i))"
  shows "(\<exists>p. eff = ToCoord (RecvPacketFrom p (remote_id conn)) \<and> i = ReadDatagram (Inr p) Sent) \<or>
    (\<exists>p. eff = Datagram p \<and> i = RecvFromManager (Some p) None) \<or>
    (eff = ToManager (ConnectionEvent.Disconnected (remote_id conn)) \<and> failed_input i)"
  using assms by (cases "(conn, i)" rule: session_pass.cases) (auto split: if_splits)

lemma session_pass_parts:
  "List.map_filter coord_part (fst (session_pass conn i)) =
     (case read_packet i of Some p \<Rightarrow> [RecvPacketFrom p (remote_id conn)] | None \<Rightarrow> [])"
  "List.map_filter wire_part (fst (session_pass conn i)) =
     (case sent_packet i of Some p \<Rightarrow> [p] | None \<Rightarrow> [])"
  "List.map_filter manager_part (fst (session_pass conn i)) =
     (if failed_input i then [ConnectionEvent.Disconnected (remote_id conn)] else [])"
  by (cases "(conn, i)" rule: session_pass.cases; simp add: map_filter_simps)+

lemma final_parts:
  "final_input i \<Longrightarrow> read_packet i = None" "final_input i \<Longrightarrow> sent_packet i = None"
  "failed_input i \<Longrightarrow> final_input i"
  by (cases i rule: final_input.cases; auto split: sum.splits)+

section \<open>Facts about the loop\<close>

lemma session_Cons:
  "session_on_peer_connected conn (i # ins) =
     (if final_input i then (fst (session_pass conn i), True)
      else (fst (session_pass conn i) @ fst (session_on_peer_connected conn ins),
            snd (session_on_peer_connected conn ins)))"
  using session_pass_go [of conn i] by (auto simp: Let_def split: prod.splits)

lemma session_ended: "snd (session_on_peer_connected conn ins) \<longleftrightarrow> (\<exists>i \<in> set ins. final_input i)"
  by (induction ins) (auto simp: session_Cons simp del: session_on_peer_connected.simps(2))

lemma session_coord_part:
  "List.map_filter coord_part (fst (session_on_peer_connected conn ins)) =
     map (\<lambda>p. RecvPacketFrom p (remote_id conn)) (List.map_filter read_packet (before_end ins))"
  by (induction ins)
     (auto simp: session_Cons map_filter_append map_filter_Cons_opt session_pass_parts final_parts
       simp del: session_on_peer_connected.simps(2) split: option.splits)

lemma session_wire_part:
  "List.map_filter wire_part (fst (session_on_peer_connected conn ins)) =
     List.map_filter sent_packet (before_end ins)"
  by (induction ins)
     (auto simp: session_Cons map_filter_append map_filter_Cons_opt session_pass_parts final_parts
       simp del: session_on_peer_connected.simps(2) split: option.splits)

lemma session_manager_part:
  "List.map_filter manager_part (fst (session_on_peer_connected conn ins)) =
     (case dropWhile (\<lambda>i. \<not> final_input i) ins of
        [] \<Rightarrow> []
      | i # _ \<Rightarrow> if failed_input i then [ConnectionEvent.Disconnected (remote_id conn)] else [])"
  by (induction ins)
     (auto simp: session_Cons map_filter_append session_pass_parts dest: final_parts(3)
       simp del: session_on_peer_connected.simps(2))

section \<open>Facts about the dialling loop\<close>

declare connect_to_peer.simps [code]

lemma connect_to_peer_failures:
  assumes "\<forall>i < m. \<exists>e. attempt (n + i) = Inl e"
  shows "connect_to_peer attempt resolver n st =
    connect_to_peer attempt resolver (n + m)
      \<lparr>slept_secs = slept_secs st + 2 * m,
       cache_clears = cache_clears st + card {i. i < m \<and> resolver (n + i)}\<rparr>"
  using assms
proof (induction m)
  case 0
  show ?case by (cases st) simp
next
  case (Suc m)
  then obtain e where e: "attempt (n + m) = Inl e" by blast
  have "{i. i < Suc m \<and> resolver (n + i)} =
      {i. i < m \<and> resolver (n + i)} \<union> (if resolver (n + m) then {m} else {})"
    by (auto simp: less_Suc_eq)
  then have "card {i. i < Suc m \<and> resolver (n + i)} =
      card {i. i < m \<and> resolver (n + i)} + (if resolver (n + m) then 1 else 0)"
    by (simp add: card_insert_if)
  with Suc e show ?case
    by (simp add: connect_to_peer.simps [of attempt resolver "n + m"])
qed

lemma connect_to_peer_returns:
  fixes attempt :: "nat \<Rightarrow> 'e + 'pk Connection"
  assumes "connect_to_peer attempt resolver n st = Some r"
  shows "\<exists>m \<ge> n. \<exists>conn. attempt m = Inr conn"
proof (rule connect_to_peer.raw_induct [where P = "\<lambda>attempt resolver n st r. \<exists>m \<ge> n. \<exists>conn. attempt m = Inr conn", OF _ assms])
  fix f and attempt :: "nat \<Rightarrow> 'e + 'pk Connection" and resolver n st r
  assume IH: "\<And>(attempt :: nat \<Rightarrow> 'e + 'pk Connection) resolver n st r. f attempt resolver n st = Some r \<Longrightarrow> \<exists>m \<ge> n. \<exists>conn. attempt m = Inr conn"
    and eq: "(case attempt n of
        Inr conn \<Rightarrow> Some (OutgoingConnection conn, st)
      | Inl e \<Rightarrow> f attempt resolver (Suc n)
            \<lparr>slept_secs = slept_secs st + 2,
             cache_clears = cache_clears st + (if resolver n then 1 else 0)\<rparr>) = Some r"
  show "\<exists>m \<ge> n. \<exists>conn. attempt m = Inr conn"
  proof (cases "attempt n")
    case (Inl e)
    with eq IH have "\<exists>m \<ge> Suc n. \<exists>conn. attempt m = Inr conn" by fastforce
    then show ?thesis by (meson Suc_leD)
  qed blast
qed

section \<open>Properties\<close>

text \<open>
  C35. The session loop, on any sequence of inputs: it returns exactly when its connection
  fails or the manager drops its channel. Up to that point it hands the coordinator every
  datagram it could queue, in order and labelled with the key its connection was
  authenticated for, and it sends every packet of the manager that the transport takes, in
  order. The manager is told of the end once, with that key, if the connection failed, and
  not at all otherwise; an oversized packet ends nothing.
\<close>

theorem session_correct:
  "(snd (session_on_peer_connected conn ins) \<longleftrightarrow> (\<exists>i \<in> set ins. final_input i)) \<and>
   List.map_filter coord_part (fst (session_on_peer_connected conn ins)) =
     map (\<lambda>p. RecvPacketFrom p (remote_id conn)) (List.map_filter read_packet (before_end ins)) \<and>
   List.map_filter wire_part (fst (session_on_peer_connected conn ins)) =
     List.map_filter sent_packet (before_end ins) \<and>
   List.map_filter manager_part (fst (session_on_peer_connected conn ins)) =
     (case dropWhile (\<lambda>i. \<not> final_input i) ins of
        [] \<Rightarrow> []
      | i # _ \<Rightarrow> if failed_input i then [ConnectionEvent.Disconnected (remote_id conn)] else [])"
  using session_ended session_coord_part session_wire_part session_manager_part by blast

text \<open>
  C36. The dialling loop returns if and only if some attempt succeeds. If attempt \<open>m\<close> is the
  first to succeed, it reports that connection, after sleeping two seconds for each of the
  \<open>m\<close> failures and clearing the DNS cache after those for which a resolver was available.
\<close>

theorem connect_to_peer_correct:
  "((\<exists>r. connect_to_peer attempt resolver 0 st = Some r) \<longleftrightarrow> (\<exists>m conn. attempt m = Inr conn)) \<and>
   (\<forall>m conn. attempt m = Inr conn \<and> (\<forall>i < m. \<exists>e. attempt i = Inl e) \<longrightarrow>
      connect_to_peer attempt resolver 0 st =
        Some (OutgoingConnection conn,
              \<lparr>slept_secs = slept_secs st + 2 * m,
               cache_clears = cache_clears st + card {i. i < m \<and> resolver i}\<rparr>))"
proof -
  have first: "connect_to_peer attempt resolver 0 st =
        Some (OutgoingConnection conn,
              \<lparr>slept_secs = slept_secs st + 2 * m,
               cache_clears = cache_clears st + card {i. i < m \<and> resolver i}\<rparr>)"
    if "attempt m = Inr conn" and "\<forall>i < m. \<exists>e. attempt i = Inl e" for m conn
    using connect_to_peer_failures [of m attempt 0 resolver st] that
    by (simp add: connect_to_peer.simps [of attempt resolver m])
  have "\<exists>r. connect_to_peer attempt resolver 0 st = Some r" if "attempt m = Inr conn" for m conn
  proof -
    let ?P = "\<lambda>m. \<exists>conn. attempt m = Inr conn"
    let ?m = "LEAST m. ?P m"
    have "?P ?m" by (rule LeastI [of ?P m]) (use that in blast)
    moreover have "\<forall>i < ?m. \<exists>e. attempt i = Inl e"
      using not_less_Least [of _ ?P] by (metis sum.exhaust)
    ultimately show ?thesis using first by blast
  qed
  then show ?thesis using first connect_to_peer_returns [of attempt resolver 0 st] by blast
qed

theorem connect_to_peer_correct_witness:
  "connect_to_peer (\<lambda>n. if n < 2 then Inl () else Inr \<lparr>conn_handle = n, remote_id = (7::nat)\<rparr>) (\<lambda>n. n = 0) 0
     \<lparr>slept_secs = 0, cache_clears = 0\<rparr> =
   Some (OutgoingConnection \<lparr>conn_handle = 2, remote_id = 7\<rparr>, \<lparr>slept_secs = 4, cache_clears = 1\<rparr>)"
proof -
  let ?a = "\<lambda>n. if n < 2 then Inl () else Inr \<lparr>conn_handle = n, remote_id = (7::nat)\<rparr>"
  have "?a 2 = Inr \<lparr>conn_handle = 2, remote_id = 7\<rparr> \<and> (\<forall>i < 2. \<exists>e. ?a i = Inl e)" by simp
  with connect_to_peer_correct [of ?a "\<lambda>n. n = 0" "\<lparr>slept_secs = 0, cache_clears = 0\<rparr>"]
  have "connect_to_peer ?a (\<lambda>n. n = 0) 0 \<lparr>slept_secs = 0, cache_clears = 0\<rparr> =
     Some (OutgoingConnection \<lparr>conn_handle = 2, remote_id = 7\<rparr>,
       \<lparr>slept_secs = 4, cache_clears = card {i. i < 2 \<and> i = (0::nat)}\<rparr>)" by fastforce
  moreover have "{i. i < 2 \<and> i = (0::nat)} = {0}" by auto
  ultimately show ?thesis by simp
qed

end
