(* ===== verification/Mesh_Node.thy ===== *)
theory Mesh_Node
  imports Coordinator Iroh_Tasks
begin

text \<open>
  One running node: the coordinator with the core, the connection manager and the tasks it
  has spawned, connected by their channels as \<^verbatim>\<open>src/main.rs\<close> wires them. The steps are the
  passes of the event loops and task loops, interleaved in any order; the network and the
  host are the environment and may do anything: every connection, datagram, packet, error and
  channel answer is possible at every moment. The invariant \<open>node_inv\<close> relates the parts; it
  is proved through the locale \<open>inductive_invariant\<close>.
\<close>

section \<open>State\<close>

text \<open>
  The queues between the parts: \<open>tx_to_iroh\<close> and \<open>tx_to_tun\<close> of the coordinator,
  \<open>to_coord\<close> of the manager, the events of the tasks in \<open>inbox\<close> and the packets of the host
  in \<open>from_tun\<close>. \<open>pending\<close> holds the actions a suspended coordinator still has to carry out,
  and three histories record what crossed the borders of the node: \<open>wire\<close> every datagram sent
  and \<open>arrived\<close> every datagram read, with the key of the connection that carried it, and
  \<open>host_sent\<close> every packet of the host that the channel of the virtual interface accepted.
\<close>

record 'pk Node =
  coord :: "'pk Coordinator"
  pending :: "'pk Action list"
  mgr :: "'pk Iroh"
  inbox :: "'pk ConnectionEvent list"
  from_tun :: "bytes list"
  wire :: "(bytes \<times> 'pk) list"
  arrived :: "(bytes \<times> 'pk) list"
  host_sent :: "bytes list"

text \<open>
  The start-up of \<^verbatim>\<open>main\<close>: the peer set of the manager is collected from the values of the
  routing table that the core gets, and the three event loops are spawned; the manager's loop
  begins with \<^verbatim>\<open>init\<close>. \<open>iter\<close> and \<open>keys\<close> are the iteration orders of the routing table and
  of the peer set.
\<close>

definition peer_set :: "(Ipv4Addr \<times> 'pk) list \<Rightarrow> 'pk set" where
  "peer_set iter = fold (\<lambda>(_, k) A. insert k A) iter {}"

definition final_mtu :: u16 where
  "final_mtu = 1100"

definition node_start ::
  "(string \<Rightarrow> 'e1 option) \<Rightarrow> ('e2 + 'pk::linorder) \<Rightarrow> Ipv4Addr \<Rightarrow> (Ipv4Addr \<rightharpoonup> 'pk) \<Rightarrow>
   (Ipv4Addr \<times> 'pk) list \<Rightarrow> 'pk list \<Rightarrow> u16 \<Rightarrow> ('e1, 'e2) InitError + 'pk Node" where
  "node_start bind_addr bound addr table iter keys listen_port =
     (let vpn = VpnCore_new addr table iter (unat final_mtu) in
      case Iroh_new bind_addr bound (peer_set iter) keys listen_port of
        Inl e \<Rightarrow> Inl e
      | Inr iroh \<Rightarrow>
          Inr \<lparr>coord = Coordinator_new vpn, pending = [], mgr = init keys iroh, inbox = [],
               from_tun = [], wire = [], arrived = [], host_sent = []\<rparr>)"

section \<open>Steps\<close>

datatype 'pk node_label =
    CoordIroh "nat \<Rightarrow> TrySend"
  | CoordTun "nat \<Rightarrow> TrySend"
  | CoordResume "nat \<Rightarrow> TrySend"
  | MgrTasks
  | MgrCoord TrySend
  | MgrSent
  | Session nat "unit session_input"
  | Dialled nat "'pk Connection"
  | Accepted nat "'pk Connection"
  | HostSends bytes
  | HostTakes

definition put_coord :: "'pk Node \<Rightarrow> 'pk coord_pass \<Rightarrow> 'pk Node option" where
  "put_coord n r = (case r of Stop \<Rightarrow> None | Go c as \<Rightarrow> Some (n\<lparr>coord := c, pending := as\<rparr>))"

text \<open>What a session may receive on its packet channel: the next packet, or, once the table
  has dropped the sender and the queue is empty, the end of the channel.\<close>

definition take_packet :: "nat \<Rightarrow> 'ce session_input \<Rightarrow> 'pk Iroh \<Rightarrow> 'pk Iroh option" where
  "take_packet ch i s =
     (case i of
        ReadDatagram _ _ \<Rightarrow> Some s
      | RecvFromManager (Some p) _ \<Rightarrow>
          (case channels s ch of
             Some (q # qs) \<Rightarrow> if q = p then Some (s\<lparr>channels := (channels s)(ch \<mapsto> qs)\<rparr>) else None
           | _ \<Rightarrow> None)
      | RecvFromManager None _ \<Rightarrow>
          if channels s ch = Some [] then Some s else None)"

definition apply_session :: "'pk Connection \<Rightarrow> nat \<Rightarrow> 'ce session_input \<Rightarrow> 'pk Iroh \<Rightarrow> 'pk Node \<Rightarrow> 'pk Node" where
  "apply_session conn t i s n =
     (let (effs, go) = session_pass conn i;
          s1 = s\<lparr>to_coord := to_coord s @ List.map_filter coord_part effs\<rparr>
      in n\<lparr>mgr := (if go then s1 else task_ends t s1),
           inbox := inbox n @ List.map_filter manager_part effs,
           wire := wire n @ map (\<lambda>p. (p, remote_id conn)) (List.map_filter wire_part effs),
           arrived := arrived n @ (case i of ReadDatagram (Inr p) _ \<Rightarrow> [(p, remote_id conn)] | _ \<Rightarrow> [])\<rparr>)"

text \<open>
  What the live channels answer. The coordinator's answers are \<open>honest\<close> for the actions of the
  core; a packet for a session is refused when its channel is full or the session has ended; a
  session's attempt to pass a packet to the coordinator depends on that channel, and a task that
  reports to the manager with \<^verbatim>\<open>send(...).await\<close> waits until there is room. A connection that was
  dialled has the identity that was dialled, which \<^verbatim>\<open>endpoint.connect\<close> guarantees; one that was
  accepted may have any.
\<close>

definition pass_answers :: "bool \<Rightarrow> (nat \<Rightarrow> TrySend) \<Rightarrow> 'pk Coordinator \<Rightarrow> 'pk Event \<Rightarrow> bool" where
  "pass_answers alive ans s e \<longleftrightarrow>
     (\<forall>c as. process (core s) e = Some (c, as) \<longrightarrow> answers alive ans (s\<lparr>core := c\<rparr>) as)"

abbreviation honest_pass :: "(nat \<Rightarrow> TrySend) \<Rightarrow> 'pk Coordinator \<Rightarrow> 'pk Event \<Rightarrow> bool" where
  "honest_pass \<equiv> pass_answers True"

definition push_answer :: "'pk Iroh \<Rightarrow> 'pk CoreAction \<Rightarrow> TrySend" where
  "push_answer s a =
     (case a of
        CoreAction.SendPacketTo _ k \<Rightarrow>
          (case state_table s k of
             Some (Connected t conn ch) \<Rightarrow>
               if tasks s t = Some (SessionTask conn ch)
               then try_send CHANNEL_CAPACITY (case channels s ch of Some q \<Rightarrow> q | None \<Rightarrow> [])
               else Closed
           | _ \<Rightarrow> Sent)
      | _ \<Rightarrow> Sent)"

definition inbox_room :: "'pk Node \<Rightarrow> bool" where
  "inbox_room n \<longleftrightarrow> length (inbox n) < CHANNEL_CAPACITY"

fun session_answers :: "'pk Node \<Rightarrow> 'ce session_input \<Rightarrow> bool" where
  "session_answers n (ReadDatagram r answer) \<longleftrightarrow>
     (case r of Inr _ \<Rightarrow> answer = try_send INTERMOD_CHANNEL_CAPACITY (to_coord (mgr n)) | Inl _ \<Rightarrow> inbox_room n)"
| "session_answers n (RecvFromManager p r) \<longleftrightarrow> (p \<noteq> None \<and> r = Some OtherDatagramError \<longrightarrow> inbox_room n)"

inductive node_step :: "'pk::linorder Node \<Rightarrow> 'pk node_label \<Rightarrow> 'pk Node \<Rightarrow> bool" where
  coord_iroh: "pending n = [] \<Longrightarrow> to_coord (mgr n) = ev # q \<Longrightarrow>
     honest_pass ans (coord n) (map_iroh_event_to_core_event ev) \<Longrightarrow>
     coord_run_pass ans (coord n) (RecvIroh (Some ev)) = Some r \<Longrightarrow>
     put_coord (n\<lparr>mgr := (mgr n)\<lparr>to_coord := q\<rparr>\<rparr>) r = Some n' \<Longrightarrow>
     node_step n (CoordIroh ans) n'"
| coord_tun: "pending n = [] \<Longrightarrow> from_tun n = p # q \<Longrightarrow>
     honest_pass ans (coord n) (PacketFromTun p) \<Longrightarrow>
     coord_run_pass ans (coord n) (RecvTun (Some p)) = Some r \<Longrightarrow>
     put_coord (n\<lparr>from_tun := q\<rparr>) r = Some n' \<Longrightarrow>
     node_step n (CoordTun ans) n'"
| coord_resume: "pending n \<noteq> [] \<Longrightarrow> honest ans (coord n) (pending n) \<Longrightarrow>
     put_coord n (after_handler (handle_actions ans (coord n) (pending n))) = Some n' \<Longrightarrow>
     node_step n (CoordResume ans) n'"
| mgr_tasks: "awaiting (mgr n) = None \<Longrightarrow> inbox n = ev # q \<Longrightarrow>
     run_iteration (mgr n) (RecvTasks (Some ev)) = Some s \<Longrightarrow>
     node_step n MgrTasks (n\<lparr>mgr := s, inbox := q\<rparr>)"
| mgr_coord: "awaiting (mgr n) = None \<Longrightarrow> tx_to_iroh (coord n) = a # q \<Longrightarrow> ans = push_answer (mgr n) a \<Longrightarrow>
     run_iteration (mgr n) (RecvCoord ans (Some a)) = Some s \<Longrightarrow>
     node_step n (MgrCoord ans) (n\<lparr>mgr := s, coord := (coord n)\<lparr>tx_to_iroh := q\<rparr>\<rparr>)"
| mgr_sent: "awaiting (mgr n) \<noteq> None \<Longrightarrow> length (to_coord (mgr n)) < INTERMOD_CHANNEL_CAPACITY \<Longrightarrow>
     node_step n MgrSent (n\<lparr>mgr := complete_send True (mgr n)\<rparr>)"
| session: "tasks (mgr n) t = Some (SessionTask conn ch) \<Longrightarrow>
     (\<And>r. i = RecvFromManager None r \<Longrightarrow> \<not> open_channel (mgr n) ch) \<Longrightarrow>
     session_answers n i \<Longrightarrow> take_packet ch i (mgr n) = Some s \<Longrightarrow>
     node_step n (Session t i) (apply_session conn t i s n)"
| dialled: "tasks (mgr n) t = Some (ConnectTask k) \<Longrightarrow> remote_id conn = k \<Longrightarrow> inbox_room n \<Longrightarrow>
     node_step n (Dialled t conn)
       (n\<lparr>mgr := task_ends t (mgr n), inbox := inbox n @ [OutgoingConnection conn]\<rparr>)"
| accepted: "tasks (mgr n) t = Some AcceptTask \<Longrightarrow> inbox_room n \<Longrightarrow>
     node_step n (Accepted t conn) (n\<lparr>inbox := inbox n @ handshake_task (Inr conn :: unit + _)\<rparr>)"
| host_sends: "node_step n (HostSends p)
     (n\<lparr>from_tun := offer INTERMOD_CHANNEL_CAPACITY (from_tun n) p,
        host_sent := host_sent n @ (if try_send INTERMOD_CHANNEL_CAPACITY (from_tun n) = Sent then [p] else [])\<rparr>)"
| host_takes: "tx_to_tun (coord n) = p # q \<Longrightarrow>
     node_step n HostTakes (n\<lparr>coord := (coord n)\<lparr>tx_to_tun := q\<rparr>\<rparr>)"

definition node_initial :: "'pk::linorder Node \<Rightarrow> bool" where
  "node_initial n \<longleftrightarrow>
     (\<exists>(bind_addr :: string \<Rightarrow> unit option) (bound :: unit + 'pk) addr table iter keys port.
        iterates iter table \<and> enumerates keys (peer_set iter) \<and>
        node_start bind_addr bound addr table iter keys port = Inr n)"

abbreviation node_reachable :: "'pk::linorder Node \<Rightarrow> bool" where
  "node_reachable \<equiv> reachable node_initial node_step"

text \<open>Schedules of a node, and the nodes with no message in flight between their parts.\<close>

abbreviation node_path :: "'pk::linorder Node \<Rightarrow> 'pk node_label list \<Rightarrow> 'pk Node \<Rightarrow> bool" where
  "node_path \<equiv> schedule node_step"

lemmas node_path_step = path_step [where step = node_step]

definition calm :: "'pk Node \<Rightarrow> bool" where
  "calm n \<longleftrightarrow> to_coord (mgr n) = [] \<and> awaiting (mgr n) = None \<and> tx_to_iroh (coord n) = [] \<and>
     from_tun n = []"

section \<open>Invariant\<close>

text \<open>The peers the core believes connected.\<close>

definition core_up :: "'pk VpnCore \<Rightarrow> 'pk set" where
  "core_up c = {k. \<exists>peer. peers c k = Some peer \<and> is_connected peer}"

fun event_known :: "'pk set \<Rightarrow> (bytes \<times> 'pk) set \<Rightarrow> 'pk IrohEvent \<Rightarrow> bool" where
  "event_known A R (ConnectedToPeer k) \<longleftrightarrow> k \<in> A"
| "event_known A R (DisconnectedFromPeer k) \<longleftrightarrow> k \<in> A"
| "event_known A R (RecvPacketFrom p k) \<longleftrightarrow> (p, k) \<in> R"

text \<open>A packet may leave for a peer: it passes the checks and is one of the host's.\<close>

definition outbound :: "'pk Node \<Rightarrow> bytes \<Rightarrow> 'pk \<Rightarrow> bool" where
  "outbound n p k \<longleftrightarrow> egress_ok (core (coord n)) p k \<and> p \<in> set (host_sent n)"

fun action_routed :: "(bytes \<Rightarrow> 'pk \<Rightarrow> bool) \<Rightarrow> 'pk CoreAction \<Rightarrow> bool" where
  "action_routed ok (CoreAction.SendPacketTo p k) \<longleftrightarrow> ok p k"
| "action_routed ok (CoreAction.ConnectToPeer k) \<longleftrightarrow> False"
| "action_routed ok (CoreAction.DisconnectFromPeer k) \<longleftrightarrow> False"

text \<open>The packets that wait in the core for a connection are the host's.\<close>

definition queues_from :: "bytes set \<Rightarrow> 'pk VpnCore \<Rightarrow> bool" where
  "queues_from H c \<longleftrightarrow> (\<forall>k peer p. peers c k = Some peer \<longrightarrow> p \<in> set (packet_queue peer) \<longrightarrow> p \<in> H)"

text \<open>The packets queued for a session, attached or not, belong to its peer.\<close>

definition channels_routed :: "(bytes \<Rightarrow> 'pk \<Rightarrow> bool) \<Rightarrow> 'pk Iroh \<Rightarrow> bool" where
  "channels_routed ok s \<longleftrightarrow>
     (\<forall>t conn ch ps p. tasks s t = Some (SessionTask conn ch) \<longrightarrow> channels s ch = Some ps \<longrightarrow>
        p \<in> set ps \<longrightarrow> ok p (remote_id conn))"

definition node_inv :: "'pk::linorder Node \<Rightarrow> bool" where
  "node_inv n \<longleftrightarrow>
     core_inv (core (coord n)) \<and> mgr_inv (mgr n) \<and> pending n = [] \<and>
     dom (peers (core (coord n))) = whitelist (mgr n) \<and>
     replay (to_coord (mgr n)) (core_up (core (coord n))) = up_keys (mgr n) \<and>
     (\<forall>ev \<in> set (to_coord (mgr n)). event_known (whitelist (mgr n)) (set (arrived n)) ev) \<and>
     (\<forall>a \<in> set (tx_to_iroh (coord n)). action_routed (outbound n) a) \<and>
     (\<forall>p \<in> set (tx_to_tun (coord n)). \<exists>k. (p, k) \<in> set (arrived n) \<and> ingress_ok (core (coord n)) p k) \<and>
     set (from_tun n) \<subseteq> set (host_sent n) \<and>
     queues_from (set (host_sent n)) (core (coord n)) \<and>
     channels_routed (outbound n) (mgr n) \<and>
     (\<forall>(p, k) \<in> set (wire n). outbound n p k)"

section \<open>Notifications and the core's view\<close>

lemma replay_Nil [simp]: "replay [] A = A"
  and replay_Cons [simp]: "replay (e # es) A = replay es (note_event e A)"
  and replay_snoc [simp]: "replay (es @ [e]) A = note_event e (replay es A)"
  by (simp_all add: replay_def)

lemma replay_packets: "\<forall>e \<in> set es. \<exists>p k. e = RecvPacketFrom p k \<Longrightarrow> replay es A = A"
  by (induction es arbitrary: A) auto

lemma replay_append: "replay (es @ fs) A = replay fs (replay es A)"
  by (simp add: replay_def)

lemma core_up_event:
  assumes "core_inv c" and "event_known (dom (peers c)) R ev"
    and "process c (map_iroh_event_to_core_event ev) = Some (d, acts)"
  shows "core_up d = note_event ev (core_up c)"
proof (cases ev)
  case (ConnectedToPeer k)
  with assms show ?thesis
    by (cases rule: on_peer_connected_cases [of c k]) (auto simp: core_up_def split: if_splits)
next
  case (DisconnectedFromPeer k)
  with assms show ?thesis
    by (cases rule: on_peer_disconnected_cases [of c k]) (auto simp: core_up_def split: if_splits)
next
  case (RecvPacketFrom p k)
  with assms recv_packet_eq [of c p k] show ?thesis by auto
qed

lemma core_up_send_packet:
  assumes "core_inv c" and "process c (PacketFromTun p) = Some (d, acts)"
  shows "core_up d = core_up c"
  using assms(2) by (cases rule: send_packet_cases [OF assms(1), of p]) (auto simp: core_up_def split: if_splits)

lemma egress_config:
  assumes "core_config d = core_config c"
  shows "egress_ok d = egress_ok c" "ingress_ok d = ingress_ok c" "dom (peers d) = dom (peers c)"
  using assms by (auto simp: core_config_def egress_ok_def ingress_ok_def fun_eq_iff)

lemma action_routed_mono:
  "(\<And>p k. ok p k \<Longrightarrow> ok' p k) \<Longrightarrow> action_routed ok a \<Longrightarrow> action_routed ok' a"
  by (cases a) auto

lemma event_known_mono: "event_known A R ev \<Longrightarrow> R \<subseteq> R' \<Longrightarrow> event_known A R' ev"
  by (cases ev) auto

lemma queues_from_process:
  assumes "core_inv c" and "process c e = Some (d, acts)" and "queues_from H c"
    and "\<And>p. e = PacketFromTun p \<Longrightarrow> p \<in> H"
  shows "queues_from H d \<and> (\<forall>p k. Action.SendPacketTo p k \<in> set acts \<longrightarrow> p \<in> H)"
proof (cases e)
  case (PeerConnected k)
  with assms show ?thesis
    by (cases rule: on_peer_connected_cases [of c k]) (fastforce simp: queues_from_def split: if_splits)+
next
  case (PeerDisconnected k)
  with assms show ?thesis
    by (cases rule: on_peer_disconnected_cases [of c k]) (fastforce simp: queues_from_def split: if_splits)+
next
  case (PacketFromTun p)
  with assms show ?thesis
    by (cases rule: send_packet_cases [OF assms(1), of p])
       (fastforce simp: queues_from_def dest: buffer_packet_set split: if_splits)+
next
  case (PacketFromIroh p k)
  with assms recv_packet_eq [of c p k] show ?thesis by (auto split: if_splits)
qed

section \<open>The coordinator's passes\<close>

lemma handle_actions_no_suspend: "no_disconnect as \<Longrightarrow> handle_actions ans s as \<noteq> Suspended t bs"
  by (induction as arbitrary: ans s)
     (auto simp: no_disconnect_def Let_def split: Action.splits TrySend.splits)

lemma handle_actions_Done:
  "handle_actions ans s as = Done t \<Longrightarrow> core t = core s \<and>
   (\<forall>a \<in> set (tx_to_iroh t). a \<in> set (tx_to_iroh s) \<or> (\<exists>b \<in> set as. iroh_part b = Some a)) \<and>
   (\<forall>p \<in> set (tx_to_tun t). p \<in> set (tx_to_tun s) \<or> WriteToTun p \<in> set as)"
proof (induction as arbitrary: ans s)
  case Nil
  then show ?case by simp
next
  case (Cons a as)
  then show ?case
    by (cases a; cases "ans 0") (fastforce simp: Let_def)+
qed

lemma coord_pass_keeps:
  assumes inv: "core_inv (core s)" and ex: "expected_event (core s) e"
    and h: "handle_core_input ans s e = Some r" and go: "after_handler r = Go t as"
    and H: "queues_from H (core s)" "\<And>p. e = PacketFromTun p \<Longrightarrow> p \<in> H"
  shows "as = []" and "core_inv (core t)" and "core_config (core t) = core_config (core s)"
    and "queues_from H (core t)"
    and "\<exists>acts. process (core s) e = Some (core t, acts)"
    and "\<forall>a \<in> set (tx_to_iroh t). a \<in> set (tx_to_iroh s) \<or>
      action_routed (\<lambda>p k. egress_ok (core s) p k \<and> p \<in> H) a"
    and "\<forall>p \<in> set (tx_to_tun t). p \<in> set (tx_to_tun s) \<or> (\<exists>k. e = PacketFromIroh p k \<and> ingress_ok (core s) p k)"
proof -
  obtain c acts where c: "process (core s) e = Some (c, acts)" "core_inv c"
    using inv by (rule core.process_total)
  have nd: "no_disconnect acts" using expected_no_disconnect [OF inv ex c(1)] .
  from h c have r: "r = handle_actions ans (s\<lparr>core := c\<rparr>) acts" by (auto simp: handle_core_input_def)
  have "r \<noteq> Suspended u bs" for u bs
    unfolding r by (rule handle_actions_no_suspend [OF nd])
  with go have "r = Done t \<and> as = []" by (cases r) auto
  with r have d: "handle_actions ans (s\<lparr>core := c\<rparr>) acts = Done t" and "as = []" by auto
  note qs = queues_from_process [OF inv c(1) H]
  have routed: "action_routed (\<lambda>p k. egress_ok (core s) p k \<and> p \<in> H) a"
    if "b \<in> set acts" "iroh_part b = Some a" for a b
  proof (cases b)
  qed (use that nd process_send_packet_to [OF inv c(1)] qs in \<open>auto simp: no_disconnect_def\<close>)
  from handle_actions_Done [OF d] have t: "core t = c"
    "\<forall>a \<in> set (tx_to_iroh t). a \<in> set (tx_to_iroh s) \<or> (\<exists>b \<in> set acts. iroh_part b = Some a)"
    "\<forall>p \<in> set (tx_to_tun t). p \<in> set (tx_to_tun s) \<or> WriteToTun p \<in> set acts" by auto
  show "as = []" by fact
  show "core_inv (core t)" "core_config (core t) = core_config (core s)"
    using c t process_config [OF inv c(1)] by auto
  show "\<exists>acts. process (core s) e = Some (core t, acts)" using c t by blast
  show "queues_from H (core t)" using qs t by simp
  show "\<forall>a \<in> set (tx_to_iroh t). a \<in> set (tx_to_iroh s) \<or>
      action_routed (\<lambda>p k. egress_ok (core s) p k \<and> p \<in> H) a"
    using t(2) routed by blast
  show "\<forall>p \<in> set (tx_to_tun t). p \<in> set (tx_to_tun s) \<or> (\<exists>k. e = PacketFromIroh p k \<and> ingress_ok (core s) p k)"
    using t(3) process_write_to_tun [OF inv c(1)] by blast
qed

section \<open>Packets queued for sessions\<close>

lemma channels_routed_mono:
  assumes "channels_routed ok s"
    and "\<And>t conn ch. tasks s' t = Some (SessionTask conn ch) \<Longrightarrow> tasks s t = Some (SessionTask conn ch)"
    and "channels s' = channels s"
  shows "channels_routed ok s'"
  using assms unfolding channels_routed_def by metis

lemma channels_routed_start:
  assumes "channels_routed ok s" and "mgr_inv s"
  shows "channels_routed ok (start_session conn s)"
proof -
  have "ch \<noteq> next_id s" if "tasks s t = Some (SessionTask d ch)" for t d ch
    using assms(2) that by (force simp: mgr_inv_def task_inv_def)
  with assms(1) show ?thesis
    by (auto simp: channels_routed_def start_session_state split: if_splits)
qed

lemma channels_routed_push:
  assumes "channels_routed ok s" and "mgr_inv s" and "state_table s k = Some (Connected t d ch)"
    and "ok p k"
  shows "channels_routed ok (push_packet ch p ans s)"
proof -
  have "remote_id d = k" using mgr_inv_entry [OF assms(2,3)] by (simp add: entry_inv_def)
  moreover have "d' = d" if "tasks s t' = Some (SessionTask d' ch)" for t' d'
    using assms(2,3) that by (fastforce simp: mgr_inv_def task_inv_def)
  ultimately show ?thesis
    using assms(1,4)
    by (cases ans; cases "channels s ch") (auto simp: channels_routed_def push_packet_def split: if_splits)
qed

lemma channels_routed_init_new:
  assumes "channels_routed ok s"
  shows "channels_routed ok (init_new_connection k s)"
  by (rule channels_routed_mono [OF assms])
     (auto simp: init_new_connection_def spawn_def set_state_def split: if_splits)

lemma channels_routed_frame [simp]:
  "channels_routed ok (s\<lparr>to_coord := q\<rparr>) = channels_routed ok s"
  "channels_routed ok (s\<lparr>awaiting := a\<rparr>) = channels_routed ok s"
  "channels_routed ok (close conn code reason s) = channels_routed ok s"
  "channels_routed ok (send_await ev k s) = channels_routed ok s"
  "channels_routed ok (set_state key st s) = channels_routed ok s"
  by (simp_all add: channels_routed_def mgr_simps)

lemma channels_routed_abort: "channels_routed ok s \<Longrightarrow> channels_routed ok (abort t s)"
  by (erule channels_routed_mono) (auto simp: abort_def split: if_splits)

lemma channels_routed_task_ends: "channels_routed ok s \<Longrightarrow> channels_routed ok (task_ends t s)"
  by (erule channels_routed_mono) (auto simp: task_ends_def split: if_splits)

lemma channels_routed_conn_event:
  assumes "channels_routed ok s" and "handle_conn_event s ev = Inr t"
  shows "channels_routed ok t"
  using assms
  by (cases ev) (auto simp: handle_outgoing_def handle_incoming_def handle_disconnected_def
      init_ready_connection_def channels_routed_abort split: option.splits ConnectionState.splits)

lemma channels_routed_core_event:
  assumes "channels_routed ok s" and "mgr_inv s" and "action_routed ok a"
  shows "channels_routed ok (handle_core_event s ans a)"
  using assms
  by (cases a) (auto intro: channels_routed_push split: option.splits ConnectionState.splits)

lemma channels_routed_complete_send:
  assumes "channels_routed ok s" and "mgr_inv s"
  shows "channels_routed ok (complete_send d s)"
proof (cases "awaiting s")
  case None
  with assms show ?thesis by (simp add: complete_send_def)
next
  case (Some a)
  obtain ev k where a: "a = (ev, k)" by (cases a)
  let ?s = "s\<lparr>awaiting := None, to_coord := to_coord s @ (if d then [ev] else [])\<rparr>"
  have "mgr_inv ?s" using assms(2) by (rule mgr_inv_resumable)
  with assms(1) have "channels_routed ok (resume k ?s)"
    by (cases k) (auto intro!: channels_routed_start channels_routed_init_new)
  with Some a show ?thesis by (simp add: complete_send_def)
qed

lemma channels_routed_take:
  assumes "channels_routed ok s" and "take_packet ch i s = Some s'"
  shows "channels_routed ok s'"
  using assms
  by (auto simp: take_packet_def channels_routed_def split: session_input.splits option.splits
      list.splits if_splits)

lemma take_packet_frame:
  assumes "take_packet ch i s = Some s'"
  shows "state_table s' = state_table s" "to_coord s' = to_coord s" "whitelist s' = whitelist s"
    "awaiting s' = awaiting s" "tasks s' = tasks s" "endpoint_id s' = endpoint_id s"
  using assms
  by (auto simp: take_packet_def split: session_input.splits option.splits list.splits if_splits)

lemma mgr_inv_take:
  assumes "mgr_inv s" and "take_packet ch i s = Some s'"
  shows "mgr_inv s'"
proof -
  have *: "mgr_inv (s\<lparr>channels := (channels s)(ch \<mapsto> q)\<rparr>)" for q
    using assms(1)
    by (auto simp: mgr_inv_def await_inv_def task_inv_def entry_inv_def split: ConnectionState.splits)
  show ?thesis
    using assms *
    by (auto simp: take_packet_def split: session_input.splits option.splits list.splits if_splits)
qed

lemma take_packet_queued:
  "take_packet ch (RecvFromManager (Some p) r) s = Some s' \<Longrightarrow> \<exists>qs. channels s ch = Some (p # qs)"
  by (auto simp: take_packet_def split: option.splits list.splits if_splits)

section \<open>Every step keeps the invariant\<close>

lemma node_inv_coord:
  assumes inv: "node_inv n" and ex: "expected_event (core (coord n)) e"
    and h: "handle_core_input ans (coord n) e = Some r" and put: "put_coord m (after_handler r) = Some n'"
    and m: "mgr m = (mgr n)\<lparr>to_coord := q\<rparr>" "wire m = wire n" "arrived m = arrived n"
      "host_sent m = host_sent n" "set (from_tun m) \<subseteq> set (host_sent n)"
    and q: "set q \<subseteq> set (to_coord (mgr n))"
    and up: "\<And>d acts. process (core (coord n)) e = Some (d, acts) \<Longrightarrow> replay q (core_up d) = up_keys (mgr n)"
    and tun: "\<And>p. e = PacketFromTun p \<Longrightarrow> p \<in> set (host_sent n)"
    and src: "\<And>p k. e = PacketFromIroh p k \<Longrightarrow> (p, k) \<in> set (arrived n)"
  shows "node_inv n'"
proof -
  from put obtain c as where go: "after_handler r = Go c as" and n': "n' = m\<lparr>coord := c, pending := as\<rparr>"
    by (auto simp: put_coord_def split: coord_pass.splits)
  have ci: "core_inv (core (coord n))" and qf: "queues_from (set (host_sent n)) (core (coord n))"
    using inv by (simp_all add: node_inv_def)
  note k = coord_pass_keeps [OF ci ex h go qf tun]
  note cfg = egress_config [OF k(3)]
  have ob: "outbound n' = outbound n" by (simp add: fun_eq_iff outbound_def n' m cfg)
  obtain acts where "process (core (coord n)) e = Some (core c, acts)" using k(5) by blast
  from up [OF this] have "replay q (core_up (core c)) = up_keys (mgr n)" .
  moreover have "\<forall>p \<in> set (tx_to_tun c). \<exists>k. (p, k) \<in> set (arrived n) \<and> ingress_ok (core (coord n)) p k"
    using k(7) src inv by (fastforce simp: node_inv_def)
  moreover have "\<forall>a \<in> set (tx_to_iroh c). action_routed (outbound n) a"
    using k(6) inv by (auto simp: node_inv_def outbound_def [abs_def])
  moreover have "up_keys (mgr n') = up_keys (mgr n)" by (simp add: n' m up_keys_def)
  ultimately show ?thesis
    using inv k(1,2,4) q m(5) unfolding node_inv_def ob
    by (auto simp: n' m cfg mgr_inv_to_coord)
qed

lemma ingress_known:
  assumes "node_inv n" and "ingress_ok (core (coord n)) p k"
  shows "k \<in> whitelist (mgr n)"
proof -
  from assms(2) have "k \<in> ran (route_table (core (coord n)))"
    unfolding ingress_ok_def by (blast intro: ranI)
  with assms(1) show ?thesis unfolding node_inv_def core_inv_def by blast
qed

lemma node_inv_mgr_update:
  assumes "node_inv n" and "mgr_inv s" and "channels_routed (outbound n) s"
    and "whitelist s = whitelist (mgr n)" and "up_keys s = up_keys (mgr n)"
    and "to_coord s = to_coord (mgr n) @ new"
    and new: "\<forall>e \<in> set new. \<exists>p k. e = RecvPacketFrom p k \<and> (p, k) \<in> set r"
    and "\<forall>(p, k) \<in> set w. outbound n p k"
  shows "node_inv (n\<lparr>mgr := s, inbox := q, wire := wire n @ w, arrived := arrived n @ r\<rparr>)"
proof -
  let ?n = "n\<lparr>mgr := s, inbox := q, wire := wire n @ w, arrived := arrived n @ r\<rparr>"
  have ob: "outbound ?n = outbound n" by (simp add: fun_eq_iff outbound_def)
  have "\<forall>e \<in> set new. event_known (whitelist (mgr n)) (set (arrived ?n)) e" using new by fastforce
  moreover have "\<forall>e \<in> set (to_coord (mgr n)). event_known (whitelist (mgr n)) (set (arrived ?n)) e"
    using assms(1) by (auto simp: node_inv_def intro: event_known_mono)
  moreover have "replay new A = A" for A by (rule replay_packets) (use new in blast)
  ultimately show ?thesis
    using assms(1-6,8) unfolding node_inv_def ob by (auto simp: replay_append)
qed

lemma node_inv_coord_iroh:
  assumes inv: "node_inv n" and q: "to_coord (mgr n) = ev # q"
    and h: "coord_run_pass ans (coord n) (RecvIroh (Some ev)) = Some r"
    and put: "put_coord (n\<lparr>mgr := (mgr n)\<lparr>to_coord := q\<rparr>\<rparr>) r = Some n'"
  shows "node_inv n'"
proof -
  let ?e = "map_iroh_event_to_core_event ev"
  obtain hr where hr: "handle_core_input ans (coord n) ?e = Some hr" "r = after_handler hr"
    using h by (auto simp: handle_iroh_event_def)
  have known: "event_known (dom (peers (core (coord n)))) (set (arrived n)) ev" and ci: "core_inv (core (coord n))"
    using inv q by (auto simp: node_inv_def)
  then have ex: "expected_event (core (coord n)) ?e" by (cases ev) (auto simp: expected_event_def)
  have up: "replay q (core_up d) = up_keys (mgr n)" if "process (core (coord n)) ?e = Some (d, acts)" for d acts
    using core_up_event [OF ci known that] inv q by (simp add: node_inv_def)
  show ?thesis
  proof (rule node_inv_coord [OF inv ex hr(1)])
    show "put_coord (n\<lparr>mgr := (mgr n)\<lparr>to_coord := q\<rparr>\<rparr>) (after_handler hr) = Some n'" using put hr by simp
    show "(p, k) \<in> set (arrived n)" if "?e = PacketFromIroh p k" for p k
      using known that by (cases ev) auto
    show "p \<in> set (host_sent n)" if "?e = PacketFromTun p" for p
      using that by (cases ev) auto
  qed (use q up inv in \<open>auto simp: node_inv_def\<close>)
qed

lemma node_inv_coord_tun:
  assumes inv: "node_inv n" and q: "from_tun n = p # q"
    and h: "coord_run_pass ans (coord n) (RecvTun (Some p)) = Some r"
    and put: "put_coord (n\<lparr>from_tun := q\<rparr>) r = Some n'"
  shows "node_inv n'"
proof -
  obtain hr where hr: "handle_core_input ans (coord n) (PacketFromTun p) = Some hr" "r = after_handler hr"
    using h by (auto simp: handle_packet_from_tun_def)
  have ci: "core_inv (core (coord n))" using inv by (simp add: node_inv_def)
  have ex: "expected_event (core (coord n)) (PacketFromTun p)" by (simp add: expected_event_def)
  show ?thesis
  proof (rule node_inv_coord [OF inv ex hr(1), where q = "to_coord (mgr n)"])
    show "put_coord (n\<lparr>from_tun := q\<rparr>) (after_handler hr) = Some n'" using put hr by simp
    show "replay (to_coord (mgr n)) (core_up d) = up_keys (mgr n)"
      if "process (core (coord n)) (PacketFromTun p) = Some (d, acts)" for d acts
      using core_up_send_packet [OF ci that] inv by (simp add: node_inv_def)
  qed (use inv q in \<open>auto simp: node_inv_def\<close>)
qed

lemma node_inv_mgr_tasks:
  assumes "node_inv n" and "run_iteration (mgr n) (RecvTasks (Some ev)) = Some s"
  shows "node_inv (n\<lparr>mgr := s, inbox := q\<rparr>)"
proof -
  have h: "handle_conn_event (mgr n) ev = Inr s" using assms(2) by (auto split: sum.splits)
  note t = handle_conn_event_table [OF h]
  have "mgr_inv s" "channels_routed (outbound n) s"
    using assms(1) mgr_inv_conn_event [OF _ h] channels_routed_conn_event [OF _ h]
    by (simp_all add: node_inv_def)
  from node_inv_mgr_update [OF assms(1) this t(3) up_keys_table [OF t(1)], of "[]" "[]" "[]" q] t(2)
  show ?thesis by simp
qed

lemma node_inv_mgr_coord:
  assumes "node_inv n" and "awaiting (mgr n) = None" and "tx_to_iroh (coord n) = a # q"
    and "run_iteration (mgr n) (RecvCoord ans (Some a)) = Some s"
  shows "node_inv (n\<lparr>mgr := s, coord := (coord n)\<lparr>tx_to_iroh := q\<rparr>\<rparr>)"
proof -
  have routed: "action_routed (outbound n) a" using assms(1,3) by (simp add: node_inv_def)
  then have "known_target (mgr n) a" by (cases a) (auto simp: known_target_def)
  with assms have "mgr_inv s" by (auto simp: node_inv_def intro: mgr_inv_core_event)
  moreover have "channels_routed (outbound n) s"
    using assms routed by (auto simp: node_inv_def intro: channels_routed_core_event)
  moreover have "outbound (n\<lparr>mgr := s, coord := (coord n)\<lparr>tx_to_iroh := q\<rparr>\<rparr>) = outbound n"
    by (simp add: fun_eq_iff outbound_def)
  ultimately show ?thesis
    using assms by (auto simp: node_inv_def handle_core_event_keeps)
qed

lemma node_inv_mgr_sent:
  assumes inv: "node_inv n" and wait: "awaiting (mgr n) \<noteq> None"
  shows "node_inv (n\<lparr>mgr := complete_send True (mgr n)\<rparr>)"
proof -
  obtain ev k where a: "awaiting (mgr n) = Some (ev, k)" using wait by auto
  have mi: "mgr_inv (mgr n)" using inv by (simp add: node_inv_def)
  note c = complete_send_notifies [OF mi a, of True]
  from mi a have "cont_ok (state_table (mgr n)) ev k" by (simp add: mgr_inv_def await_inv_def)
  then have "event_known (whitelist (mgr n)) (set (arrived n)) ev"
    using mgr_inv_dom [OF mi] by (cases k) (auto simp: up_in_def)
  moreover have "outbound (n\<lparr>mgr := complete_send True (mgr n)\<rparr>) = outbound n"
    by (simp add: fun_eq_iff outbound_def)
  ultimately show ?thesis
    using inv c by (auto simp: node_inv_def mgr_inv_complete_send channels_routed_complete_send)
qed

lemma node_inv_task_ends:
  assumes "node_inv n"
  shows "node_inv (n\<lparr>mgr := task_ends t (mgr n), inbox := q\<rparr>)"
proof -
  have "mgr_inv (task_ends t (mgr n))" "channels_routed (outbound n) (task_ends t (mgr n))"
    using assms mgr_inv_task_ends channels_routed_task_ends by (auto simp: node_inv_def)
  from node_inv_mgr_update [OF assms this, of "[]" "[]" "[]" q] show ?thesis
    by (simp add: up_keys_def task_ends_def)
qed

lemma session_wire_routed:
  assumes "channels_routed ok s" and "tasks s t = Some (SessionTask conn ch)"
    and "take_packet ch i s = Some s'" and "p \<in> set (List.map_filter wire_part (fst (session_pass conn i)))"
  shows "ok p (remote_id conn)"
proof -
  from assms(4) have "sent_packet i = Some p" by (auto simp: session_pass_parts split: option.splits)
  then obtain r where "i = RecvFromManager (Some p) r" by (cases i) (auto split: if_splits)
  with assms(3) take_packet_queued obtain qs where "channels s ch = Some (p # qs)" by blast
  with assms(1,2) show ?thesis by (force simp: channels_routed_def)
qed

lemma node_inv_session:
  assumes inv: "node_inv n" and task: "tasks (mgr n) t = Some (SessionTask conn ch)"
    and take: "take_packet ch i (mgr n) = Some s"
  shows "node_inv (apply_session conn t i s n)"
proof -
  obtain effs go where p: "session_pass conn i = (effs, go)" by (cases "session_pass conn i")
  let ?new = "List.map_filter coord_part effs" and ?w = "map (\<lambda>p. (p, remote_id conn)) (List.map_filter wire_part effs)"
  let ?r = "case i of ReadDatagram (Inr p) _ \<Rightarrow> [(p, remote_id conn)] | _ \<Rightarrow> []"
  let ?s1 = "s\<lparr>to_coord := to_coord s @ ?new\<rparr>"
  define s2 where "s2 = (if go then ?s1 else task_ends t ?s1)"
  note f = take_packet_frame [OF take]
  have parts: "mgr_inv (mgr n)" "channels_routed (outbound n) (mgr n)"
    using inv by (simp_all add: node_inv_def)
  have "mgr_inv ?s1" using mgr_inv_take [OF parts(1) take] by (rule mgr_inv_to_coord)
  then have "mgr_inv s2" by (simp add: s2_def mgr_inv_task_ends)
  moreover have "channels_routed (outbound n) s2"
    using channels_routed_take [OF parts(2) take] by (simp add: s2_def channels_routed_task_ends)
  moreover have "whitelist s2 = whitelist (mgr n)" "up_keys s2 = up_keys (mgr n)"
    "to_coord s2 = to_coord (mgr n) @ ?new"
    using f by (simp_all add: s2_def task_ends_def up_keys_def)
  moreover have "\<forall>e \<in> set ?new. \<exists>p k. e = RecvPacketFrom p k \<and> (p, k) \<in> set ?r"
    using p by (cases "(conn, i)" rule: session_pass.cases) (auto simp: map_filter_simps split: if_splits)
  moreover have "\<forall>(p, k) \<in> set ?w. outbound n p k"
    using session_wire_routed [OF parts(2) task take] by (auto simp: p)
  ultimately have "node_inv (n\<lparr>mgr := s2, inbox := inbox n @ List.map_filter manager_part effs,
      wire := wire n @ ?w, arrived := arrived n @ ?r\<rparr>)"
    by (rule node_inv_mgr_update [OF inv])
  then show ?thesis by (simp add: apply_session_def p s2_def Let_def)
qed

lemma node_inv_host_sends:
  assumes "node_inv n"
  shows "node_inv (n\<lparr>from_tun := offer c (from_tun n) p,
    host_sent := host_sent n @ (if try_send c (from_tun n) = Sent then [p] else [])\<rparr>)"
proof (cases "try_send c (from_tun n) = Sent")
  case False
  with assms show ?thesis by (simp add: offer_def)
next
  case True
  let ?n = "n\<lparr>from_tun := from_tun n @ [p], host_sent := host_sent n @ [p]\<rparr>"
  have ob: "outbound ?n p k" if "outbound n p k" for p k using that by (simp add: outbound_def)
  have "\<forall>a \<in> set (tx_to_iroh (coord n)). action_routed (outbound ?n) a"
    using assms ob by (auto simp: node_inv_def intro: action_routed_mono [of "outbound n"])
  moreover have "channels_routed (outbound ?n) (mgr n)"
    using assms ob unfolding node_inv_def channels_routed_def by blast
  moreover have "queues_from (set (host_sent ?n)) (core (coord n))"
    using assms by (fastforce simp: node_inv_def queues_from_def)
  ultimately have "node_inv ?n" using assms ob by (auto simp: node_inv_def)
  with True show ?thesis by (simp add: offer_def)
qed

lemma node_step_inv:
  assumes "node_step n l n'" and "node_inv n"
  shows "node_inv n'"
  using assms
proof (induction rule: node_step.induct)
  case (coord_iroh n ev q ans r n')
  then show ?case by (blast intro: node_inv_coord_iroh)
next
  case (coord_tun n p q ans r n')
  then show ?case by (blast intro: node_inv_coord_tun)
next
  case (coord_resume n ans n')
  then show ?case by (simp add: node_inv_def)
next
  case (mgr_tasks n ev q s)
  then show ?case by (blast intro: node_inv_mgr_tasks)
next
  case (mgr_coord n a q ans s)
  then show ?case by (blast intro: node_inv_mgr_coord)
next
  case (mgr_sent n)
  then show ?case by (blast intro: node_inv_mgr_sent)
next
  case (session n t conn ch i s)
  then show ?case by (blast intro: node_inv_session)
next
  case (dialled n t k conn)
  then show ?case by (blast intro: node_inv_task_ends)
next
  case (host_sends n p)
  then show ?case by (rule_tac node_inv_host_sends)
next
  case (host_takes n p q)
  moreover have "outbound (n\<lparr>coord := (coord n)\<lparr>tx_to_tun := q\<rparr>\<rparr>) = outbound n"
    by (simp add: fun_eq_iff outbound_def)
  ultimately show ?case by (auto simp: node_inv_def)
qed (auto simp: node_inv_def outbound_def [abs_def])

text \<open>What no step changes, and the histories that only grow.\<close>

lemma node_inv_iroh_event:
  assumes "node_inv n" and "ev \<in> set (to_coord (mgr n))"
  shows "expected_event (core (coord n)) (map_iroh_event_to_core_event ev)"
proof -
  have "event_known (dom (peers (core (coord n)))) (set (arrived n)) ev"
    using assms by (auto simp: node_inv_def)
  then show ?thesis by (cases ev) (auto simp: expected_event_def)
qed

lemma coord_step_config:
  assumes "node_inv n" and "expected_event (core (coord n)) e" and "handle_core_input ans (coord n) e = Some r"
    and "put_coord m (after_handler r) = Some n'"
  shows "core_config (core (coord n')) = core_config (core (coord n))" "mgr n' = mgr m" "arrived n' = arrived m"
    "wire n' = wire m" "host_sent n' = host_sent m"
proof -
  from assms(4) obtain c as where go: "after_handler r = Go c as" and n': "n' = m\<lparr>coord := c, pending := as\<rparr>"
    by (auto simp: put_coord_def split: coord_pass.splits)
  have "core_inv (core (coord n))" using assms(1) by (simp add: node_inv_def)
  from coord_pass_keeps(3) [OF this assms(2,3) go, of UNIV] show "core_config (core (coord n')) = core_config (core (coord n))"
    by (simp add: n' queues_from_def)
qed (use assms(4) in \<open>auto simp: put_coord_def split: coord_pass.splits\<close>)

definition node_grows :: "'pk Node \<Rightarrow> 'pk Node \<Rightarrow> bool" where
  "node_grows n n' \<longleftrightarrow> core_config (core (coord n')) = core_config (core (coord n)) \<and>
     endpoint_id (mgr n') = endpoint_id (mgr n) \<and> set (arrived n) \<subseteq> set (arrived n') \<and>
     set (wire n) \<subseteq> set (wire n') \<and> set (host_sent n) \<subseteq> set (host_sent n')"

lemma node_step_grows:
  assumes "node_step n l n'" and "node_inv n"
  shows "node_grows n n'"
  using assms
proof (induction rule: node_step.induct)
  case (coord_iroh n ev q ans r n')
  have "expected_event (core (coord n)) (map_iroh_event_to_core_event ev)"
    using coord_iroh by (intro node_inv_iroh_event) simp_all
  with coord_iroh coord_step_config [of n _ ans _ "n\<lparr>mgr := (mgr n)\<lparr>to_coord := q\<rparr>\<rparr>" n'] show ?case
    by (auto simp: handle_iroh_event_def node_grows_def)
next
  case (coord_tun n p q ans r n')
  with coord_step_config [of n "PacketFromTun p" ans _ "n\<lparr>from_tun := q\<rparr>" n'] show ?case
    by (auto simp: handle_packet_from_tun_def node_grows_def expected_event_def)
next
  case (coord_resume n ans n')
  then show ?case by (simp add: node_inv_def)
next
  case (mgr_tasks n ev q s)
  then have "handle_conn_event (mgr n) ev = Inr s" by (auto split: sum.splits)
  from handle_conn_event_table(4) [OF this] show ?case by (simp add: node_grows_def)
next
  case (mgr_coord n a q ans s)
  then show ?case by (auto simp: node_grows_def handle_core_event_keeps)
next
  case (mgr_sent n)
  then obtain ev k where a: "awaiting (mgr n) = Some (ev, k)" by auto
  have "mgr_inv (mgr n)" using mgr_sent by (simp add: node_inv_def)
  from complete_send_notifies(5) [OF this a] show ?case by (simp add: node_grows_def)
next
  case (session n t conn ch i s)
  then show ?case
    using take_packet_frame(6) [of ch i "mgr n" s]
    by (auto simp: node_grows_def apply_session_def Let_def task_ends_def split: prod.splits)
qed (auto simp: node_grows_def task_ends_def)

section \<open>Start-up\<close>

lemma peer_set_eq: "peer_set iter = snd ` set iter"
proof -
  have "fold (\<lambda>(_, k) A. insert k A) xs A = A \<union> snd ` set xs" for xs :: "(Ipv4Addr \<times> 'a) list" and A
    by (induction xs arbitrary: A) auto
  then show ?thesis by (simp add: peer_set_def)
qed

lemma up_keys_fold_init:
  "up_keys (fold init_peer ks s) \<subseteq> up_keys s"
  by (induction ks arbitrary: s) (force simp: init_peer_eq up_keys_init_new_connection)+

lemma up_keys_init: "up_keys (init ks s) \<subseteq> up_keys s"
  using up_keys_fold_init [of ks s] by (simp add: init_def spawn_def) (simp add: up_keys_def)

lemma channels_routed_init:
  assumes "tasks s = Map.empty"
  shows "channels_routed ok (init ks s)"
proof -
  have "channels_routed ok s" using assms by (simp add: channels_routed_def)
  then have "channels_routed ok (fold init_peer ks s)"
    by (induction ks arbitrary: s) (simp_all add: init_peer_eq channels_routed_init_new)
  then show ?thesis
    unfolding init_def by (rule channels_routed_mono) (auto simp: spawn_def split: if_splits)
qed

lemma node_start_inv:
  assumes it: "iterates iter table" and en: "enumerates keys (peer_set iter)"
    and start: "node_start ba bound addr table iter keys port = Inr n"
  shows "node_inv n"
proof -
  let ?c = "VpnCore_new addr table iter (unat final_mtu)"
  obtain s where s: "Iroh_new ba bound (peer_set iter) keys port = Inr s"
    and n: "n = \<lparr>coord = Coordinator_new ?c, pending = [], mgr = init keys s, inbox = [],
               from_tun = [], wire = [], arrived = [], host_sent = []\<rparr>"
    using start by (auto simp: node_start_def Let_def split: sum.splits)
  note st = Iroh_new_state [OF s en]
  have ci: "core_inv ?c" using it by (intro VpnCore_new_core_inv) (simp add: iterates_values)
  have mi: "mgr_inv (init keys s)"
    using Iroh_new_inv [OF s en] st en by (intro mgr_inv_init) (auto simp: enumerates_def)
  have "up_keys s = {}" using st(3) by (auto simp: up_keys_def up_in_def)
  then have up: "up_keys (init keys s) = {}" using up_keys_init [of keys s] by simp
  have "core_up ?c = {}" "queues_from {} ?c"
    by (auto simp: core_up_def queues_from_def dest!: VpnCore_new_peer_cases)
  with ci mi up st(2,5) channels_routed_init [OF st(6)] show ?thesis
    by (simp add: node_inv_def n Coordinator_new_def VpnCore_new_dom peer_set_eq)
qed

lemma node_start_queues:
  assumes "node_start ba bound addr table iter keys port = Inr n"
  shows "inbox n = []" "from_tun n = []" "host_sent n = []" "wire n = []" "arrived n = []"
    "tx_to_tun (coord n) = []" "tx_to_iroh (coord n) = []"
  using assms
  by (cases "Iroh_new ba bound (peer_set iter) keys port"; auto simp: node_start_def Coordinator_new_def)+

lemma node_initial_queues:
  fixes n :: "'a::linorder Node"
  assumes "node_initial n"
  shows "inbox n = []" "from_tun n = []" "host_sent n = []" "wire n = []" "arrived n = []"
    "tx_to_tun (coord n) = []" "tx_to_iroh (coord n) = []"
proof -
  from assms obtain ba :: "string \<Rightarrow> unit option" and bound :: "unit + 'a" and addr table iter keys port
    where "node_start ba bound addr table iter keys port = Inr n"
    unfolding node_initial_def by (elim exE conjE)
  from node_start_queues [OF this] show "inbox n = []" "from_tun n = []" "host_sent n = []" "wire n = []" "arrived n = []"
    "tx_to_tun (coord n) = []" "tx_to_iroh (coord n) = []" by simp_all
qed

interpretation node: inductive_invariant node_initial node_step node_inv
proof
  show "node_inv n" if "node_initial n" for n :: "'a Node"
    using that by (auto simp: node_initial_def intro: node_start_inv)
  show "node_inv n'" if "node_inv n" and "node_step n l n'" for n n' :: "'a Node" and l
    using that node_step_inv by blast
qed

lemmas node_invD = node.inv_reachable [unfolded node_inv_def]

end
