(* ===== verification/Mesh_Bounds.thy ===== *)
theory Mesh_Bounds
  imports Mesh_Node
begin

text \<open>
  Resources and progress of a node. Every queue between its parts stays within the capacity of
  its channel, so the memory of a node is bounded whatever the network and the host do; and a
  manager that waits for room in the channel to the coordinator is never waited for in turn, so
  the two cannot block each other.
\<close>

section \<open>Bounds\<close>

definition node_bounded :: "'pk Node \<Rightarrow> bool" where
  "node_bounded n \<longleftrightarrow>
     within_capacity (coord n) \<and>
     length (to_coord (mgr n)) \<le> INTERMOD_CHANNEL_CAPACITY \<and>
     length (from_tun n) \<le> INTERMOD_CHANNEL_CAPACITY \<and>
     length (inbox n) \<le> CHANNEL_CAPACITY \<and>
     (\<forall>ch q. channels (mgr n) ch = Some q \<longrightarrow> length q \<le> CHANNEL_CAPACITY)"

abbreviation channels_bounded :: "'pk Iroh \<Rightarrow> bool" where
  "channels_bounded s \<equiv> \<forall>ch q. channels s ch = Some q \<longrightarrow> length q \<le> CHANNEL_CAPACITY"

lemma channels_frame [simp]:
  "channels (set_state k st s) = channels s" "channels (abort t s) = channels s"
  "channels (task_ends t s) = channels s" "channels (close c d r s) = channels s"
  "channels (send_await ev cont s) = channels s" "channels (init_new_connection k s) = channels s"
  by (simp_all add: mgr_simps init_new_connection_def)

lemma channels_conn_event: "handle_conn_event s ev = Inr t \<Longrightarrow> channels t = channels s"
  by (cases ev) (auto simp: handle_outgoing_def handle_incoming_def handle_disconnected_def
      init_ready_connection_def mgr_simps split: option.splits ConnectionState.splits)

lemma channels_bounded_push:
  assumes "channels_bounded s"
    and "ans = Sent \<longrightarrow> length (case channels s ch of Some q \<Rightarrow> q | None \<Rightarrow> []) < CHANNEL_CAPACITY"
  shows "channels_bounded (push_packet ch p ans s)"
  using assms by (cases ans; cases "channels s ch") (auto simp: push_packet_def Suc_le_eq)

lemma channels_bounded_core_event:
  assumes "channels_bounded s"
  shows "channels_bounded (handle_core_event s (push_answer s a) a)"
proof (cases a)
  case (SendPacketTo p k)
  show ?thesis
  proof (cases "\<exists>t c ch. state_table s k = Some (Connected t c ch)")
    case True
    then obtain t c ch where st: "state_table s k = Some (Connected t c ch)" by blast
    have "push_answer s a = Sent \<longrightarrow> length (case channels s ch of Some q \<Rightarrow> q | None \<Rightarrow> []) < CHANNEL_CAPACITY"
      using SendPacketTo st by (simp add: push_answer_def try_send_def)
    from channels_bounded_push [OF assms this] show ?thesis using SendPacketTo st by simp
  next
    case False
    with assms SendPacketTo show ?thesis by (auto split: option.splits ConnectionState.splits)
  qed
qed (use assms in \<open>auto split: option.splits ConnectionState.splits\<close>)

lemma channels_bounded_complete_send:
  assumes "channels_bounded s"
  shows "channels_bounded (complete_send d s)"
proof (cases "awaiting s")
  case (Some a)
  obtain ev k where "a = (ev, k)" by (cases a)
  with assms Some show ?thesis
    by (cases k) (auto simp: complete_send_def start_session_def mgr_simps split: if_splits)
qed (use assms in \<open>simp add: complete_send_def\<close>)

lemma channels_bounded_take:
  assumes "channels_bounded s" and "take_packet ch i s = Some t"
  shows "channels_bounded t"
proof -
  have "length q \<le> CHANNEL_CAPACITY" if "channels s ch = Some (p # q)" for p q
    using assms(1) that by fastforce
  with assms show ?thesis
    by (auto simp: take_packet_def split: session_input.splits option.splits list.splits if_splits)
qed

lemma bounded_coord:
  assumes inv: "node_inv n" and b: "node_bounded n" and hp: "honest_pass ans (coord n) e"
    and ex: "expected_event (core (coord n)) e"
    and h: "handle_core_input ans (coord n) e = Some r" and put: "put_coord m (after_handler r) = Some n'"
  shows "within_capacity (coord n')" "mgr n' = mgr m" "from_tun n' = from_tun m" "inbox n' = inbox m"
proof -
  from put obtain c as where go: "after_handler r = Go c as" and n': "n' = m\<lparr>coord := c, pending := as\<rparr>"
    by (auto simp: put_coord_def split: coord_pass.splits)
  have ci: "core_inv (core (coord n))" using inv by (simp add: node_inv_def)
  obtain d acts where d: "process (core (coord n)) e = Some (d, acts)" using core.process_total [OF ci] by metis
  have r: "r = handle_actions ans ((coord n)\<lparr>core := d\<rparr>) acts" using h d by (simp add: handle_core_input_def)
  have "handle_actions ans ((coord n)\<lparr>core := d\<rparr>) acts \<noteq> Suspended t bs" for t bs
    by (rule handle_actions_no_suspend [OF expected_no_disconnect [OF ci ex d]])
  with go [unfolded r] have "handle_actions ans ((coord n)\<lparr>core := d\<rparr>) acts = Done c"
    by (cases "handle_actions ans ((coord n)\<lparr>core := d\<rparr>) acts") auto
  moreover have "honest ans ((coord n)\<lparr>core := d\<rparr>) acts" using hp d by (simp add: pass_answers_def)
  moreover have "within_capacity ((coord n)\<lparr>core := d\<rparr>)" using b by (simp add: node_bounded_def)
  ultimately have "within_capacity c" by (rule handle_actions_within_capacity [rotated 2])
  then show "within_capacity (coord n')" by (simp add: n')
  show "mgr n' = mgr m" "from_tun n' = from_tun m" "inbox n' = inbox m" by (simp_all add: n')
qed

lemma bounded_session:
  assumes b: "node_bounded n" and ans: "session_answers n i" and take: "take_packet ch i (mgr n) = Some s"
  shows "node_bounded (apply_session conn t i s n)"
proof -
  obtain effs go where p: "session_pass conn i = (effs, go)" by (cases "session_pass conn i")
  have ch: "channels_bounded s" using channels_bounded_take [OF _ take] b by (simp add: node_bounded_def)
  have "length (to_coord (mgr n) @ List.map_filter coord_part effs) \<le> INTERMOD_CHANNEL_CAPACITY"
    using session_pass_parts(1) [of conn i] b ans p
    by (cases i) (auto simp: node_bounded_def try_send_def split: sum.splits option.splits if_splits)
  moreover have "length (inbox n @ List.map_filter manager_part effs) \<le> CHANNEL_CAPACITY"
    using session_pass_parts(3) [of conn i] b ans p
    by (cases i) (auto simp: node_bounded_def inbox_room_def split: sum.splits if_splits)
  ultimately show ?thesis
    using b ch take_packet_frame(2) [OF take] by (auto simp: apply_session_def p node_bounded_def Let_def task_ends_def)
qed

lemma node_step_bounded:
  assumes "node_step n l n'" and "node_inv n" and "node_bounded n"
  shows "node_bounded n'"
  using assms
proof (induction rule: node_step.induct)
  case (coord_iroh n ev q ans r n')
  have "expected_event (core (coord n)) (map_iroh_event_to_core_event ev)"
    using coord_iroh by (intro node_inv_iroh_event) simp_all
  moreover obtain hr where "handle_core_input ans (coord n) (map_iroh_event_to_core_event ev) = Some hr" "r = after_handler hr"
    using coord_iroh by (auto simp: handle_iroh_event_def)
  ultimately show ?case
    using coord_iroh bounded_coord [of n ans "map_iroh_event_to_core_event ev" hr "n\<lparr>mgr := (mgr n)\<lparr>to_coord := q\<rparr>\<rparr>" n']
    by (auto simp: node_bounded_def)
next
  case (coord_tun n p q ans r n')
  obtain hr where "handle_core_input ans (coord n) (PacketFromTun p) = Some hr" "r = after_handler hr"
    using coord_tun by (auto simp: handle_packet_from_tun_def)
  with coord_tun bounded_coord [of n ans "PacketFromTun p" hr "n\<lparr>from_tun := q\<rparr>" n'] show ?case
    by (auto simp: node_bounded_def expected_event_def)
next
  case (coord_resume n ans n')
  then show ?case by (simp add: node_inv_def)
next
  case (mgr_tasks n ev q s)
  then have h: "handle_conn_event (mgr n) ev = Inr s" by (auto split: sum.splits)
  from mgr_tasks channels_conn_event [OF h] handle_conn_event_table(2) [OF h] show ?case
    by (auto simp: node_bounded_def)
next
  case (mgr_coord n a q ans s)
  then show ?case
    using channels_bounded_core_event [of "mgr n" a] by (auto simp: node_bounded_def handle_core_event_keeps)
next
  case (mgr_sent n)
  then obtain ev k where a: "awaiting (mgr n) = Some (ev, k)" by auto
  have "mgr_inv (mgr n)" using mgr_sent by (simp add: node_inv_def)
  from mgr_sent complete_send_notifies(2) [OF this a, of True] channels_bounded_complete_send [of "mgr n" True]
  show ?case by (auto simp: node_bounded_def)
next
  case (session n t conn ch i s)
  then show ?case by (blast intro: bounded_session)
next
  case (host_sends n p)
  then show ?case
    using mpsc.push_bound [of "from_tun n" INTERMOD_CHANNEL_CAPACITY p] by (auto simp: node_bounded_def)
qed (auto simp: node_bounded_def inbox_room_def task_ends_def)

lemma node_initial_empty:
  fixes n :: "'a::linorder Node"
  assumes "node_initial n"
  shows "to_coord (mgr n) = []" "channels (mgr n) = Map.empty" "finite (dom (peers (core (coord n))))"
    "peers (core (coord n)) k = Some peer \<Longrightarrow> packet_queue peer = []"
proof -
  from assms obtain ba :: "string \<Rightarrow> unit option" and bound :: "unit + 'a" and addr table iter keys port
    where it: "iterates iter table" "enumerates keys (peer_set iter)"
      and st: "node_start ba bound addr table iter keys port = Inr n"
    unfolding node_initial_def by (elim exE conjE)
  obtain s where s: "Iroh_new ba bound (peer_set iter) keys port = Inr s"
    and n: "mgr n = init keys s" "core (coord n) = VpnCore_new addr table iter (unat final_mtu)"
    using st by (auto simp: node_start_def Coordinator_new_def Let_def split: sum.splits)
  have "channels (fold init_peer ks u) = channels u" for ks and u :: "'a Iroh"
    by (induction ks arbitrary: u) (simp_all add: init_peer_eq)
  with n(1) show "channels (mgr n) = Map.empty"
    using Iroh_new_state(7) [OF s it(2)] by (simp add: init_def spawn_def)
  show "to_coord (mgr n) = []" "finite (dom (peers (core (coord n))))"
    using n Iroh_new_state(5) [OF s it(2)] by (simp_all add: VpnCore_new_dom)
  show "packet_queue peer = []" if "peers (core (coord n)) k = Some peer"
    using that by (auto simp: n(2) dest: VpnCore_new_peer_cases)
qed

interpretation bounds: inductive_invariant node_initial node_step "\<lambda>n. node_inv n \<and> node_bounded n"
proof
  show "node_inv n \<and> node_bounded n" if "node_initial n" for n :: "'a Node"
    using node_initial_queues [OF that] node_initial_empty [OF that] node.inv_initial [OF that]
    by (simp add: node_bounded_def)
  show "node_inv n' \<and> node_bounded n'" if "node_inv n \<and> node_bounded n" and "node_step n l n'" for n n' :: "'a Node" and l
    using that node_step_bounded node.inv_step by blast
qed

end
