(* ===== verification/Mesh_Delivery.thy ===== *)
theory Mesh_Delivery
  imports Mesh_Node
begin

text \<open>
  Schedules of a node: the passes that carry one packet from the host to the wire and from a
  connection to the host, a concrete node with one connected peer, and a schedule in which a
  late report about a replaced connection hits its successor.
\<close>

section \<open>Single passes on a packet\<close>

lemma coord_sends_host_packet:
  assumes "core_inv (core s)" and "egress_ok (core s) p k" and "k \<in> core_up (core s)"
  shows "coord_run_pass (\<lambda>_. Sent) s (RecvTun (Some p)) =
      Some (Go (s\<lparr>tx_to_iroh := tx_to_iroh s @ [CoreAction.SendPacketTo p k]\<rparr>) [])"
    and "length (tx_to_iroh s) < INTERMOD_CHANNEL_CAPACITY \<Longrightarrow> honest_pass (\<lambda>_. Sent) s (PacketFromTun p)"
proof -
  have "send_packet (core s) p = Some (core s, [Action.SendPacketTo p k])"
    using assms send_packet_accept [OF assms(2)] by (auto simp: core_up_def is_connect_open_def)
  then show "coord_run_pass (\<lambda>_. Sent) s (RecvTun (Some p)) =
      Some (Go (s\<lparr>tx_to_iroh := tx_to_iroh s @ [CoreAction.SendPacketTo p k]\<rparr>) [])"
    and "length (tx_to_iroh s) < INTERMOD_CHANNEL_CAPACITY \<Longrightarrow> honest_pass (\<lambda>_. Sent) s (PacketFromTun p)"
    by (simp_all add: handle_packet_from_tun_def handle_core_input_def queue_iroh_def pass_answers_def try_send_def)
qed

lemma coord_delivers_to_host:
  assumes "ingress_ok (core s) p k"
  shows "coord_run_pass (\<lambda>_. Sent) s (RecvIroh (Some (RecvPacketFrom p k))) =
      Some (Go (s\<lparr>tx_to_tun := tx_to_tun s @ [p]\<rparr>) [])"
    and "length (tx_to_tun s) < INTERMOD_CHANNEL_CAPACITY \<Longrightarrow> honest_pass (\<lambda>_. Sent) s (PacketFromIroh p k)"
proof -
  have "recv_packet (core s) p k = Some [WriteToTun p]"
    using assms recv_packet_eq [of "core s" p k] by auto
  then show "coord_run_pass (\<lambda>_. Sent) s (RecvIroh (Some (RecvPacketFrom p k))) =
      Some (Go (s\<lparr>tx_to_tun := tx_to_tun s @ [p]\<rparr>) [])"
    and "length (tx_to_tun s) < INTERMOD_CHANNEL_CAPACITY \<Longrightarrow> honest_pass (\<lambda>_. Sent) s (PacketFromIroh p k)"
    by (simp_all add: handle_iroh_event_def handle_core_input_def queue_tun_def pass_answers_def try_send_def)
qed

text \<open>A node with the sessions of another, where a session's queue may have been emptied.\<close>

definition same_sessions :: "'pk Node \<Rightarrow> 'pk Node \<Rightarrow> bool" where
  "same_sessions n n' \<longleftrightarrow> state_table (mgr n') = state_table (mgr n) \<and> tasks (mgr n') = tasks (mgr n) \<and>
     (\<forall>ch. channels (mgr n') ch \<in> {channels (mgr n) ch, Some []})"

lemma same_sessions_refl: "same_sessions n n"
  by (simp add: same_sessions_def)

lemma same_sessions_trans: "same_sessions n m \<Longrightarrow> same_sessions m n' \<Longrightarrow> same_sessions n n'"
  unfolding same_sessions_def by (metis insert_iff)

lemma outbound_schedule:
  assumes "node_reachable n" and "calm n"
    and "state_table (mgr n) k = Some (Connected t c ch)" and "tasks (mgr n) t = Some (SessionTask c ch)"
    and "channels (mgr n) ch = Some []" and "egress_ok (core (coord n)) p k"
  shows "\<exists>n'. node_path n [HostSends p, CoordTun (\<lambda>_. Sent), MgrCoord Sent,
      Session t (RecvFromManager (Some p) None)] n' \<and> wire n' = wire n @ [(p, k)] \<and> calm n' \<and>
    tx_to_tun (coord n') = tx_to_tun (coord n) \<and> same_sessions n n'"
proof -
  note inv = node_invD [OF assms(1)]
  have up: "k \<in> core_up (core (coord n))"
    using inv assms(2,3) by (auto simp: calm_def up_keys_def up_in_def)
  have rk: "remote_id c = k"
    using inv mgr_inv_entry [OF _ assms(3)] by (auto simp: entry_inv_def)
  let ?n1 = "n\<lparr>from_tun := [p], host_sent := host_sent n @ [p]\<rparr>"
  let ?a = "CoreAction.SendPacketTo p k"
  let ?n2 = "?n1\<lparr>from_tun := [], coord := (coord n)\<lparr>tx_to_iroh := [?a]\<rparr>\<rparr>"
  let ?n3 = "?n2\<lparr>mgr := push_packet ch p Sent (mgr n), coord := (coord n)\<lparr>tx_to_iroh := []\<rparr>\<rparr>"
  have s1: "node_step n (HostSends p) ?n1" using node_step.host_sends [of n p] assms(2) by (simp add: calm_def)
  have s2: "node_step ?n1 (CoordTun (\<lambda>_. Sent)) ?n2"
  proof (rule node_step.coord_tun)
    show "coord_run_pass (\<lambda>_. Sent) (coord ?n1) (RecvTun (Some p)) = Some (Go ((coord n)\<lparr>tx_to_iroh := [?a]\<rparr>) [])"
      using coord_sends_host_packet(1) [of "coord n" p k] inv assms(2,6) up by (simp add: calm_def)
    show "honest_pass (\<lambda>_. Sent) (coord ?n1) (PacketFromTun p)"
      using coord_sends_host_packet(2) [of "coord n" p k] inv assms(2,6) up by (simp add: calm_def)
  qed (use inv in \<open>auto simp: put_coord_def\<close>)
  have s3: "node_step ?n2 (MgrCoord Sent) ?n3"
    using node_step.mgr_coord [of ?n2 ?a "[]" Sent "push_packet ch p Sent (mgr n)"] assms(2-5)
    by (simp add: calm_def push_answer_def)
  let ?n4 = "?n3\<lparr>mgr := mgr n\<lparr>channels := (channels (mgr n))(ch \<mapsto> [])\<rparr>, wire := wire n @ [(p, k)]\<rparr>"
  have s4: "node_step ?n3 (Session t (RecvFromManager (Some p) None)) ?n4"
    using node_step.session [of ?n3 t c ch "RecvFromManager (Some p) None" "mgr n\<lparr>channels := (channels (mgr n))(ch \<mapsto> [])\<rparr>"]
      assms(4,5) by (simp add: push_packet_def take_packet_def apply_session_def map_filter_simps rk)
  have "node_path n [HostSends p, CoordTun (\<lambda>_. Sent), MgrCoord Sent, Session t (RecvFromManager (Some p) None)] ?n4"
    by (intro node_path_step [OF s1] node_path_step [OF s2] node_path_step [OF s3] node_path_step [OF s4] path_end)
  moreover have "calm ?n4" "same_sessions n ?n4" using assms(2) by (simp_all add: calm_def same_sessions_def)
  ultimately show ?thesis by (intro exI [of _ ?n4]) simp
qed

lemma inbound_schedule:
  assumes "node_reachable n" and "calm n"
    and "tasks (mgr n) t = Some (SessionTask c ch)" and "ingress_ok (core (coord n)) p (remote_id c)"
    and "length (tx_to_tun (coord n)) < INTERMOD_CHANNEL_CAPACITY"
  shows "\<exists>n'. node_path n [Session t (ReadDatagram (Inr p) Sent), CoordIroh (\<lambda>_. Sent)] n' \<and>
    tx_to_tun (coord n') = tx_to_tun (coord n) @ [p] \<and> calm n' \<and>
    arrived n' = arrived n @ [(p, remote_id c)] \<and> same_sessions n n'"
proof -
  let ?e = "RecvPacketFrom p (remote_id c)"
  let ?c = "(coord n)\<lparr>tx_to_tun := tx_to_tun (coord n) @ [p]\<rparr>"
  let ?n1 = "n\<lparr>mgr := mgr n\<lparr>to_coord := [?e]\<rparr>, arrived := arrived n @ [(p, remote_id c)]\<rparr>"
  let ?n2 = "?n1\<lparr>mgr := mgr n\<lparr>to_coord := []\<rparr>, coord := ?c\<rparr>"
  have s1: "node_step n (Session t (ReadDatagram (Inr p) Sent)) ?n1"
    using node_step.session [of n t c ch "ReadDatagram (Inr p) Sent" "mgr n"] assms(2,3)
    by (simp add: take_packet_def apply_session_def map_filter_simps calm_def)
  have s2: "node_step ?n1 (CoordIroh (\<lambda>_. Sent)) ?n2"
  proof (rule node_step.coord_iroh)
    show "coord_run_pass (\<lambda>_. Sent) (coord ?n1) (RecvIroh (Some ?e)) = Some (Go ?c [])"
      using coord_delivers_to_host(1) [OF assms(4)] by simp
    show "honest_pass (\<lambda>_. Sent) (coord ?n1) (map_iroh_event_to_core_event ?e)"
      using coord_delivers_to_host(2) [OF assms(4,5)] by simp
  qed (use node_invD [OF assms(1)] in \<open>auto simp: put_coord_def\<close>)
  have "node_path n [Session t (ReadDatagram (Inr p) Sent), CoordIroh (\<lambda>_. Sent)] ?n2"
    by (intro node_path_step [OF s1] node_path_step [OF s2] path_end)
  moreover have "calm ?n2" "same_sessions n ?n2" using assms(2) by (simp_all add: calm_def same_sessions_def)
  ultimately show ?thesis by (intro exI [of _ ?n2]) simp
qed

section \<open>A concrete node with one connected peer\<close>

definition sample_node :: "nat Node" where
  "sample_node = projr (node_start (\<lambda>_. None :: unit option) (Inr 5 :: unit + nat) (Ipv4Addr 10 67 1 1)
     (map_of sample_table) sample_table [7] 0)"

definition live_node :: "nat Node" where
  "live_node = sample_node\<lparr>coord := Coordinator_new sample_connected_core,
     mgr := (complete_send True (handle_incoming (sample_conn 0) (mgr sample_node)))\<lparr>to_coord := []\<rparr>\<rparr>"

lemmas sample_node_simps = sample_node_def node_start_def final_mtu_def sample_table_def peer_set_def
  Iroh_new_def init_def init_peer_def spawn_def set_state_def

lemma sample_node_initial: "node_initial sample_node"
  unfolding node_initial_def
proof (intro exI conjI)
  show "iterates sample_table (map_of sample_table)" by (simp add: iterates_def sample_table_def)
  show "enumerates [7] (peer_set sample_table)" by (simp add: enumerates_def peer_set_def sample_table_def)
  show "node_start (\<lambda>_. None :: unit option) (Inr 5 :: unit + nat) (Ipv4Addr 10 67 1 1)
     (map_of sample_table) sample_table [7] 0 = Inr sample_node"
    by (simp add: sample_node_simps)
qed

lemma live_node_path:
  "node_path sample_node [Accepted 0 (sample_conn 0), MgrTasks, MgrSent, CoordIroh (\<lambda>_. Sent)] live_node"
proof -
  let ?s = "mgr sample_node" and ?c = "sample_conn 0"
  let ?n1 = "sample_node\<lparr>inbox := [IncomingConnection ?c]\<rparr>"
  let ?n2 = "sample_node\<lparr>mgr := handle_incoming ?c ?s\<rparr>"
  let ?n3 = "sample_node\<lparr>mgr := complete_send True (handle_incoming ?c ?s)\<rparr>"
  have core: "core (coord sample_node) = sample_core" "coord sample_node = Coordinator_new sample_core"
    by (simp_all add: sample_node_simps sample_core_def Coordinator_new_def)
  have s1: "node_step sample_node (Accepted 0 ?c) ?n1"
    using node_step.accepted [of sample_node 0 ?c] by (simp add: sample_node_simps inbox_room_def)
  have s2: "node_step ?n1 MgrTasks ?n2"
    using node_step.mgr_tasks [of ?n1 "IncomingConnection ?c" "[]"] by (simp add: sample_node_simps)
  have s3: "node_step ?n2 MgrSent ?n3"
    using node_step.mgr_sent [of ?n2]
    by (simp add: sample_node_simps handle_incoming_def init_ready_connection_def send_await_def sample_conn_def)
  have s4: "node_step ?n3 (CoordIroh (\<lambda>_. Sent)) live_node"
  proof (rule node_step.coord_iroh)
    show "to_coord (mgr ?n3) = ConnectedToPeer 7 # []"
      by (simp add: sample_node_simps handle_incoming_def init_ready_connection_def send_await_def
          sample_conn_def complete_send_def start_session_def new_channel_def)
    show "coord_run_pass (\<lambda>_. Sent) (coord ?n3) (RecvIroh (Some (ConnectedToPeer 7))) =
        Some (Go (Coordinator_new sample_connected_core) [])"
      using sample_connected
      by (simp add: handle_iroh_event_def handle_core_input_def core Coordinator_new_def sample_connected_core_def)
    show "honest_pass (\<lambda>_. Sent) (coord ?n3) (map_iroh_event_to_core_event (ConnectedToPeer 7))"
      using sample_connected by (simp add: pass_answers_def core Coordinator_new_def)
  qed (simp_all add: put_coord_def live_node_def, simp_all add: sample_node_simps)
  show ?thesis by (intro node_path_step [OF s1] node_path_step [OF s2] node_path_step [OF s3] node_path_step [OF s4] path_end)
qed

lemma live_node_reachable: "node_reachable live_node"
  using path_reachable [OF live_node_path] sample_node_initial by (blast intro: reach_init)

lemma live_node_state:
  "calm live_node" "state_table (mgr live_node) 7 = Some (Connected 2 (sample_conn 0) 1)"
  "tasks (mgr live_node) 2 = Some (SessionTask (sample_conn 0) 1)" "channels (mgr live_node) 1 = Some []"
  "core (coord live_node) = sample_connected_core" "wire live_node = []" "tx_to_tun (coord live_node) = []"
  "arrived live_node = []"
  by (simp_all add: calm_def live_node_def sample_node_simps handle_incoming_def init_ready_connection_def send_await_def
          sample_conn_def complete_send_def start_session_def new_channel_def Coordinator_new_def)

lemma live_node_traffic:
  "egress_ok (core (coord live_node)) (sample_packet b) 7"
  "ingress_ok (core (coord live_node)) sample_reply (remote_id (sample_conn 0))"
  using sample_egress [of b] sample_ingress
  by (simp_all add: live_node_state sample_connected_core_def) (simp add: sample_conn_def)

section \<open>A stale report of a lost connection\<close>

text \<open>
  The peer opens a second connection while the first one breaks: the report of the first
  session is queued behind the new connection. The manager installs the new session, then takes
  the report for a report on it.
\<close>

abbreviation stale_schedule :: "nat node_label list" where
  "stale_schedule \<equiv> [Accepted 0 (sample_conn 1), Session 2 (ReadDatagram (Inl ()) Sent), MgrTasks, MgrSent,
     MgrTasks, MgrSent]"

lemma stale_report_schedule:
  "\<exists>n. node_path live_node stale_schedule n \<and> inbox n = [] \<and> awaiting (mgr n) = None \<and>
     tasks (mgr n) 4 = Some (SessionTask (sample_conn 1) 3) \<and>
     state_table (mgr n) 7 = Some WaitingIncomingConnection \<and>
     to_coord (mgr n) = [ConnectedToPeer 7, DisconnectedFromPeer 7] \<and>
     closed (mgr n) = [(sample_conn 0, 1, ''connection is expired: peer open another connection'')]"
proof -
  let ?m0 = "mgr live_node" and ?old = "sample_conn 0" and ?new = "sample_conn 1"
  let ?n1 = "live_node\<lparr>inbox := [IncomingConnection ?new]\<rparr>"
  let ?n2 = "live_node\<lparr>mgr := task_ends 2 ?m0, inbox := [IncomingConnection ?new, ConnectionEvent.Disconnected 7]\<rparr>"
  let ?m3 = "handle_incoming ?new (task_ends 2 ?m0)"
  let ?n3 = "live_node\<lparr>mgr := ?m3, inbox := [ConnectionEvent.Disconnected 7]\<rparr>"
  let ?m4 = "complete_send True ?m3"
  let ?n4 = "?n3\<lparr>mgr := ?m4\<rparr>"
  let ?m5 = "handle_disconnected 7 ?m4"
  let ?n5 = "live_node\<lparr>mgr := ?m5, inbox := []\<rparr>"
  let ?n6 = "?n5\<lparr>mgr := complete_send True ?m5\<rparr>"
  note ev = live_node_def sample_node_simps handle_incoming_def handle_disconnected_def init_ready_connection_def
    send_await_def sample_conn_def complete_send_def start_session_def new_channel_def Coordinator_new_def
    task_ends_def abort_def close_def init_new_connection_def inbox_room_def CHANNEL_CAPACITY_def
    INTERMOD_CHANNEL_CAPACITY_def
  have s1: "node_step live_node (Accepted 0 ?new) ?n1"
    using node_step.accepted [of live_node 0 ?new] by (simp add: ev)
  have s2: "node_step ?n1 (Session 2 (ReadDatagram (Inl ()) Sent)) ?n2"
    using node_step.session [of ?n1 2 ?old 1 "ReadDatagram (Inl ()) Sent" ?m0] live_node_state(3)
    by (simp add: take_packet_def apply_session_def map_filter_simps) (simp add: ev)
  have s3: "node_step ?n2 MgrTasks ?n3"
    using node_step.mgr_tasks [of ?n2 "IncomingConnection ?new" "[ConnectionEvent.Disconnected 7]" ?m3] by (simp add: ev)
  have s4: "node_step ?n3 MgrSent ?n4"
    using node_step.mgr_sent [of ?n3] by (simp add: ev)
  have s5: "node_step ?n4 MgrTasks ?n5"
    using node_step.mgr_tasks [of ?n4 "ConnectionEvent.Disconnected 7" "[]" ?m5] by (simp add: ev)
  have s6: "node_step ?n5 MgrSent ?n6"
    using node_step.mgr_sent [of ?n5] by (simp add: ev)
  have "node_path live_node stale_schedule ?n6"
    by (rule node_path_step [OF s1 node_path_step [OF s2 node_path_step [OF s3 node_path_step [OF s4 node_path_step [OF s5
        node_path_step [OF s6 path_end]]]]]])
  then show ?thesis by (intro exI [of _ ?n6]) (simp add: ev)
qed

end
