(* ===== verification/Mesh_Progress.thy ===== *)
theory Mesh_Progress
  imports Mesh_Bounds Mesh_Delivery
begin

text \<open>
  Progress of a node without help of its environment. The passes of the coordinator and of the
  manager, left alone, terminate, because each of them makes a tuple of queue lengths smaller;
  and as long as a message is in flight one of them is possible, so they end only when every
  queue between the parts is empty. The proofs rest on the honest answers of live channels and
  on the invariants of \<open>Mesh_Node\<close> and \<open>Mesh_Bounds\<close>.
\<close>

section \<open>Internal passes\<close>

fun internal :: "'pk node_label \<Rightarrow> bool" where
  "internal (CoordIroh ans) \<longleftrightarrow> True"
| "internal (CoordTun ans) \<longleftrightarrow> True"
| "internal (CoordResume ans) \<longleftrightarrow> True"
| "internal MgrTasks \<longleftrightarrow> True"
| "internal (MgrCoord ans) \<longleftrightarrow> True"
| "internal MgrSent \<longleftrightarrow> True"
| "internal _ \<longleftrightarrow> False"

definition settled :: "'pk Node \<Rightarrow> bool" where
  "settled n \<longleftrightarrow> calm n \<and> inbox n = []"

definition internal_step :: "('pk::linorder Node \<times> 'pk Node) set" where
  "internal_step = {(n', n). node_reachable n \<and> (\<exists>l. internal l \<and> node_step n l n')}"

text \<open>No task ever reports an internal error, so the manager's loop does not end.\<close>

lemma map_filter_reports:
  "InternalError \<notin> set (List.map_filter manager_part (fst (session_pass conn i)))"
  by (simp add: session_pass_parts)

lemma apply_session_reports:
  "set (inbox (apply_session conn t i s n)) = set (inbox n) \<union> set (List.map_filter manager_part (fst (session_pass conn i)))"
  by (simp add: apply_session_def Let_def split: prod.splits)

interpretation reports: inductive_invariant node_initial node_step "\<lambda>n. InternalError \<notin> set (inbox n)"
proof
  show "InternalError \<notin> set (inbox n)" if "node_initial n" for n :: "'a Node"
    using node_initial_queues(1) [OF that] by simp
  show "InternalError \<notin> set (inbox n')" if "InternalError \<notin> set (inbox n)" and "node_step n l n'" for n n' :: "'a Node" and l
    using that(2,1)
    by (cases rule: node_step.cases)
       (auto simp: put_coord_def apply_session_reports map_filter_reports split: coord_pass.splits)
qed

section \<open>Termination\<close>

definition rank :: "'pk Node \<Rightarrow> nat \<times> nat \<times> nat \<times> nat" where
  "rank n = (length (inbox n), if awaiting (mgr n) = None then 0 else 1,
     length (to_coord (mgr n)) + length (from_tun n), length (tx_to_iroh (coord n)))"

definition rank_order :: "('pk Node \<times> 'pk Node) set" where
  "rank_order = inv_image (less_than <*lex*> less_than <*lex*> less_than <*lex*> less_than) rank"

lemma wf_rank_order: "wf rank_order"
  unfolding rank_order_def by (intro wf_inv_image wf_lex_prod wf_less_than)

lemma internal_step_ranked:
  assumes "node_step n l n'" and "internal l" and "node_inv n"
  shows "(n', n) \<in> rank_order"
  using assms
proof (induction rule: node_step.induct)
  case (mgr_coord n a q ans s)
  then have "action_routed (outbound n) a" by (simp add: node_inv_def)
  then obtain p k where "a = CoreAction.SendPacketTo p k" by (cases a) auto
  with mgr_coord show ?case
    by (auto simp: rank_order_def rank_def split: option.splits ConnectionState.splits)
next
  case (mgr_sent n)
  then obtain ev k where a: "awaiting (mgr n) = Some (ev, k)" by auto
  have "mgr_inv (mgr n)" using mgr_sent by (simp add: node_inv_def)
  from mgr_sent complete_send_notifies(3) [OF this a] a show ?case
    by (simp add: rank_order_def rank_def)
qed (auto simp: rank_order_def rank_def put_coord_def node_inv_def split: coord_pass.splits)

lemma wf_internal_step: "wf internal_step"
  using wf_rank_order
  by (rule wf_subset) (auto simp: internal_step_def intro: internal_step_ranked node.inv_reachable)

section \<open>Progress\<close>

lemma coord_pass_exists:
  assumes "core_inv (core s)" and "expected_event (core s) e"
  shows "\<exists>ans t. honest_pass ans s e \<and> handle_core_input ans s e = Some (Done t)"
proof -
  obtain c acts where c: "process (core s) e = Some (c, acts)"
    using core.process_total [OF assms(1)] by blast
  obtain ans where a: "honest ans (s\<lparr>core := c\<rparr>) acts" "\<forall>i. ans i \<noteq> Closed"
    using honest_exists by blast
  obtain t where "handle_core_input ans s e = Some (Done t)"
    using handle_core_input_open [OF assms a(2)] by blast
  moreover have "honest_pass ans s e" using a(1) c by (simp add: pass_answers_def)
  ultimately show ?thesis by blast
qed

lemma coord_iroh_possible:
  assumes "node_reachable n" and "to_coord (mgr n) = ev # q"
  shows "\<exists>ans n'. node_step n (CoordIroh ans) n'"
proof -
  let ?e = "map_iroh_event_to_core_event ev"
  have "expected_event (core (coord n)) ?e"
    using node_inv_iroh_event [OF node.inv_reachable [OF assms(1)]] assms(2) by simp
  moreover have "core_inv (core (coord n))" using node_invD [OF assms(1)] by simp
  ultimately obtain ans t where "honest_pass ans (coord n) ?e" "handle_core_input ans (coord n) ?e = Some (Done t)"
    using coord_pass_exists by metis
  with node_step.coord_iroh [of n ev q ans "Go t []"] assms(2) node_invD [OF assms(1)] show ?thesis
    by (auto simp: handle_iroh_event_def put_coord_def)
qed

lemma coord_tun_possible:
  assumes "node_reachable n" and "from_tun n = p # q"
  shows "\<exists>ans n'. node_step n (CoordTun ans) n'"
proof -
  obtain ans t where "honest_pass ans (coord n) (PacketFromTun p)"
    "handle_core_input ans (coord n) (PacketFromTun p) = Some (Done t)"
    using coord_pass_exists [of "coord n" "PacketFromTun p"] node_invD [OF assms(1)]
    by (auto simp: expected_event_def)
  with node_step.coord_tun [of n p q ans "Go t []"] assms(2) node_invD [OF assms(1)] show ?thesis
    by (auto simp: handle_packet_from_tun_def put_coord_def)
qed

lemma mgr_tasks_possible:
  assumes "node_reachable n" and "awaiting (mgr n) = None" and "inbox n = ev # q"
  shows "\<exists>n'. node_step n MgrTasks n'"
proof -
  have "ev \<noteq> InternalError" using reports.inv_reachable [OF assms(1)] assms(3) by auto
  then obtain s where "handle_conn_event (mgr n) ev = Inr s" by (cases ev) auto
  with node_step.mgr_tasks [of n ev q s] assms show ?thesis by auto
qed

lemma mgr_coord_possible:
  assumes "awaiting (mgr n) = None" and "tx_to_iroh (coord n) = a # q"
  shows "\<exists>ans n'. node_step n (MgrCoord ans) n'"
  using node_step.mgr_coord [of n a q "push_answer (mgr n) a"] assms by auto

text \<open>A manager that waits for room is never waited for by the coordinator.\<close>

lemma waiting_progress:
  assumes "node_reachable n" and "awaiting (mgr n) \<noteq> None"
  shows "\<exists>l n'. internal l \<and> node_step n l n'"
proof (cases "length (to_coord (mgr n)) < INTERMOD_CHANNEL_CAPACITY")
  case True
  with node_step.mgr_sent [of n] assms(2) show ?thesis by (metis internal.simps(6))
next
  case False
  then obtain ev q where "to_coord (mgr n) = ev # q"
    by (cases "to_coord (mgr n)") (auto simp: INTERMOD_CHANNEL_CAPACITY_def)
  then show ?thesis using coord_iroh_possible [OF assms(1)] by (metis internal.simps(1))
qed

lemma internal_progress:
  assumes "node_reachable n" and "\<not> settled n"
  shows "\<exists>l n'. internal l \<and> node_step n l n'"
proof (cases "awaiting (mgr n) = None")
  case False
  with assms(1) show ?thesis by (rule waiting_progress)
next
  case idle: True
  from assms(2) idle consider "inbox n \<noteq> []" | "tx_to_iroh (coord n) \<noteq> []" | "to_coord (mgr n) \<noteq> []" | "from_tun n \<noteq> []"
    by (auto simp: settled_def calm_def)
  then show ?thesis
    using mgr_tasks_possible [OF assms(1) idle] mgr_coord_possible [OF idle]
      coord_iroh_possible [OF assms(1)] coord_tun_possible [OF assms(1)]
    by cases (metis internal.simps list.exhaust)+
qed

lemma settles:
  assumes "node_reachable n"
  shows "\<exists>ls n'. list_all internal ls \<and> node_path n ls n' \<and> settled n'"
  using wf_internal_step assms
proof (induction n rule: wf_induct_rule)
  case (less n)
  show ?case
  proof (cases "settled n")
    case True
    then show ?thesis by (intro exI [of _ "[]"] exI [of _ n]) (simp add: path_end)
  next
    case False
    then obtain l m where l: "internal l" "node_step n l m" using internal_progress less.prems by blast
    with less.prems have "(m, n) \<in> internal_step" "node_reachable m"
      by (auto simp: internal_step_def intro: reach_step)
    with less.IH obtain ls n' where "list_all internal ls" "node_path m ls n'" "settled n'" by blast
    with l show ?thesis by (intro exI [of _ "l # ls"] exI [of _ n']) (simp add: path_step)
  qed
qed

text \<open>A concrete node with a packet of the host in flight.\<close>

lemma unsettled_node: "\<exists>n. node_reachable (n :: nat Node) \<and> \<not> settled n"
proof -
  let ?n = "live_node\<lparr>from_tun := [[]], host_sent := host_sent live_node @ [[]]\<rparr>"
  have "node_step live_node (HostSends []) ?n"
    using node_step.host_sends [of live_node "[]"] live_node_state(1) by (simp add: calm_def)
  with live_node_reachable have "node_reachable ?n" by (rule reach_step)
  then show ?thesis by (intro exI [of _ ?n]) (simp add: settled_def calm_def)
qed

end
