(* ===== verification/Rust_Io.thy ===== *)
theory Rust_Io
  imports Prelude
begin

text \<open>
  The part of \<^verbatim>\<open>std::io\<close> and \<^verbatim>\<open>std::fs\<close> that the program uses: the kinds of I/O errors, and
  files that are read and written whole. A file system is the content of its files together
  with the faults that the operating system reports for a path.
\<close>

section \<open>Errors\<close>

text \<open>\<^verbatim>\<open>std::io::ErrorKind\<close>.\<close>

datatype ErrorKind =
    NotFound | PermissionDenied | ConnectionRefused | ConnectionReset | HostUnreachable
  | NetworkUnreachable | ConnectionAborted | NotConnected | AddrInUse | AddrNotAvailable
  | NetworkDown | BrokenPipe | AlreadyExists | WouldBlock | NotADirectory | IsADirectory
  | DirectoryNotEmpty | ReadOnlyFilesystem | StaleNetworkFileHandle | InvalidInput | InvalidData
  | TimedOut | WriteZero | StorageFull | NotSeekable | QuotaExceeded | FileTooLarge
  | ResourceBusy | ExecutableFileBusy | Deadlock | CrossesDevices | TooManyLinks
  | InvalidFilename | ArgumentListTooLong | Interrupted | Unsupported | UnexpectedEof
  | OutOfMemory | Other | Uncategorized

section \<open>Files\<close>

record FS =
  files :: "string \<rightharpoonup> bytes"
  read_fault :: "string \<Rightarrow> ErrorKind option"
  write_fault :: "string \<Rightarrow> ErrorKind option"

definition fs_read :: "FS \<Rightarrow> string \<Rightarrow> ErrorKind + bytes" where
  "fs_read fs path =
     (case read_fault fs path of
        Some e \<Rightarrow> Inl e
      | None \<Rightarrow> (case files fs path of None \<Rightarrow> Inl NotFound | Some data \<Rightarrow> Inr data))"

definition fs_write :: "FS \<Rightarrow> string \<Rightarrow> bytes \<Rightarrow> ErrorKind + FS" where
  "fs_write fs path data =
     (case write_fault fs path of
        Some e \<Rightarrow> Inl e
      | None \<Rightarrow> Inr (fs\<lparr>files := (files fs)(path \<mapsto> data)\<rparr>))"

lemma fs_read_Inr: "fs_read fs path = Inr data \<longleftrightarrow> read_fault fs path = None \<and> files fs path = Some data"
  by (auto simp: fs_read_def split: option.splits)

lemma fs_write_Inr:
  "fs_write fs path data = Inr fs' \<longleftrightarrow>
     write_fault fs path = None \<and> fs' = fs\<lparr>files := (files fs)(path \<mapsto> data)\<rparr>"
  by (auto simp: fs_write_def split: option.splits)

lemma fs_read_after_write:
  assumes "fs_write fs path data = Inr fs'"
  shows "fs_read fs' q = (if q = path \<and> read_fault fs path = None then Inr data else fs_read fs q)"
  using assms by (auto simp: fs_write_Inr fs_read_def split: option.splits)

end
