(* ===== verification/Tun_Device.thy ===== *)
theory Tun_Device
  imports Rust_Net Rust_Io Iroh_Manager "HOL-Library.Sublist"
begin

text \<open>
  The virtual interface of \<^verbatim>\<open>src/tun.rs\<close>: the classification of I/O errors, the reader and the
  writer task, and the supervising loop \<^verbatim>\<open>Tun::run\<close>, which recreates the device and hands the
  receiving end of the coordinator's channel to each new writer. The device and the operating
  system are the environment: their answers are the inputs of the passes.
\<close>

section \<open>Data\<close>

datatype 'te TunEvent =
    Info string
  | InitError 'te
  | FatalError
  | DropPacket
  | ReconnectRequired

text \<open>The values that \<^verbatim>\<open>Tun::new\<close> sets on the builder of the device.\<close>

record TunConfig =
  tun_mtu :: u16
  tun_address :: Ipv4Addr
  tun_netmask :: Ipv4Addr
  tun_device_name :: string
  tun_up :: bool

definition Tun_new :: "string \<Rightarrow> u16 \<Rightarrow> Ipv4Addr \<Rightarrow> Ipv4Addr \<Rightarrow> TunConfig" where
  "Tun_new tun_name mtu tun_ip netmask =
     \<lparr>tun_mtu = mtu, tun_address = tun_ip, tun_netmask = netmask, tun_device_name = tun_name,
      tun_up = True\<rparr>"

section \<open>Error classification\<close>

fun classify_tun_error :: "ErrorKind \<Rightarrow> 'te TunEvent" where
  "classify_tun_error WouldBlock = DropPacket"
| "classify_tun_error Interrupted = DropPacket"
| "classify_tun_error WriteZero = DropPacket"
| "classify_tun_error InvalidData = DropPacket"
| "classify_tun_error UnexpectedEof = DropPacket"
| "classify_tun_error TimedOut = DropPacket"
| "classify_tun_error NetworkDown = ReconnectRequired"
| "classify_tun_error BrokenPipe = ReconnectRequired"
| "classify_tun_error StaleNetworkFileHandle = ReconnectRequired"
| "classify_tun_error NotConnected = ReconnectRequired"
| "classify_tun_error ConnectionReset = ReconnectRequired"
| "classify_tun_error ConnectionAborted = ReconnectRequired"
| "classify_tun_error PermissionDenied = FatalError"
| "classify_tun_error NotFound = FatalError"
| "classify_tun_error AlreadyExists = FatalError"
| "classify_tun_error InvalidInput = FatalError"
| "classify_tun_error ResourceBusy = FatalError"
| "classify_tun_error AddrInUse = FatalError"
| "classify_tun_error Unsupported = FatalError"
| "classify_tun_error _ = FatalError"

section \<open>The reader task\<close>

text \<open>
  A pass of the reader: the stop signal, or the result of \<^verbatim>\<open>read\<close> with the answer of
  \<^verbatim>\<open>try_send\<close>. A read copies what the device has, at most the length of the buffer, over the
  front of the buffer and leaves the rest of it as it was. A pass gives the new buffer, the
  packets sent to the coordinator and, when the task returns, its end message.
\<close>

datatype reader_input = StopReader | DeviceRead "ErrorKind + bytes" TrySend

type_synonym 'te reader_pass = "bytes \<times> bytes list \<times> 'te TunEvent option"

definition READ_BUFFER :: nat where
  "READ_BUFFER = 2 ^ 16"

definition read_into :: "bytes \<Rightarrow> bytes \<Rightarrow> nat \<times> bytes" where
  "read_into buf data =
     (let size = min (length data) (length buf) in (size, take size data @ drop size buf))"

fun tun_reader_pass :: "bytes \<Rightarrow> reader_input \<Rightarrow> 'te reader_pass" where
  "tun_reader_pass buf StopReader = (buf, [], Some (Info ''nothing''))"
| "tun_reader_pass buf (DeviceRead (Inr data) answer) =
     (let (size, buf') = read_into buf data in
      if size = 0 then (buf', [], Some ReconnectRequired)
      else case answer of
        Sent \<Rightarrow> (buf', [take size buf'], None)
      | Full \<Rightarrow> (buf', [], None)
      | Closed \<Rightarrow> (buf', [], Some FatalError))"
| "tun_reader_pass buf (DeviceRead (Inl e) answer) =
     (case (classify_tun_error e :: 'te TunEvent) of
        ReconnectRequired \<Rightarrow> (buf, [], Some ReconnectRequired)
      | DropPacket \<Rightarrow> (buf, [], None)
      | FatalError \<Rightarrow> (buf, [], Some FatalError)
      | _ \<Rightarrow> (buf, [], None))"

text \<open>The loop, and the task that starts it on a zeroed buffer; the result is \<open>None\<close> in its
  second part while the task still runs.\<close>

fun reader_loop :: "bytes \<Rightarrow> reader_input list \<Rightarrow> bytes list \<times> 'te TunEvent option" where
  "reader_loop buf [] = ([], None)"
| "reader_loop buf (i # is) =
     (let (buf', sent, done) = tun_reader_pass buf i in
      case done of
        Some ev \<Rightarrow> (sent, Some ev)
      | None \<Rightarrow> (let (more, ended) = reader_loop buf' is in (sent @ more, ended)))"

definition worker_tun_reader :: "reader_input list \<Rightarrow> bytes list \<times> 'te TunEvent option" where
  "worker_tun_reader is = reader_loop (replicate READ_BUFFER 0) is"

section \<open>The writer task\<close>

text \<open>
  A pass of the writer: the stop signal, a packet received, with the result of \<^verbatim>\<open>write\<close>
  (\<open>None\<close>: written), or the end of the channel.
\<close>

datatype writer_input = StopWriter | RecvPacket bytes "ErrorKind option" | RecvClosed

text \<open>A pass gives the packets written to the device and the end message.\<close>

fun tun_writer_pass :: "writer_input \<Rightarrow> bytes list \<times> 'te TunEvent option" where
  "tun_writer_pass StopWriter = ([], Some (Info ''nothing''))"
| "tun_writer_pass (RecvPacket packet None) = ([packet], None)"
| "tun_writer_pass (RecvPacket packet (Some e)) =
     (case (classify_tun_error e :: 'te TunEvent) of
        ReconnectRequired \<Rightarrow> ([], Some ReconnectRequired)
      | DropPacket \<Rightarrow> ([], None)
      | FatalError \<Rightarrow> ([], Some FatalError)
      | _ \<Rightarrow> ([], None))"
| "tun_writer_pass RecvClosed = ([], Some FatalError)"

section \<open>The supervising loop\<close>

text \<open>
  The state of \<^verbatim>\<open>run\<close> and its two workers. A worker is its one-shot end channel: the task
  is alive, has sent its end message, or was torn down without one (a panic of the runtime or
  of the device driver), which the supervisor sees as \<^verbatim>\<open>Err\<close>. \<open>rx\<close> is the content of the
  coordinator's channel and \<open>holder\<close> tells who owns its receiving end: the supervisor, the
  writer, or the writer's end message.
  \<open>put\<close>, \<open>taken\<close>, \<open>written\<close> and \<open>read_out\<close> are histories: packets put in the channel, taken
  from it, written to the device, and sent to the coordinator.
\<close>

datatype phase = Creating | Selecting | AwaitWriter | AwaitReader | Returned

datatype holder = Supervisor | Writer | EndMessage | Lost

datatype 'te worker = Alive | Ended "'te TunEvent" | Gone

record 'te TunRun =
  phase :: phase
  event :: "'te TunEvent"
  rx :: "bytes list"
  holder :: holder
  buf :: bytes
  reader_end :: "'te worker"
  writer_end :: "'te worker"
  stop_reader :: bool
  stop_writer :: bool
  put :: "bytes list"
  taken :: "bytes list"
  written :: "bytes list"
  read_out :: "bytes list"
  slept :: nat

definition Tun_initial :: "'te TunRun \<Rightarrow> bool" where
  "Tun_initial s \<longleftrightarrow> phase s = Creating \<and> holder s = Supervisor \<and> put s = taken s @ rx s \<and>
     taken s = [] \<and> written s = [] \<and> read_out s = [] \<and> slept s = 0"

text \<open>The state in which \<^verbatim>\<open>main\<close> spawns the loop; the workers and the event of a round do not exist
  before the first device, and their fields are not read until then.\<close>

definition Tun_start :: "'te TunRun" where
  "Tun_start = \<lparr>phase = Creating, event = FatalError, rx = [], holder = Supervisor, buf = [],
     reader_end = Gone, writer_end = Gone, stop_reader = False, stop_writer = False, put = [],
     taken = [], written = [], read_out = [], slept = 0\<rparr>"

text \<open>The two branches of creating the device.\<close>

definition create_failed :: "'te TunRun \<Rightarrow> 'te TunRun" where
  "create_failed s = s\<lparr>slept := slept s + 2\<rparr>"

definition create_ok :: "'te TunRun \<Rightarrow> 'te TunRun" where
  "create_ok s = s\<lparr>phase := Selecting, holder := Writer, buf := replicate READ_BUFFER 0,
     reader_end := Alive, writer_end := Alive, stop_reader := False, stop_writer := False\<rparr>"

text \<open>The match on the event that ended the round; its last arm falls through to the next round.\<close>

fun next_round :: "'te TunEvent \<Rightarrow> phase" where
  "next_round ReconnectRequired = Creating"
| "next_round FatalError = Returned"
| "next_round _ = Creating"

text \<open>
  The two arms of the \<^verbatim>\<open>select!\<close> and the two joins that follow: the supervisor receives the
  result of an end channel, a message or the error of a dropped sender.
\<close>

fun reader_ended :: "'te worker \<Rightarrow> 'te TunRun \<Rightarrow> 'te TunRun" where
  "reader_ended (Ended ev) s = s\<lparr>event := ev, stop_writer := True, phase := AwaitWriter\<rparr>"
| "reader_ended w s = s\<lparr>phase := Returned\<rparr>"

fun writer_ended :: "'te worker \<Rightarrow> 'te TunRun \<Rightarrow> 'te TunRun" where
  "writer_ended (Ended ev) s =
     s\<lparr>event := ev, holder := Supervisor, stop_reader := True, phase := AwaitReader\<rparr>"
| "writer_ended w s = s\<lparr>phase := Returned\<rparr>"

fun writer_joined :: "'te worker \<Rightarrow> 'te TunRun \<Rightarrow> 'te TunRun" where
  "writer_joined (Ended _) s = s\<lparr>holder := Supervisor, phase := next_round (event s)\<rparr>"
| "writer_joined w s = s\<lparr>phase := Returned\<rparr>"

fun reader_joined :: "'te worker \<Rightarrow> 'te TunRun \<Rightarrow> 'te TunRun" where
  "reader_joined (Ended _) s = s\<lparr>phase := next_round (event s)\<rparr>"
| "reader_joined w s = s\<lparr>phase := Returned\<rparr>"

text \<open>A pass of a worker, applied to the state.\<close>

definition worker_of :: "'te TunEvent option \<Rightarrow> 'te worker" where
  "worker_of d = (case d of None \<Rightarrow> Alive | Some ev \<Rightarrow> Ended ev)"

definition reader_works :: "reader_input \<Rightarrow> 'te TunRun \<Rightarrow> 'te TunRun" where
  "reader_works i s =
     (let (b, sent, done) = tun_reader_pass (buf s) i
      in s\<lparr>buf := b, read_out := read_out s @ sent, reader_end := worker_of done\<rparr>)"

definition writer_works :: "writer_input \<Rightarrow> 'te TunRun \<Rightarrow> 'te TunRun" where
  "writer_works i s =
     (let (out, done) = tun_writer_pass i
      in s\<lparr>written := written s @ out, writer_end := worker_of done,
           holder := (if done = None then Writer else EndMessage)\<rparr>)"

definition take_rx :: "'te TunRun \<Rightarrow> 'te TunRun" where
  "take_rx s = s\<lparr>rx := tl (rx s), taken := taken s @ [hd (rx s)]\<rparr>"

definition workers_live :: "'te TunRun \<Rightarrow> bool" where
  "workers_live s \<longleftrightarrow> phase s \<in> {Selecting, AwaitWriter, AwaitReader}"

datatype tun_label =
    CoordPuts bytes | CreateErr | CreateOk | ReaderStep reader_input | WriterStep writer_input
  | ReaderGone | WriterGone | SelectReader | SelectWriter | JoinWriter | JoinReader

inductive tun_step :: "'te TunRun \<Rightarrow> tun_label \<Rightarrow> 'te TunRun \<Rightarrow> bool" where
  coord_puts: "tun_step s (CoordPuts p) (s\<lparr>rx := rx s @ [p], put := put s @ [p]\<rparr>)"
| create_err: "phase s = Creating \<Longrightarrow> tun_step s CreateErr (create_failed s)"
| create_succ: "phase s = Creating \<Longrightarrow> tun_step s CreateOk (create_ok s)"
| reader_stop: "workers_live s \<Longrightarrow> reader_end s = Alive \<Longrightarrow> stop_reader s \<Longrightarrow>
     tun_step s (ReaderStep StopReader) (reader_works StopReader s)"
| reader_read: "workers_live s \<Longrightarrow> reader_end s = Alive \<Longrightarrow>
     tun_step s (ReaderStep (DeviceRead r a)) (reader_works (DeviceRead r a) s)"
| reader_gone: "workers_live s \<Longrightarrow> reader_end s = Alive \<Longrightarrow>
     tun_step s ReaderGone (s\<lparr>reader_end := Gone\<rparr>)"
| writer_stop: "workers_live s \<Longrightarrow> writer_end s = Alive \<Longrightarrow> stop_writer s \<Longrightarrow>
     tun_step s (WriterStep StopWriter) (writer_works StopWriter s)"
| writer_recv: "workers_live s \<Longrightarrow> writer_end s = Alive \<Longrightarrow> rx s = p # q \<Longrightarrow>
     tun_step s (WriterStep (RecvPacket p r)) (writer_works (RecvPacket p r) (take_rx s))"
| writer_closed: "workers_live s \<Longrightarrow> writer_end s = Alive \<Longrightarrow> rx s = [] \<Longrightarrow>
     tun_step s (WriterStep RecvClosed) (writer_works RecvClosed s)"
| writer_gone: "workers_live s \<Longrightarrow> writer_end s = Alive \<Longrightarrow>
     tun_step s WriterGone (s\<lparr>writer_end := Gone, holder := Lost\<rparr>)"
| select_reader: "phase s = Selecting \<Longrightarrow> reader_end s \<noteq> Alive \<Longrightarrow>
     tun_step s SelectReader (reader_ended (reader_end s) s)"
| select_writer: "phase s = Selecting \<Longrightarrow> writer_end s \<noteq> Alive \<Longrightarrow>
     tun_step s SelectWriter (writer_ended (writer_end s) s)"
| join_writer: "phase s = AwaitWriter \<Longrightarrow> writer_end s \<noteq> Alive \<Longrightarrow>
     tun_step s JoinWriter (writer_joined (writer_end s) s)"
| join_reader: "phase s = AwaitReader \<Longrightarrow> reader_end s \<noteq> Alive \<Longrightarrow>
     tun_step s JoinReader (reader_joined (reader_end s) s)"

abbreviation tun_reachable :: "'te TunRun \<Rightarrow> bool" where
  "tun_reachable \<equiv> reachable Tun_initial tun_step"

section \<open>Invariant\<close>

text \<open>What a worker may have sent: without a stop signal only one of the two round-ending events.\<close>

definition end_ok :: "bool \<Rightarrow> 'te worker \<Rightarrow> bool" where
  "end_ok stopped w \<longleftrightarrow>
     (\<forall>ev. w = Ended ev \<longrightarrow> ev = ReconnectRequired \<or> ev = FatalError \<or> (stopped \<and> ev = Info ''nothing''))"

definition holder_ok :: "'te TunRun \<Rightarrow> bool" where
  "holder_ok s \<longleftrightarrow>
     (case phase s of
        Creating \<Rightarrow> holder s = Supervisor
      | AwaitReader \<Rightarrow> holder s = Supervisor
      | Returned \<Rightarrow> True
      | _ \<Rightarrow> holder s = (case writer_end s of Alive \<Rightarrow> Writer | Ended _ \<Rightarrow> EndMessage | Gone \<Rightarrow> Lost))"

definition signals_ok :: "'te TunRun \<Rightarrow> bool" where
  "signals_ok s \<longleftrightarrow>
     (case phase s of
        Selecting \<Rightarrow> \<not> stop_reader s \<and> \<not> stop_writer s
      | AwaitWriter \<Rightarrow> stop_writer s \<and> (\<exists>ev. reader_end s = Ended ev) \<and> event s \<in> {ReconnectRequired, FatalError}
      | AwaitReader \<Rightarrow> stop_reader s \<and> (\<exists>ev. writer_end s = Ended ev) \<and> event s \<in> {ReconnectRequired, FatalError}
      | _ \<Rightarrow> True)"

definition tun_inv :: "'te TunRun \<Rightarrow> bool" where
  "tun_inv s \<longleftrightarrow>
     holder_ok s \<and> signals_ok s \<and> put s = taken s @ rx s \<and> subseq (written s) (taken s) \<and>
     (workers_live s \<longrightarrow> end_ok (stop_reader s) (reader_end s) \<and> end_ok (stop_writer s) (writer_end s))"

lemmas tun_inv_defs [tun_simps] = tun_inv_def workers_live_def holder_ok_def signals_ok_def

section \<open>One pass\<close>

lemma classify_range [simp]:
  "classify_tun_error k \<noteq> Info x" "classify_tun_error k \<noteq> InitError y"
  by (cases k; simp)+

lemma reader_pass_end:
  "tun_reader_pass b i = (b', out, done) \<Longrightarrow>
   done \<in> {None, Some ReconnectRequired, Some FatalError} \<union> (if i = StopReader then {Some (Info ''nothing'')} else {})"
  by (cases "(b, i)" rule: tun_reader_pass.cases)
     (auto simp: Let_def split: prod.splits if_splits TrySend.splits TunEvent.splits)

lemma writer_pass_end:
  "tun_writer_pass i = (out, done) \<Longrightarrow>
   done \<in> {None, Some ReconnectRequired, Some FatalError} \<union> (if i = StopWriter then {Some (Info ''nothing'')} else {})"
  by (cases i rule: tun_writer_pass.cases) (auto split: TunEvent.splits)

lemma writer_pass_out:
  "tun_writer_pass i = (out, done) \<Longrightarrow> out = [] \<or> (\<exists>p. i = RecvPacket p None \<and> out = [p])"
  by (cases i rule: tun_writer_pass.cases) (auto split: TunEvent.splits)

lemma end_ok_worker_of: "end_ok b (worker_of d) \<longleftrightarrow>
   d \<in> {None, Some ReconnectRequired, Some FatalError} \<union> (if b then {Some (Info ''nothing'')} else {})"
  by (cases d) (auto simp: end_ok_def worker_of_def)

lemma end_ok_simps [simp]: "end_ok b Alive" "end_ok b Gone"
  by (simp_all add: end_ok_def)

section \<open>Every step keeps the invariant\<close>

lemma tun_inv_reader_works:
  fixes s :: "'te TunRun"
  assumes "tun_inv s" and "workers_live s" and "reader_end s = Alive" and "i = StopReader \<Longrightarrow> stop_reader s"
  shows "tun_inv (reader_works i s)"
proof -
  obtain b out d where p: "tun_reader_pass (buf s) i = (b, out, d :: 'te TunEvent option)"
    by (metis prod_cases3)
  have "end_ok (stop_reader s) (worker_of d)"
    using reader_pass_end [OF p] assms(4) by (auto simp: end_ok_worker_of split: if_splits)
  with assms(1-3) show ?thesis
    by (auto simp: tun_inv_def reader_works_def p workers_live_def holder_ok_def signals_ok_def split: phase.splits)
qed

lemma tun_inv_writer_works:
  fixes s :: "'te TunRun"
  assumes "tun_inv s" and "workers_live s" and "writer_end s = Alive" and "i = StopWriter \<Longrightarrow> stop_writer s"
    and "\<And>p r. i = RecvPacket p r \<Longrightarrow> \<exists>q. taken s = q @ [p] \<and> subseq (written s) q"
  shows "tun_inv (writer_works i s)"
proof -
  obtain out d where p: "tun_writer_pass i = (out, d :: 'te TunEvent option)" by fastforce
  have "end_ok (stop_writer s) (worker_of d)"
    using writer_pass_end [OF p] assms(4) by (auto simp: end_ok_worker_of split: if_splits)
  moreover have "subseq (written s @ out) (taken s)"
    using writer_pass_out [OF p] assms(1,5) by (auto simp: tun_inv_def)
  ultimately show ?thesis
    using assms(1-3)
    by (auto simp: tun_inv_def writer_works_def p workers_live_def holder_ok_def signals_ok_def worker_of_def
        split: phase.splits option.splits)
qed

lemma tun_step_inv: "tun_step s l t \<Longrightarrow> tun_inv s \<Longrightarrow> tun_inv t"
proof (induction rule: tun_step.induct)
  case (create_succ s)
  then show ?case
    by (auto simp: tun_inv_def create_ok_def holder_ok_def signals_ok_def)
next
  case (reader_stop s)
  then show ?case by (auto intro: tun_inv_reader_works)
next
  case (reader_read s r a)
  then show ?case by (auto intro: tun_inv_reader_works)
next
  case (writer_stop s)
  then show ?case by (auto intro: tun_inv_writer_works)
next
  case (writer_closed s)
  then show ?case by (auto intro: tun_inv_writer_works)
next
  case (writer_recv s p q r)
  have "tun_inv (take_rx s)"
    using writer_recv
    by (auto simp: tun_inv_def take_rx_def workers_live_def holder_ok_def signals_ok_def split: phase.splits)
  with writer_recv show ?case
    by (intro tun_inv_writer_works) (auto simp: take_rx_def workers_live_def tun_inv_def)
next
  case (select_reader s)
  then show ?case
    by (cases "reader_end s") (auto simp: tun_simps end_ok_def)
next
  case (select_writer s)
  then show ?case
    by (cases "writer_end s") (auto simp: tun_simps end_ok_def)
next
  case (join_writer s)
  then show ?case
    by (cases "writer_end s") (auto simp: tun_simps)
next
  case (join_reader s)
  then show ?case
    by (cases "reader_end s") (auto simp: tun_simps)
qed (auto simp: tun_simps create_failed_def split: phase.splits)

interpretation tun: inductive_invariant Tun_initial tun_step tun_inv
proof
  show "tun_inv s" if "Tun_initial s" for s :: "'te TunRun"
    using that by (simp add: Tun_initial_def tun_inv_def holder_ok_def signals_ok_def workers_live_def)
qed (rule tun_step_inv)

text \<open>The reader keeps the length of its buffer; \<^verbatim>\<open>run\<close> returns only on a fatal error or when a
  worker was torn down, and only a lost writer takes the receiver with it.\<close>

definition tun_causes :: "'te TunRun \<Rightarrow> bool" where
  "tun_causes s \<longleftrightarrow> (workers_live s \<longrightarrow> length (buf s) = READ_BUFFER) \<and>
     (phase s = Returned \<longrightarrow> event s = FatalError \<or> reader_end s = Gone \<or> writer_end s = Gone) \<and>
     (holder s = Lost \<longrightarrow> writer_end s = Gone)"

lemma reader_pass_buf: "length (fst (tun_reader_pass b i)) = length b"
  by (cases "(b, i)" rule: tun_reader_pass.cases)
     (auto simp: read_into_def Let_def split: TrySend.splits TunEvent.splits)

lemma next_round_Returned: "next_round ev = Returned \<longleftrightarrow> ev = FatalError"
  by (cases ev) auto

interpretation causes: inductive_invariant Tun_initial tun_step tun_causes
proof
  show "tun_causes s" if "Tun_initial s" for s :: "'te TunRun"
    using that by (simp add: Tun_initial_def tun_causes_def workers_live_def)
  show "tun_causes t" if "tun_causes s" and "tun_step s l t" for s t :: "'te TunRun" and l
    using that(2,1)
  proof (cases rule: tun_step.cases)
    case (reader_read r a)
    then show ?thesis
      using that(1) reader_pass_buf [of "buf s" "DeviceRead r a", where 'a = 'te]
      by (auto simp: tun_causes_def reader_works_def workers_live_def split: prod.splits)
  next
    case reader_stop
    then show ?thesis
      using that(1) by (auto simp: tun_causes_def reader_works_def workers_live_def)
  next
    case select_reader
    then show ?thesis
      using that(1) by (cases "reader_end s") (auto simp: tun_causes_def workers_live_def)
  next
    case select_writer
    then show ?thesis
      using that(1) by (cases "writer_end s") (auto simp: tun_causes_def workers_live_def)
  next
    case join_writer
    then show ?thesis
      using that(1) by (cases "writer_end s") (auto simp: tun_causes_def workers_live_def next_round_Returned)
  next
    case join_reader
    then show ?thesis
      using that(1) by (cases "reader_end s") (auto simp: tun_causes_def workers_live_def next_round_Returned)
  qed (auto simp: tun_causes_def workers_live_def create_ok_def create_failed_def writer_works_def take_rx_def
      split: prod.splits)
qed

section \<open>The reader, end to end\<close>

text \<open>What one input makes the reader send, and whether it ends the task.\<close>

fun reader_packet :: "reader_input \<Rightarrow> bytes option" where
  "reader_packet (DeviceRead (Inr data) Sent) = (if data = [] then None else Some (take READ_BUFFER data))"
| "reader_packet _ = None"

fun reader_final :: "reader_input \<Rightarrow> 'te TunEvent option" where
  "reader_final StopReader = Some (Info ''nothing'')"
| "reader_final (DeviceRead (Inr data) answer) =
     (if data = [] then Some ReconnectRequired else if answer = Closed then Some FatalError else None)"
| "reader_final (DeviceRead (Inl e) answer) =
     (if classify_tun_error e = (DropPacket :: 'te TunEvent) then None else Some (classify_tun_error e))"

lemma READ_BUFFER_pos: "0 < READ_BUFFER"
  by (simp add: READ_BUFFER_def)

lemma reader_pass_correct:
  assumes "length b0 = READ_BUFFER"
  obtains b1 where "length b1 = READ_BUFFER"
    and "tun_reader_pass b0 i =
      (b1, (case reader_packet i of Some p \<Rightarrow> [p] | None \<Rightarrow> []), reader_final i :: 'te TunEvent option)"
proof (cases "(b0, i)" rule: tun_reader_pass.cases)
  case (1 b)
  with that [of b0] assms show ?thesis by simp
next
  case (2 b data answer)
  let ?n = "min (length data) READ_BUFFER"
  let ?b = "take ?n data @ drop ?n b0"
  have "length ?b = READ_BUFFER" "take ?n ?b = take READ_BUFFER data" "?n = 0 \<longleftrightarrow> data = []"
    using assms READ_BUFFER_pos by (auto simp: min_def)
  with 2 that [of ?b] assms show ?thesis
    by (cases answer) (auto simp: read_into_def Let_def)
next
  case (3 b e answer)
  with that [of b0] assms show ?thesis
    by (cases "classify_tun_error e :: 'te TunEvent") simp_all
qed

lemma reader_loop_correct:
  assumes "length b0 = READ_BUFFER"
  shows "reader_loop b0 is =
    (List.map_filter reader_packet (takeWhile (\<lambda>i. reader_final i = (None :: 'te TunEvent option)) is),
     (case dropWhile (\<lambda>i. reader_final i = (None :: 'te TunEvent option)) is of
        [] \<Rightarrow> None | i # _ \<Rightarrow> (reader_final i :: 'te TunEvent option)))"
  using assms
proof (induction "is" arbitrary: b0)
  case Nil
  then show ?case by (simp add: map_filter_simps)
next
  case (Cons i "is")
  obtain b where b: "length b = READ_BUFFER" "tun_reader_pass b0 i =
      (b, (case reader_packet i of Some p \<Rightarrow> [p] | None \<Rightarrow> []), reader_final i :: 'te TunEvent option)"
    using reader_pass_correct [OF Cons.prems] .
  have "reader_packet i = None" if "reader_final i \<noteq> (None :: 'te TunEvent option)"
    using that by (cases i rule: reader_packet.cases) (auto split: if_splits)
  with Cons.IH [OF b(1)] b(2) show ?case
    by (cases "reader_final i :: 'te TunEvent option") (auto simp: map_filter_simps split: option.splits)
qed

text \<open>The outcome of a round: what its event demands, with the receiver and its queue kept.\<close>

definition round_closed :: "'te TunRun \<Rightarrow> 'te TunRun \<Rightarrow> bool" where
  "round_closed s u \<longleftrightarrow> event s \<in> {ReconnectRequired, FatalError} \<and>
     phase u = (if event s = FatalError then Returned else Creating) \<and> holder u = Supervisor \<and> rx u = rx s"

lemma await_writer_closes:
  assumes inv: "tun_inv s" and ph: "phase s = AwaitWriter" and live: "writer_end s \<noteq> Gone"
  shows "\<exists>t u l l'. (t = s \<or> tun_step s l t) \<and> tun_step t l' u \<and> round_closed s u"
proof -
  define t where "t = (if writer_end s = Alive then writer_works StopWriter s else s)"
  have ev: "stop_writer s" "event s \<in> {ReconnectRequired, FatalError}"
    using inv ph by (auto simp: tun_inv_def signals_ok_def)
  have t: "t = s \<or> tun_step s (WriterStep StopWriter) t"
    using ph ev(1) by (auto simp: t_def workers_live_def intro: writer_stop)
  obtain x where e: "writer_end t = Ended x" "phase t = AwaitWriter" "event t = event s" "rx t = rx s"
    using ph live by (cases "writer_end s") (auto simp: t_def writer_works_def worker_of_def)
  have "tun_step t JoinWriter (writer_joined (writer_end t) t)" using e by (intro join_writer) auto
  moreover have "round_closed s (writer_joined (writer_end t) t)" using e ev(2) by (auto simp: round_closed_def)
  ultimately show ?thesis using t by blast
qed

lemma await_reader_closes:
  assumes inv: "tun_inv s" and ph: "phase s = AwaitReader" and live: "reader_end s \<noteq> Gone"
  shows "\<exists>t u l l'. (t = s \<or> tun_step s l t) \<and> tun_step t l' u \<and> round_closed s u"
proof -
  define t where "t = (if reader_end s = Alive then reader_works StopReader s else s)"
  have ev: "stop_reader s" "event s \<in> {ReconnectRequired, FatalError}" "holder s = Supervisor"
    using inv ph by (auto simp: tun_inv_def signals_ok_def holder_ok_def)
  have t: "t = s \<or> tun_step s (ReaderStep StopReader) t"
    using ph ev(1) by (auto simp: t_def workers_live_def intro: reader_stop)
  obtain x where e: "reader_end t = Ended x" "phase t = AwaitReader" "event t = event s" "rx t = rx s"
      "holder t = holder s"
    using ph live by (cases "reader_end s") (auto simp: t_def reader_works_def worker_of_def)
  have "tun_step t JoinReader (reader_joined (reader_end t) t)" using e by (intro join_reader) auto
  moreover have "round_closed s (reader_joined (reader_end t) t)"
    using e ev(2,3) by (auto simp: round_closed_def)
  ultimately show ?thesis using t by blast
qed

section \<open>A concrete run\<close>

definition sample_tun :: "bytes list \<Rightarrow> unit TunRun" where
  "sample_tun ps = Tun_start\<lparr>rx := ps, put := ps\<rparr>"

text \<open>The device comes up, the writer writes one packet and the reader loses the device.\<close>

definition sample_round :: "unit TunRun" where
  "sample_round = (let s = writer_works (RecvPacket [1] None) (take_rx (create_ok (sample_tun [[1], [2]])));
     t = reader_works (DeviceRead (Inl NetworkDown) Sent) s in reader_ended (reader_end t) t)"

lemma sample_round_reachable: "tun_reachable sample_round"
proof -
  let ?a = "create_ok (sample_tun [[1], [2]])"
  let ?b = "writer_works (RecvPacket [1] None) (take_rx ?a)"
  let ?c = "reader_works (DeviceRead (Inl NetworkDown) Sent) ?b"
  have "tun_reachable (sample_tun [[1], [2]])" by (rule reach_init) (simp add: Tun_initial_def sample_tun_def Tun_start_def)
  moreover have "tun_step (sample_tun [[1], [2]]) CreateOk ?a"
    by (rule create_succ) (simp add: sample_tun_def Tun_start_def)
  moreover have "tun_step ?a (WriterStep (RecvPacket [1] None)) ?b"
    by (rule writer_recv [of _ _ "[[2]]"]) (simp_all add: sample_tun_def Tun_start_def create_ok_def workers_live_def)
  moreover have "tun_step ?b (ReaderStep (DeviceRead (Inl NetworkDown) Sent)) ?c"
    by (rule reader_read) (simp_all add: sample_tun_def Tun_start_def create_ok_def workers_live_def take_rx_def writer_works_def)
  moreover have "tun_step ?c SelectReader (reader_ended (reader_end ?c) ?c)"
    by (rule select_reader)
       (simp_all add: sample_tun_def Tun_start_def create_ok_def take_rx_def writer_works_def reader_works_def worker_of_def)
  ultimately show ?thesis
    unfolding sample_round_def Let_def by (rule reach_step [OF reach_step [OF reach_step [OF reach_step]]])
qed

lemma sample_round_state:
  "phase sample_round = AwaitWriter" "writer_end sample_round = Alive" "reader_end sample_round = Ended ReconnectRequired"
  "written sample_round = [[1]]" "rx sample_round = [[2]]" "put sample_round = [[1], [2]]" "event sample_round = ReconnectRequired"
  by (simp_all add: sample_round_def Let_def sample_tun_def Tun_start_def create_ok_def take_rx_def writer_works_def
      reader_works_def worker_of_def)

section \<open>Properties\<close>

text \<open>
  C28. The reader task hands every non-empty read to the coordinator with exactly the bytes of
  that read (never a byte of an earlier, longer packet that is still in the shared buffer),
  in order, until the first input that ends it; transient errors and a full queue do not end
  it, and the end message is the class of that last input.
\<close>

theorem worker_tun_reader_correct:
  "worker_tun_reader is =
    (List.map_filter reader_packet (takeWhile (\<lambda>i. reader_final i = (None :: 'te TunEvent option)) is),
     (case dropWhile (\<lambda>i. reader_final i = (None :: 'te TunEvent option)) is of
        [] \<Rightarrow> None | i # _ \<Rightarrow> (reader_final i :: 'te TunEvent option)))"
  unfolding worker_tun_reader_def by (rule reader_loop_correct) simp

text \<open>
  C26. The receiving end of the coordinator's channel is never lost across reconnects: whenever
  \<^verbatim>\<open>run\<close> creates a device it holds the receiver, and every packet the coordinator has put in
  the channel is either still queued, in order, or was taken by a writer exactly once; what was
  written to the device is a subsequence of what was taken. Both \<open>impossible\<close> arms of the two
  matches are indeed never taken.
\<close>

theorem tun_receiver_never_lost:
  assumes "tun_reachable s"
  shows "(phase s = Creating \<longrightarrow> holder s = Supervisor) \<and> put s = taken s @ rx s \<and>
    subseq (written s) (taken s) \<and>
    (phase s \<in> {AwaitWriter, AwaitReader} \<longrightarrow> event s \<in> {ReconnectRequired, FatalError})"
  using tun.inv_reachable [OF assms]
  by (auto simp: tun_inv_def holder_ok_def signals_ok_def split: phase.splits)

theorem tun_receiver_never_lost_witness:
  "tun_reachable sample_round \<and> put sample_round = taken sample_round @ rx sample_round \<and>
   rx sample_round = [[2]] \<and> event sample_round \<in> {ReconnectRequired, FatalError}"
  using tun_receiver_never_lost [OF sample_round_reachable] sample_round_reachable
  by (auto simp: sample_round_state)

text \<open>
  C27. The supervisor never waits for ever: in a round that a worker has ended, the other worker
  has its stop signal, so at most one stop step later the join is possible, and the join leads
  to a new device after \<open>ReconnectRequired\<close>, to the return of \<^verbatim>\<open>run\<close> after \<open>FatalError\<close>.
\<close>

theorem tun_round_ends:
  assumes "tun_reachable s" and "phase s \<in> {AwaitWriter, AwaitReader}"
    and "reader_end s \<noteq> Gone" and "writer_end s \<noteq> Gone"
  shows "\<exists>t u l l'. (t = s \<or> tun_step s l t) \<and> tun_step t l' u \<and> round_closed s u"
  using assms(2) await_writer_closes [OF tun.inv_reachable [OF assms(1)] _ assms(4)]
    await_reader_closes [OF tun.inv_reachable [OF assms(1)] _ assms(3)] by blast

theorem tun_round_ends_witness:
  "\<exists>t u l l'. (t = sample_round \<or> tun_step sample_round l t) \<and> tun_step t l' u \<and>
     round_closed sample_round u \<and> phase u = Creating \<and> rx u = [[2]]"
proof -
  obtain t u l l' where "t = sample_round \<or> tun_step sample_round l t" "tun_step t l' u" "round_closed sample_round u"
    using tun_round_ends [OF sample_round_reachable] by (auto simp: sample_round_state)
  moreover from this have "phase u = Creating" "rx u = [[2]]"
    by (simp_all add: round_closed_def sample_round_state)
  ultimately show ?thesis by blast
qed

end
