(* ===== verification/Mesh_Process.thy ===== *)
theory Mesh_Process
  imports Mesh_Progress Tun_Device
begin

text \<open>
  The running process: the node of \<open>Mesh_Node\<close> and the virtual interface of \<open>Tun_Device\<close>, joined
  by the two channels that \<^verbatim>\<open>main\<close> creates between the coordinator and the interface, and the
  final \<^verbatim>\<open>select!\<close> of \<^verbatim>\<open>main\<close>, which ends the process as soon as one of the three loops has
  ended. What one side puts in a channel is what the other side finds there, and the answers of
  \<^verbatim>\<open>try_send\<close> are those of the real queues: the interface sees a live coordinator, and the
  coordinator sees a closed channel once the interface has lost its receiving end.
\<close>

section \<open>State\<close>

datatype finished = CoordinatorEnded | IrohEnded | TunEnded

record ('pk, 'te) Process =
  proc_node :: "'pk Node"
  proc_tun :: "'te TunRun"
  finished :: "finished option"

definition proc_initial :: "('pk::linorder, 'te) Process \<Rightarrow> bool" where
  "proc_initial s \<longleftrightarrow> node_initial (proc_node s) \<and> Tun_initial (proc_tun s) \<and> rx (proc_tun s) = [] \<and>
     finished s = None"

text \<open>The three loops as \<^verbatim>\<open>main\<close> spawns them.\<close>

definition spawn_loops :: "'pk Node \<Rightarrow> ('pk, 'te) Process" where
  "spawn_loops n = \<lparr>proc_node = n, proc_tun = Tun_start, finished = None\<rparr>"

lemma spawn_loops_initial: "node_initial n \<Longrightarrow> proc_initial (spawn_loops n)"
  by (simp add: proc_initial_def spawn_loops_def Tun_initial_def Tun_start_def)

section \<open>The shared channels\<close>

text \<open>The packets a coordinator pass has queued, put in the channel of the interface.\<close>

definition put_new :: "'pk Node \<Rightarrow> 'pk Node \<Rightarrow> 'te TunRun \<Rightarrow> 'te TunRun" where
  "put_new n n' t =
     (let ps = drop (length (tx_to_tun (coord n))) (tx_to_tun (coord n'))
      in t\<lparr>rx := rx t @ ps, put := put t @ ps\<rparr>)"

text \<open>The packets the reader has sent, put in the channel of the coordinator, and what the
  writer has left in its own channel.\<close>

definition feed_node :: "'te TunRun \<Rightarrow> 'te TunRun \<Rightarrow> 'pk Node \<Rightarrow> 'pk Node" where
  "feed_node t t' n =
     (let ps = drop (length (read_out t)) (read_out t')
      in n\<lparr>coord := (coord n)\<lparr>tx_to_tun := rx t'\<rparr>, from_tun := from_tun n @ ps, host_sent := host_sent n @ ps\<rparr>)"

text \<open>
  What the coordinator may find when it writes to the interface: a live channel as long as the
  receiver exists, a closed one when it was lost with the writer, and either of them while the
  tasks of a returned interface are torn down.
\<close>

definition tun_channel :: "'te TunRun \<Rightarrow> bool \<Rightarrow> bool" where
  "tun_channel t alive \<longleftrightarrow> (if holder t = Lost then \<not> alive else phase t = Returned \<or> alive)"

text \<open>The next message of a branch of the coordinator's \<^verbatim>\<open>select!\<close>, as an event of the core, with
  the node after it was received.\<close>

fun coord_takes :: "'pk Node \<Rightarrow> 'pk coord_input \<Rightarrow> ('pk Event \<times> 'pk Node) option" where
  "coord_takes n (RecvIroh (Some ev)) =
     (case to_coord (mgr n) of
        e # q \<Rightarrow> if e = ev then Some (map_iroh_event_to_core_event ev, n\<lparr>mgr := (mgr n)\<lparr>to_coord := q\<rparr>\<rparr>) else None
      | [] \<Rightarrow> None)"
| "coord_takes n (RecvTun (Some p)) =
     (case from_tun n of
        p' # q \<Rightarrow> if p' = p then Some (PacketFromTun p, n\<lparr>from_tun := q\<rparr>) else None
      | [] \<Rightarrow> None)"
| "coord_takes n _ = None"

section \<open>Steps\<close>

datatype 'pk proc_label =
    NodePart "'pk node_label"
  | CoordPass "nat \<Rightarrow> TrySend" "'pk coord_input"
  | TunPart tun_label
  | Ends finished

fun node_part :: "'pk node_label \<Rightarrow> bool" where
  "node_part (CoordIroh ans) \<longleftrightarrow> False"
| "node_part (CoordTun ans) \<longleftrightarrow> False"
| "node_part (HostSends p) \<longleftrightarrow> False"
| "node_part HostTakes \<longleftrightarrow> False"
| "node_part _ \<longleftrightarrow> True"

text \<open>The steps of the interface whose channel is alive at the other end.\<close>

fun tun_part_of :: "'pk Node \<Rightarrow> tun_label \<Rightarrow> bool" where
  "tun_part_of n (CoordPuts p) \<longleftrightarrow> False"
| "tun_part_of n (WriterStep RecvClosed) \<longleftrightarrow> False"
| "tun_part_of n (ReaderStep (DeviceRead r answer)) \<longleftrightarrow> answer = try_send INTERMOD_CHANNEL_CAPACITY (from_tun n)"
| "tun_part_of n _ \<longleftrightarrow> True"

inductive proc_step :: "('pk::linorder, 'te) Process \<Rightarrow> 'pk proc_label \<Rightarrow> ('pk, 'te) Process \<Rightarrow> bool" where
  node_works: "finished s = None \<Longrightarrow> node_part l \<Longrightarrow> node_step (proc_node s) l n' \<Longrightarrow>
     proc_step s (NodePart l) (s\<lparr>proc_node := n', proc_tun := put_new (proc_node s) n' (proc_tun s)\<rparr>)"
| coord_passes: "finished s = None \<Longrightarrow> pending (proc_node s) = [] \<Longrightarrow>
     coord_takes (proc_node s) i = Some (e, m) \<Longrightarrow> tun_channel (proc_tun s) alive \<Longrightarrow>
     pass_answers alive ans (coord (proc_node s)) e \<Longrightarrow>
     coord_run_pass ans (coord (proc_node s)) i = Some r \<Longrightarrow> put_coord m r = Some n' \<Longrightarrow>
     proc_step s (CoordPass ans i) (s\<lparr>proc_node := n', proc_tun := put_new (proc_node s) n' (proc_tun s)\<rparr>)"
| coord_fails: "finished s = None \<Longrightarrow> pending (proc_node s) = [] \<Longrightarrow>
     coord_takes (proc_node s) i = Some (e, m) \<Longrightarrow> tun_channel (proc_tun s) alive \<Longrightarrow>
     pass_answers alive ans (coord (proc_node s)) e \<Longrightarrow>
     coord_run_pass ans (coord (proc_node s)) i \<in> {None, Some Stop} \<Longrightarrow>
     proc_step s (Ends CoordinatorEnded) (s\<lparr>finished := Some CoordinatorEnded\<rparr>)"
| coord_eof: "finished s = None \<Longrightarrow> from_tun (proc_node s) = [] \<Longrightarrow> phase (proc_tun s) = Returned \<Longrightarrow>
     coord_run_pass ans (coord (proc_node s)) (RecvTun None) = Some Stop \<Longrightarrow>
     proc_step s (Ends CoordinatorEnded) (s\<lparr>finished := Some CoordinatorEnded\<rparr>)"
| iroh_fails: "finished s = None \<Longrightarrow> awaiting (mgr (proc_node s)) = None \<Longrightarrow> inbox (proc_node s) = ev # q \<Longrightarrow>
     run_iteration (mgr (proc_node s)) (RecvTasks (Some ev)) = None \<Longrightarrow>
     proc_step s (Ends IrohEnded) (s\<lparr>finished := Some IrohEnded\<rparr>)"
| tun_works: "finished s = None \<Longrightarrow> tun_part_of (proc_node s) l \<Longrightarrow> tun_step (proc_tun s) l t' \<Longrightarrow>
     proc_step s (TunPart l) (s\<lparr>proc_tun := t', proc_node := feed_node (proc_tun s) t' (proc_node s)\<rparr>)"
| tun_returns: "finished s = None \<Longrightarrow> phase (proc_tun s) = Returned \<Longrightarrow>
     proc_step s (Ends TunEnded) (s\<lparr>finished := Some TunEnded\<rparr>)"

abbreviation proc_reachable :: "('pk::linorder, 'te) Process \<Rightarrow> bool" where
  "proc_reachable \<equiv> reachable proc_initial proc_step"

lemmas proc_path_step = path_step [where step = proc_step]

section \<open>The process runs its parts\<close>

text \<open>A pass of the node only appends to the channel of the interface.\<close>

lemma handle_actions_tun_grows:
  "handle_actions ans s as \<in> {Done t, Suspended t bs, ChannelWasClosed t} \<Longrightarrow> \<exists>ps. tx_to_tun t = tx_to_tun s @ ps"
proof (induction as arbitrary: ans s)
  case (Cons a as)
  then show ?case by (cases a; cases "ans 0") (auto, fastforce+)
qed auto

lemma coord_pass_tun_grows:
  assumes "handle_core_input ans (coord n) e = Some r" and "put_coord m (after_handler r) = Some n'"
  shows "\<exists>ps. tx_to_tun (coord n') = tx_to_tun (coord n) @ ps"
proof -
  obtain c acts where c: "process (core (coord n)) e = Some (c, acts)"
    using assms(1) by (auto simp: handle_core_input_def split: option.splits)
  with assms handle_actions_tun_grows [of ans "(coord n)\<lparr>core := c\<rparr>" acts] show ?thesis
    by (cases r) (auto simp: handle_core_input_def put_coord_def)
qed

lemma node_step_tun_grows:
  assumes "node_step n l n'" and "l \<noteq> HostTakes"
  shows "\<exists>ps. tx_to_tun (coord n') = tx_to_tun (coord n) @ ps"
  using assms
proof (cases rule: node_step.cases)
  case (coord_iroh ev q ans r)
  then show ?thesis
    using coord_pass_tun_grows [of ans n "map_iroh_event_to_core_event ev" _ "n\<lparr>mgr := (mgr n)\<lparr>to_coord := q\<rparr>\<rparr>" n']
    by (auto simp: handle_iroh_event_def)
next
  case (coord_tun p q ans r)
  then show ?thesis
    using coord_pass_tun_grows [of ans n "PacketFromTun p" _ "n\<lparr>from_tun := q\<rparr>" n']
    by (auto simp: handle_packet_from_tun_def)
next
  case (coord_resume ans)
  then show ?thesis
    using handle_actions_tun_grows [of ans "coord n" "pending n"]
    by (cases "handle_actions ans (coord n) (pending n)") (auto simp: put_coord_def)
qed (auto simp: apply_session_def Let_def split: prod.splits)

lemma put_all_reachable:
  "tun_reachable t \<Longrightarrow> tun_reachable (t\<lparr>rx := rx t @ ps, put := put t @ ps\<rparr>)"
proof (induction ps arbitrary: t)
  case (Cons p ps)
  let ?u = "t\<lparr>rx := rx t @ [p], put := put t @ [p]\<rparr>"
  have "tun_reachable ?u" by (rule reach_step [OF Cons.prems coord_puts])
  from Cons.IH [OF this] show ?case by simp
qed simp

text \<open>A completed pass of the coordinator is a step of the node, and an open channel never ends
  its loop.\<close>

lemma coord_pass_node_step:
  assumes inv: "node_inv n" and take: "coord_takes n i = Some (e, m)" and pa: "pass_answers alive ans (coord n) e"
    and pass: "coord_run_pass ans (coord n) i = Some r" and put: "put_coord m r = Some n'"
  shows "\<exists>l. node_step n l n' \<and> l \<noteq> HostTakes"
proof -
  have ci: "core_inv (core (coord n))" and pend: "pending n = []" using inv by (simp_all add: node_inv_def)
  have honest: "honest_pass ans (coord n) e"
    if h: "handle_core_input ans (coord n) e = Some hr" "r = after_handler hr" "expected_event (core (coord n)) e" for hr
  proof -
    obtain d acts where d: "process (core (coord n)) e = Some (d, acts)" using core.process_total [OF ci] by metis
    have "handle_actions ans ((coord n)\<lparr>core := d\<rparr>) acts \<noteq> Suspended u bs" for u bs
      by (rule handle_actions_no_suspend [OF expected_no_disconnect [OF ci h(3) d]])
    with h(1,2) d put obtain u where "handle_actions ans ((coord n)\<lparr>core := d\<rparr>) acts = Done u"
      by (cases hr) (auto simp: handle_core_input_def put_coord_def)
    with answers_Done [of alive ans] pa d show ?thesis by (auto simp: pass_answers_def)
  qed
  from take show ?thesis
  proof (cases "(n, i)" rule: coord_takes.cases)
    case (1 m' ev)
    with take obtain q where q: "to_coord (mgr n) = ev # q" "e = map_iroh_event_to_core_event ev"
      "m = n\<lparr>mgr := (mgr n)\<lparr>to_coord := q\<rparr>\<rparr>" by (auto split: list.splits if_splits)
    have "expected_event (core (coord n)) e" using node_inv_iroh_event [OF inv] q by simp
    with honest 1 pass q have "honest_pass ans (coord n) e" by (auto simp: handle_iroh_event_def)
    with node_step.coord_iroh [OF pend q(1)] 1 pass put q show ?thesis by blast
  next
    case (2 m' p)
    with take obtain q where q: "from_tun n = p # q" "e = PacketFromTun p" "m = n\<lparr>from_tun := q\<rparr>"
      by (auto split: list.splits if_splits)
    with honest 2 pass have "honest_pass ans (coord n) e" by (auto simp: handle_packet_from_tun_def expected_event_def)
    with node_step.coord_tun [OF pend q(1)] 2 pass put q show ?thesis by blast
  qed auto
qed

lemma honest_not_closed: "honest ans s as \<Longrightarrow> handle_actions ans s as \<noteq> ChannelWasClosed t"
proof (induction as arbitrary: ans s)
  case (Cons a as)
  then show ?case by (cases a; cases "ans 0") (auto simp: not_sym [OF try_send_open])
qed simp

lemma live_coord_goes_on:
  assumes inv: "node_inv n" and take: "coord_takes n i = Some (e, m)" and pa: "honest_pass ans (coord n) e"
  shows "coord_run_pass ans (coord n) i \<notin> {None, Some Stop}"
proof -
  have ci: "core_inv (core (coord n))" using inv by (simp add: node_inv_def)
  obtain d acts where d: "process (core (coord n)) e = Some (d, acts)" using core.process_total [OF ci] by metis
  let ?h = "handle_actions ans ((coord n)\<lparr>core := d\<rparr>) acts"
  have "?h \<noteq> ChannelWasClosed u" for u
    using honest_not_closed pa d unfolding pass_answers_def by blast
  then have "after_handler ?h \<noteq> Stop" by (cases ?h) auto
  with take d show ?thesis
    by (cases "(n, i)" rule: coord_takes.cases)
       (auto simp: handle_iroh_event_def handle_packet_from_tun_def handle_core_input_def split: list.splits if_splits)
qed

text \<open>A step of the interface is no step of the node, or the host sends or takes a packet.\<close>

lemma reader_pass_sends:
  "tun_reader_pass b (DeviceRead r a) = (b', sent, done) \<Longrightarrow> sent = [] \<or> a = Sent \<and> (\<exists>p. sent = [p])"
  by (cases "(b, DeviceRead r a)" rule: tun_reader_pass.cases)
     (auto simp: Let_def split: prod.splits if_splits TrySend.splits TunEvent.splits)

lemma feed_node_fields:
  "tx_to_tun (coord (feed_node t t' n)) = rx t'"
  "host_sent (feed_node t t' n) = host_sent n @ drop (length (read_out t)) (read_out t')"
  by (simp_all add: feed_node_def Let_def)

lemma feed_node_same:
  assumes "rx t = tx_to_tun (coord n)" and "rx t' = rx t" and "read_out t' = read_out t"
  shows "feed_node t t' n = n"
  using assms by (cases n; cases "coord n") (simp add: feed_node_def)

lemma feed_node_takes:
  assumes "rx t = tx_to_tun (coord n)" and "rx t = p # rx t'" and "read_out t' = read_out t"
  shows "node_step n HostTakes (feed_node t t' n)"
  using node_step.host_takes [of n p "rx t'"] assms by (simp add: feed_node_def)

lemma feed_node_sends:
  assumes "rx t = tx_to_tun (coord n)" and "rx t' = rx t" and "read_out t' = read_out t @ [p]"
    and "try_send INTERMOD_CHANNEL_CAPACITY (from_tun n) = Sent"
  shows "node_step n (HostSends p) (feed_node t t' n)"
proof -
  have "feed_node t t' n = n\<lparr>from_tun := from_tun n @ [p], host_sent := host_sent n @ [p]\<rparr>"
    using assms(1-3) by (cases n; cases "coord n") (simp add: feed_node_def Let_def)
  with node_step.host_sends [of n p] assms(4) show ?thesis by (simp add: offer_def)
qed

lemma tun_step_feeds:
  assumes step: "tun_step t l t'" and part: "tun_part_of n l" and rx: "rx t = tx_to_tun (coord n)"
  shows "feed_node t t' n = n \<and> rx t' = rx t \<and> read_out t' = read_out t \<or>
    (\<exists>p. node_step n (HostSends p) (feed_node t t' n) \<and> rx t' = rx t \<and> read_out t' = read_out t @ [p]) \<or>
    (\<exists>p. node_step n HostTakes (feed_node t t' n) \<and> rx t = p # rx t' \<and> read_out t' = read_out t)"
    and "put t' = put t"
proof -
  show "feed_node t t' n = n \<and> rx t' = rx t \<and> read_out t' = read_out t \<or>
    (\<exists>p. node_step n (HostSends p) (feed_node t t' n) \<and> rx t' = rx t \<and> read_out t' = read_out t @ [p]) \<or>
    (\<exists>p. node_step n HostTakes (feed_node t t' n) \<and> rx t = p # rx t' \<and> read_out t' = read_out t)"
    using step
  proof (cases rule: tun_step.cases)
    case (reader_read r a)
    obtain b sent d where p: "tun_reader_pass (buf t) (DeviceRead r a) = (b, sent, d :: 'a TunEvent option)"
      by (metis prod_cases3)
    have t': "rx t' = rx t" "read_out t' = read_out t @ sent" using reader_read p by (simp_all add: reader_works_def)
    from reader_pass_sends [OF p] show ?thesis
    proof
      assume "sent = []"
      with t' feed_node_same [OF rx] show ?thesis by simp
    next
      assume "a = Sent \<and> (\<exists>p. sent = [p])"
      with t' feed_node_sends [OF rx] part reader_read show ?thesis by auto
    qed
  next
    case (writer_recv p q r)
    then have "rx t = p # rx t'" "read_out t' = read_out t"
      by (simp_all add: writer_works_def take_rx_def split: prod.splits)
    with feed_node_takes [OF rx] show ?thesis by blast
  next
    case select_reader
    with feed_node_same [OF rx, of t'] show ?thesis by (cases "reader_end t") simp_all
  next
    case select_writer
    with feed_node_same [OF rx, of t'] show ?thesis by (cases "writer_end t") simp_all
  next
    case join_writer
    with feed_node_same [OF rx, of t'] show ?thesis by (cases "writer_end t") simp_all
  next
    case join_reader
    with feed_node_same [OF rx, of t'] show ?thesis by (cases "reader_end t") simp_all
  qed (use part feed_node_same [OF rx, of t'] in \<open>auto simp: create_failed_def create_ok_def reader_works_def
      writer_works_def split: prod.splits\<close>)
  show "put t' = put t"
    using step part
    by (cases rule: tun_step.cases; cases "reader_end t"; cases "writer_end t")
       (auto simp: create_failed_def create_ok_def reader_works_def writer_works_def take_rx_def split: prod.splits)
qed

section \<open>Invariant\<close>

definition authentic :: "'pk Node \<Rightarrow> bytes \<Rightarrow> bool" where
  "authentic n p \<longleftrightarrow> (\<exists>k. (p, k) \<in> set (arrived n) \<and> ingress_ok (core (coord n)) p k)"

definition proc_inv :: "('pk::linorder, 'te) Process \<Rightarrow> bool" where
  "proc_inv s \<longleftrightarrow> node_reachable (proc_node s) \<and> tun_reachable (proc_tun s) \<and>
     rx (proc_tun s) = tx_to_tun (coord (proc_node s)) \<and> read_out (proc_tun s) = host_sent (proc_node s) \<and>
     (\<forall>p \<in> set (put (proc_tun s)). authentic (proc_node s) p) \<and>
     (finished s \<noteq> None \<longrightarrow> finished s \<noteq> Some IrohEnded \<and>
        (phase (proc_tun s) = Returned \<or> holder (proc_tun s) = Lost))"

lemma node_grows_refl: "node_grows n n"
  by (simp add: node_grows_def)

lemma authentic_grows: "node_grows n n' \<Longrightarrow> authentic n p \<Longrightarrow> authentic n' p"
  using egress_config(2) [of "core (coord n')" "core (coord n)"] by (auto simp: authentic_def node_grows_def)

lemma proc_inv_node:
  assumes inv: "proc_inv s" and step: "node_step (proc_node s) l n'" "l \<noteq> HostTakes" and run: "finished s = None"
    and host: "host_sent n' = host_sent (proc_node s)"
  shows "proc_inv (s\<lparr>proc_node := n', proc_tun := put_new (proc_node s) n' (proc_tun s)\<rparr>)"
proof -
  let ?n = "proc_node s" and ?t = "proc_tun s"
  obtain ps where ps: "tx_to_tun (coord n') = tx_to_tun (coord ?n) @ ps" using node_step_tun_grows [OF step] by blast
  have n: "node_reachable ?n" "node_reachable n'" using inv step(1) by (auto simp: proc_inv_def intro: reach_step)
  have g: "node_grows ?n n'" using node_step_grows [OF step(1)] node.inv_reachable [OF n(1)] by blast
  have "authentic n' p" if "p \<in> set ps" for p
    using node_invD [OF n(2)] that ps unfolding authentic_def by (metis Un_iff set_append)
  with inv g ps n(2) host run put_all_reachable [of ?t ps] show ?thesis
    by (auto simp: proc_inv_def put_new_def intro: authentic_grows)
qed

lemma node_part_host_sent: "node_step n l n' \<Longrightarrow> node_part l \<Longrightarrow> host_sent n' = host_sent n"
  by (induction rule: node_step.induct)
     (auto simp: put_coord_def apply_session_def Let_def split: coord_pass.splits prod.splits)

lemma coord_takes_host_sent:
  "coord_takes n i = Some (e, m) \<Longrightarrow> put_coord m r = Some n' \<Longrightarrow> host_sent n' = host_sent n"
  by (cases "(n, i)" rule: coord_takes.cases)
     (auto simp: put_coord_def split: coord_pass.splits list.splits if_splits)

lemma proc_inv_tun:
  assumes inv: "proc_inv s" and run: "finished s = None" and part: "tun_part_of (proc_node s) l"
    and step: "tun_step (proc_tun s) l t'"
  shows "proc_inv (s\<lparr>proc_tun := t', proc_node := feed_node (proc_tun s) t' (proc_node s)\<rparr>)"
proof -
  let ?n = "proc_node s" and ?t = "proc_tun s" and ?n' = "feed_node (proc_tun s) t' (proc_node s)"
  have rx: "rx ?t = tx_to_tun (coord ?n)" and n: "node_reachable ?n" and t: "tun_reachable t'"
    using inv step by (auto simp: proc_inv_def intro: reach_step)
  note f = tun_step_feeds [OF step part rx]
  have reach: "node_reachable ?n'" using f(1) n by (auto intro: reach_step)
  have "node_grows ?n ?n'"
    using f(1) node_step_grows [OF _ node.inv_reachable [OF n]] node_grows_refl by metis
  moreover have "rx t' = tx_to_tun (coord ?n')" "read_out t' = host_sent ?n'"
    using f(1) inv by (auto simp: feed_node_fields proc_inv_def)
  ultimately show ?thesis using inv run t reach f(2) by (auto simp: proc_inv_def intro: authentic_grows)
qed

lemma proc_step_inv: "proc_step s l s' \<Longrightarrow> proc_inv s \<Longrightarrow> proc_inv s'"
proof (induction rule: proc_step.induct)
  case (node_works s l n')
  moreover have "l \<noteq> HostTakes" using node_works by auto
  ultimately show ?case by (intro proc_inv_node) (auto intro: node_part_host_sent)
next
  case (coord_passes s i e m alive ans r n')
  have "node_inv (proc_node s)" using coord_passes by (auto simp: proc_inv_def intro: node.inv_reachable)
  from coord_pass_node_step [OF this] coord_passes obtain l where "node_step (proc_node s) l n'" "l \<noteq> HostTakes" by metis
  with coord_passes show ?case by (auto intro: proc_inv_node coord_takes_host_sent)
next
  case (coord_fails s i e m alive ans)
  have "node_inv (proc_node s)" using coord_fails by (auto simp: proc_inv_def intro: node.inv_reachable)
  from live_coord_goes_on [OF this] coord_fails have "alive = False" by metis
  with coord_fails show ?case by (auto simp: proc_inv_def tun_channel_def split: if_splits)
next
  case (coord_eof s ans)
  then show ?case by (simp add: proc_inv_def)
next
  case (iroh_fails s ev q)
  then have "node_reachable (proc_node s)" by (simp add: proc_inv_def)
  from reports.inv_reachable [OF this] iroh_fails show ?case by (cases ev) auto
next
  case (tun_works s l t')
  then show ?case by (intro proc_inv_tun)
next
  case (tun_returns s)
  then show ?case by (simp add: proc_inv_def)
qed

interpretation proc: inductive_invariant proc_initial proc_step proc_inv
proof
  show "proc_inv s" if "proc_initial s" for s :: "('a::linorder, 'b) Process"
    using that node_initial_queues [of "proc_node s"]
    by (auto simp: proc_initial_def proc_inv_def Tun_initial_def intro: reach_init)
qed (rule proc_step_inv)

lemmas proc_invD = proc.inv_reachable [unfolded proc_inv_def]

lemma written_authentic:
  assumes "proc_reachable s" and "p \<in> set (written (proc_tun s))"
  shows "authentic (proc_node s) p"
proof -
  have "tun_inv (proc_tun s)" using proc_invD [OF assms(1)] tun.inv_reachable by blast
  then have "p \<in> set (put (proc_tun s))"
    using assms(2) by (auto simp: tun_inv_def elim: list_emb_set)
  then show ?thesis using proc_invD [OF assms(1)] by blast
qed

lemma wire_outbound:
  assumes "proc_reachable s" and "(p, k) \<in> set (wire (proc_node s))"
  shows "p \<in> set (read_out (proc_tun s)) \<and> egress_ok (core (coord (proc_node s))) p k"
proof -
  have n: "node_reachable (proc_node s)" "read_out (proc_tun s) = host_sent (proc_node s)"
    using proc_invD [OF assms(1)] by blast+
  have "outbound (proc_node s) p k" using node_invD [OF n(1)] assms(2) by blast
  with n(2) show ?thesis by (simp add: outbound_def)
qed

section \<open>The data path\<close>

text \<open>While the interface holds its receiver, the process can do what the node can do.\<close>

fun carried :: "'pk node_label \<Rightarrow> bool" where
  "carried (HostSends p) \<longleftrightarrow> False"
| "carried HostTakes \<longleftrightarrow> False"
| "carried _ \<longleftrightarrow> True"

text \<open>The datagram a step reads, with the session that reads it, and the step of the process that
  carries out a step of the node.\<close>

fun reads :: "'pk proc_label \<Rightarrow> (nat \<times> bytes) option" where
  "reads (NodePart (Session t (ReadDatagram (Inr p) answer))) = Some (t, p)"
| "reads _ = None"

definition lifts :: "'pk node_label \<Rightarrow> 'pk proc_label \<Rightarrow> bool" where
  "lifts l m \<longleftrightarrow> (if node_part l then m = NodePart l else (\<exists>ans i. m = CoordPass ans i))"

lemma lift_step:
  assumes "node_step (proc_node s) l n'" and "carried l" and "finished s = None" and "tun_channel (proc_tun s) True"
  shows "\<exists>l'. lifts l l' \<and> proc_step s l' (s\<lparr>proc_node := n', proc_tun := put_new (proc_node s) n' (proc_tun s)\<rparr>)"
proof (cases "node_part l")
  case True
  with assms node_works show ?thesis by (auto simp: lifts_def)
next
  case False
  from assms(1) show ?thesis
  proof (cases rule: node_step.cases)
    case (coord_iroh ev q ans r)
    with assms(3,4) proc_step.coord_passes [of s "RecvIroh (Some ev)" _ _ True ans r n'] show ?thesis by (auto simp: lifts_def)
  next
    case (coord_tun p q ans r)
    with assms(3,4) proc_step.coord_passes [of s "RecvTun (Some p)" _ _ True ans r n'] show ?thesis by (auto simp: lifts_def)
  qed (use False assms(2) in auto)
qed

lemma lift_path:
  assumes "node_path n ls n'" and "proc_node s = n" and "finished s = None" and "tun_channel (proc_tun s) True"
    and "list_all carried ls"
  shows "\<exists>ms s' ps. schedule proc_step s ms s' \<and> list_all2 lifts ls ms \<and> proc_node s' = n' \<and> finished s' = None \<and>
    proc_tun s' = (proc_tun s)\<lparr>rx := rx (proc_tun s) @ ps, put := put (proc_tun s) @ ps\<rparr>"
  using assms
proof (induction arbitrary: s rule: schedule.induct)
  case (path_end n)
  then show ?case by (intro exI [of _ "[]"] exI [of _ s]) (auto intro: schedule.path_end)
next
  case (path_step n l m ls n')
  let ?s = "s\<lparr>proc_node := m, proc_tun := put_new n m (proc_tun s)\<rparr>"
  obtain l' where l': "lifts l l'" "proc_step s l' ?s" using lift_step [of s l m] path_step by auto
  have "tun_channel (proc_tun ?s) True" using path_step.prems(3) by (simp add: tun_channel_def put_new_def Let_def split: if_splits)
  then obtain ms s' ps where "schedule proc_step ?s ms s'" "list_all2 lifts ls ms" "proc_node s' = n'" "finished s' = None"
    "proc_tun s' = (proc_tun ?s)\<lparr>rx := rx (proc_tun ?s) @ ps, put := put (proc_tun ?s) @ ps\<rparr>"
    using path_step.IH [of ?s] path_step.prems by auto
  with l' show ?case
    by (intro exI [of _ "l' # ms"] exI [of _ s']) (auto simp: put_new_def Let_def intro: proc_path_step)
qed

lemma writer_channel:
  assumes "proc_reachable s" and "workers_live (proc_tun s)" and "writer_end (proc_tun s) = Alive"
  shows "tun_channel (proc_tun s) True"
proof -
  have "tun_causes (proc_tun s)" using proc_invD [OF assms(1)] causes.inv_reachable by blast
  with assms(3) show ?thesis by (auto simp: tun_causes_def tun_channel_def)
qed

text \<open>A process is serving when it runs and its interface is up, and ready when in addition nothing
  is in flight.\<close>

definition serving :: "('pk, 'te) Process \<Rightarrow> bool" where
  "serving s \<longleftrightarrow> finished s = None \<and> workers_live (proc_tun s) \<and> reader_end (proc_tun s) = Alive \<and>
     writer_end (proc_tun s) = Alive"

definition ready :: "('pk, 'te) Process \<Rightarrow> bool" where
  "ready s \<longleftrightarrow> serving s \<and> calm (proc_node s) \<and> rx (proc_tun s) = []"

lemma readyD:
  assumes "proc_reachable s" and "ready s"
  shows "finished s = None" "calm (proc_node s)" "rx (proc_tun s) = []" "tx_to_tun (coord (proc_node s)) = []"
    "workers_live (proc_tun s)" "reader_end (proc_tun s) = Alive" "writer_end (proc_tun s) = Alive"
    "tun_channel (proc_tun s) True"
  using assms(2) proc_invD [OF assms(1)] writer_channel [OF assms(1)] by (auto simp: ready_def serving_def)

lemma writer_writes:
  assumes s: "proc_reachable s" "serving s" and rx: "rx (proc_tun s) = p # q"
  obtains s' where "proc_step s (TunPart (WriterStep (RecvPacket p None))) s'" "serving s'"
    "written (proc_tun s') = written (proc_tun s) @ [p]" "rx (proc_tun s') = q"
    "mgr (proc_node s') = mgr (proc_node s)" "calm (proc_node s') = calm (proc_node s)" "inbox (proc_node s') = inbox (proc_node s)"
    "arrived (proc_node s') = arrived (proc_node s)" "core (coord (proc_node s')) = core (coord (proc_node s))"
proof -
  let ?w = "writer_works (RecvPacket p None) (take_rx (proc_tun s))"
  let ?s = "s\<lparr>proc_tun := ?w, proc_node := feed_node (proc_tun s) ?w (proc_node s)\<rparr>"
  have "tun_step (proc_tun s) (WriterStep (RecvPacket p None)) ?w"
    using s(2) rx by (intro writer_recv) (simp_all add: serving_def workers_live_def)
  from proc_step.tun_works [OF _ _ this] s(2) have "proc_step s (TunPart (WriterStep (RecvPacket p None))) ?s"
    by (simp add: serving_def)
  then show thesis
    by (rule that)
       (use s(2) rx in \<open>simp_all add: serving_def workers_live_def worker_of_def calm_def writer_works_def take_rx_def feed_node_def Let_def\<close>)
qed

lemma device_write_schedule:
  assumes s: "proc_reachable s" and ready: "ready s" and task: "tasks (mgr (proc_node s)) t = Some (SessionTask c ch)"
    and ok: "ingress_ok (core (coord (proc_node s))) p (remote_id c)"
  shows "\<exists>ans i s'. schedule proc_step s [NodePart (Session t (ReadDatagram (Inr p) Sent)), CoordPass ans i,
      TunPart (WriterStep (RecvPacket p None))] s' \<and>
    arrived (proc_node s') = arrived (proc_node s) @ [(p, remote_id c)] \<and>
    written (proc_tun s') = written (proc_tun s) @ [p] \<and> ready s' \<and> same_sessions (proc_node s) (proc_node s')"
proof -
  note rd = readyD [OF s ready]
  have n: "node_reachable (proc_node s)" using proc_invD [OF s] by blast
  obtain n' where np: "node_path (proc_node s) [Session t (ReadDatagram (Inr p) Sent), CoordIroh (\<lambda>_. Sent)] n'"
    and n': "tx_to_tun (coord n') = [p]" "arrived n' = arrived (proc_node s) @ [(p, remote_id c)]" "calm n'"
      "same_sessions (proc_node s) n'"
    using inbound_schedule [OF n rd(2) task ok] rd(4) by force
  obtain ms s' ps where ms: "schedule proc_step s ms s'" "proc_node s' = n'" "finished s' = None"
    and l: "list_all2 lifts [Session t (ReadDatagram (Inr p) Sent), CoordIroh (\<lambda>_. Sent)] ms"
    and t': "proc_tun s' = (proc_tun s)\<lparr>rx := rx (proc_tun s) @ ps, put := put (proc_tun s) @ ps\<rparr>"
    using lift_path [OF np refl rd(1,8)] by auto
  from l obtain ans i where l: "ms = [NodePart (Session t (ReadDatagram (Inr p) Sent)), CoordPass ans i]"
    by (auto simp: lifts_def list_all2_Cons1)
  have r': "proc_reachable s'" by (rule path_reachable [OF ms(1) s])
  have rx': "rx (proc_tun s') = [p]" using proc_invD [OF r'] ms(2) n' by simp
  have sv: "serving s'" using rd ms(3) by (simp add: t' serving_def workers_live_def)
  obtain u where u: "proc_step s' (TunPart (WriterStep (RecvPacket p None))) u" "serving u"
    "written (proc_tun u) = written (proc_tun s') @ [p]" "rx (proc_tun u) = []" "mgr (proc_node u) = mgr (proc_node s')"
    "calm (proc_node u) = calm (proc_node s')" "arrived (proc_node u) = arrived (proc_node s')"
    by (rule writer_writes [OF r' sv rx'])
  have "schedule proc_step s (ms @ [TunPart (WriterStep (RecvPacket p None))]) u"
    by (rule path_append [OF ms(1) proc_path_step [OF u(1) path_end]])
  moreover have "same_sessions (proc_node s) (proc_node u)" using n'(4) u(5) ms(2) by (simp add: same_sessions_def)
  ultimately show ?thesis
    using u n'(2,3) ms(2) t' l by (intro exI [of _ ans] exI [of _ i] exI [of _ u]) (simp add: ready_def)
qed

lemma device_read_schedule:
  assumes s: "proc_reachable s" and ready: "ready s"
    and up: "state_table (mgr (proc_node s)) k = Some (Connected t c ch)"
      "tasks (mgr (proc_node s)) t = Some (SessionTask c ch)" "channels (mgr (proc_node s)) ch = Some []"
    and ok: "egress_ok (core (coord (proc_node s))) (take READ_BUFFER data) k" and data: "data \<noteq> []"
  shows "\<exists>ans i s'. schedule proc_step s [TunPart (ReaderStep (DeviceRead (Inr data) Sent)), CoordPass ans i,
      NodePart (MgrCoord Sent), NodePart (Session t (RecvFromManager (Some (take READ_BUFFER data)) None))] s' \<and>
    wire (proc_node s') = wire (proc_node s) @ [(take READ_BUFFER data, k)] \<and>
    written (proc_tun s') = written (proc_tun s) \<and> ready s' \<and> same_sessions (proc_node s) (proc_node s')"
proof -
  let ?n = "proc_node s" and ?t = "proc_tun s" and ?p = "take READ_BUFFER data" and ?i = "DeviceRead (Inr data) Sent"
  let ?t' = "reader_works ?i ?t"
  let ?n1 = "feed_node ?t ?t' ?n"
  let ?s1 = "s\<lparr>proc_tun := ?t', proc_node := ?n1\<rparr>"
  note rd = readyD [OF s ready]
  have n: "node_reachable ?n" "rx ?t = tx_to_tun (coord ?n)" "tun_causes ?t"
    using proc_invD [OF s] causes.inv_reachable by blast+
  then have "length (buf ?t) = READ_BUFFER" using rd(5) by (simp add: tun_causes_def)
  from reader_pass_correct [OF this, of ?i, where 'te = 'b] data obtain b
    where "tun_reader_pass (buf ?t) ?i = (b, [?p], None :: 'b TunEvent option)" by auto
  then have t': "read_out ?t' = read_out ?t @ [?p]" "rx ?t' = rx ?t" "phase ?t' = phase ?t" "holder ?t' = holder ?t"
    "written ?t' = written ?t" "reader_end ?t' = reader_end ?t" "writer_end ?t' = writer_end ?t"
    using rd(6) by (simp_all add: reader_works_def worker_of_def)
  have "tun_step ?t (ReaderStep ?i) ?t'" using rd(5,6) by (intro reader_read)
  from proc_step.tun_works [OF rd(1) _ this] rd(2) have p1: "proc_step s (TunPart (ReaderStep ?i)) ?s1" by (simp add: calm_def)
  have h: "node_step ?n (HostSends ?p) ?n1"
    using rd(2) by (intro feed_node_sends [OF n(2) t'(2,1)]) (simp add: calm_def)
  let ?ls = "[CoordTun (\<lambda>_. Sent), MgrCoord Sent, Session t (RecvFromManager (Some ?p) None)]"
  obtain n' where np: "node_path ?n (HostSends ?p # ?ls) n'" "wire n' = wire ?n @ [(?p, k)]" "calm n'"
      "tx_to_tun (coord n') = tx_to_tun (coord ?n)" "same_sessions ?n n'"
    using outbound_schedule [OF n(1) rd(2) up ok] by blast
  then obtain n2 where n2: "node_step ?n (HostSends ?p) n2" "node_path n2 ?ls n'" by (auto elim: schedule.cases)
  moreover have "n2 = ?n1" using n2(1) h by (auto elim!: node_step.cases)
  ultimately have p2: "node_path ?n1 ?ls n'" by simp
  have "tun_channel (proc_tun ?s1) True"
    using rd(8) t' by (simp add: tun_channel_def split: if_splits)
  from lift_path [OF p2 _ _ this] rd(1) obtain ms s' ps where ms: "schedule proc_step ?s1 ms s'" "list_all2 lifts ?ls ms"
    "proc_node s' = n'" "finished s' = None" "proc_tun s' = ?t'\<lparr>rx := rx ?t' @ ps, put := put ?t' @ ps\<rparr>"
    by auto
  from ms(2) obtain ans i where "ms = [CoordPass ans i, NodePart (MgrCoord Sent), NodePart (Session t (RecvFromManager (Some ?p) None))]"
    by (auto simp: lifts_def list_all2_Cons1)
  with p1 ms(1) have path: "schedule proc_step s [TunPart (ReaderStep ?i), CoordPass ans i, NodePart (MgrCoord Sent),
      NodePart (Session t (RecvFromManager (Some ?p) None))] s'" by (blast intro: proc_path_step)
  have "rx (proc_tun s') = []" using proc_invD [OF path_reachable [OF path s]] ms(3) np(4) rd(4) by simp
  moreover have "serving s'" using ms(4,5) rd t' by (simp add: serving_def workers_live_def)
  ultimately have "ready s'" using ms(3) np(3) by (simp add: ready_def)
  with path np ms(3,5) t' show ?thesis by (intro exI [of _ ans] exI [of _ i] exI [of _ s']) simp
qed

section \<open>A concrete process\<close>

text \<open>From a started node, the process with its interface up and the node after any schedule of its
  own that sends nothing to the host.\<close>

lemma running_process:
  fixes n0 n :: "'pk::linorder Node"
  assumes init: "node_initial n0" and np: "node_path n0 ls n" and ls: "list_all carried ls" and idle: "tx_to_tun (coord n) = []"
  obtains ms and s :: "('pk, 'te) Process" where "proc_initial (spawn_loops n0 :: ('pk, 'te) Process)"
    "schedule proc_step (spawn_loops n0) (TunPart CreateOk # ms) s" "list_all2 lifts ls ms"
    "finished s = None" "proc_node s = n" "rx (proc_tun s) = []" "written (proc_tun s) = []"
    "serving s"
proof -
  let ?s0 = "spawn_loops n0 :: ('pk, 'te) Process"
  let ?t = "create_ok Tun_start :: 'te TunRun"
  let ?s1 = "?s0\<lparr>proc_tun := ?t, proc_node := feed_node Tun_start ?t n0\<rparr>"
  have i0: "proc_initial ?s0" using init by (rule spawn_loops_initial)
  have "tun_step Tun_start CreateOk ?t" by (rule create_succ) (simp add: Tun_start_def)
  with proc_step.tun_works [of ?s0 CreateOk ?t] have p1: "proc_step ?s0 (TunPart CreateOk) ?s1" by (simp add: spawn_loops_def)
  with i0 have r1: "proc_reachable ?s1" by (blast intro: reach_init reach_step)
  have same: "proc_node ?s1 = n0"
    using feed_node_same [of "Tun_start :: 'te TunRun" n0 ?t] node_initial_queues(6) [OF init]
    by (simp add: Tun_start_def create_ok_def)
  have "tun_channel (proc_tun ?s1) True" by (simp add: tun_channel_def create_ok_def)
  from lift_path [OF np same _ this ls] obtain ms s ps where s: "schedule proc_step ?s1 ms s" "list_all2 lifts ls ms"
    "proc_node s = n" "finished s = None" "proc_tun s = ?t\<lparr>rx := rx ?t @ ps, put := put ?t @ ps\<rparr>"
    by (auto simp: spawn_loops_def)
  have r: "proc_reachable s" by (rule path_reachable [OF s(1) r1])
  have "rx (proc_tun s) = []" using proc_invD [OF r] s(3) idle by simp
  moreover have "written (proc_tun s) = []" "serving s"
    using s(4,5) by (simp_all add: serving_def workers_live_def create_ok_def Tun_start_def)
  ultimately show thesis by (rule that [OF i0 proc_path_step [OF p1 s(1)] s(2,4,3)])
qed

text \<open>The concrete node with one connected peer, its interface up.\<close>

lemma live_process:
  obtains s :: "(nat, unit) Process"
  where "proc_reachable s" "ready s" "proc_node s = live_node" "written (proc_tun s) = []"
proof (rule running_process [OF sample_node_initial live_node_path _ live_node_state(7)])
  fix ms and s :: "(nat, unit) Process"
  assume "proc_initial (spawn_loops sample_node :: (nat, unit) Process)"
    "schedule proc_step (spawn_loops sample_node) (TunPart CreateOk # ms) s"
  then have "proc_reachable s" by (rule path_reachable [OF _ reach_init, rotated])
  moreover assume s: "proc_node s = live_node" "rx (proc_tun s) = []" "written (proc_tun s) = []" "serving s"
  then have "ready s" by (simp add: ready_def live_node_state)
  ultimately show thesis using s(1,3) by (rule that)
qed simp

lemma live_process_writes:
  "\<exists>s :: (nat, unit) Process. proc_reachable s \<and> sample_reply \<in> set (written (proc_tun s))"
proof -
  obtain s :: "(nat, unit) Process" where s: "proc_reachable s" "ready s" "proc_node s = live_node" by (rule live_process)
  obtain ls s' where "schedule proc_step s ls s'" "written (proc_tun s') = written (proc_tun s) @ [sample_reply]"
    using device_write_schedule [OF s(1,2), of 2 "sample_conn 0" 1 sample_reply] s live_node_state live_node_traffic(2)
    by auto
  with path_reachable [OF _ s(1)] show ?thesis by (intro exI [of _ s']) auto
qed

lemma live_process_reads:
  "\<exists>s :: (nat, unit) Process. proc_reachable s \<and> (sample_packet 3, 7) \<in> set (wire (proc_node s))"
proof -
  obtain s :: "(nat, unit) Process" where s: "proc_reachable s" "ready s" "proc_node s = live_node" by (rule live_process)
  have p: "take READ_BUFFER (sample_packet 3) = sample_packet 3" "sample_packet 3 \<noteq> []"
    by (simp_all add: sample_packet_def READ_BUFFER_def ipv4_header_length)
  obtain ls s' where "schedule proc_step s ls s'" "wire (proc_node s') = wire (proc_node s) @ [(sample_packet 3, 7)]"
    using device_read_schedule [OF s(1,2), of 7 2 "sample_conn 0" 1 "sample_packet 3"] s live_node_state
      live_node_traffic(1) [of 3] p by auto
  with path_reachable [OF _ s(1)] show ?thesis by (intro exI [of _ s']) auto
qed

text \<open>The device fails for good: the reader ends, the writer is stopped and the process ends.\<close>

lemma failed_process:
  "\<exists>s :: (nat, unit) Process. proc_reachable s \<and> finished s = Some TunEnded \<and>
     reader_end (proc_tun s) \<noteq> Gone \<and> writer_end (proc_tun s) \<noteq> Gone \<and> holder (proc_tun s) \<noteq> Lost"
proof -
  let ?t0 = "Tun_start :: unit TunRun"
  let ?t1 = "create_ok ?t0"
  let ?i = "DeviceRead (Inl PermissionDenied) Sent"
  let ?t2 = "reader_works ?i ?t1"
  let ?t3 = "reader_ended (reader_end ?t2) ?t2"
  let ?t4 = "writer_works StopWriter ?t3"
  let ?t5 = "writer_joined (writer_end ?t4) ?t4"
  let ?s = "\<lambda>t. \<lparr>proc_node = sample_node, proc_tun = t, finished = None\<rparr> :: (nat, unit) Process"
  note ev = Tun_start_def create_ok_def reader_works_def writer_works_def worker_of_def workers_live_def
  note q = node_initial_queues [OF sample_node_initial]
  have feed: "feed_node t t' sample_node = sample_node" if "rx t = []" "rx t' = []" "read_out t' = read_out t"
    for t t' :: "unit TunRun" using feed_node_same [of t sample_node t'] q(6) that by simp
  have r0: "proc_reachable (?s ?t0)"
    using spawn_loops_initial [OF sample_node_initial] by (auto simp: spawn_loops_def intro: reach_init)
  have step: "proc_reachable (?s t')" if "proc_reachable (?s t)" "tun_step t l t'" "tun_part_of sample_node l"
    "rx t = []" "rx t' = []" "read_out t' = read_out t" for t t' l
    using reach_step [OF that(1) proc_step.tun_works [of "?s t" l t']] that(2-) feed by simp
  have r1: "proc_reachable (?s ?t1)"
    by (rule step [OF r0 create_succ]) (simp_all add: ev)
  have r2: "proc_reachable (?s ?t2)"
    by (rule step [OF r1 reader_read [of ?t1 "Inl PermissionDenied" Sent]]) (simp_all add: ev q)
  have r3: "proc_reachable (?s ?t3)"
    by (rule step [OF r2 select_reader]) (simp_all add: ev)
  have r4: "proc_reachable (?s ?t4)"
    by (rule step [OF r3 writer_stop]) (simp_all add: ev)
  have r5: "proc_reachable (?s ?t5)"
    by (rule step [OF r4 join_writer]) (simp_all add: ev)
  have "proc_step (?s ?t5) (Ends TunEnded) ((?s ?t5)\<lparr>finished := Some TunEnded\<rparr>)"
    by (rule proc_step.tun_returns) (simp_all add: ev)
  with r5 have "proc_reachable ((?s ?t5)\<lparr>finished := Some TunEnded\<rparr>)" by (rule reach_step)
  then show ?thesis
    by (intro exI [of _ "(?s ?t5)\<lparr>finished := Some TunEnded\<rparr>"]) (simp add: ev)
qed

end
