(* ===== verification/Mesh_Network.thy ===== *)
theory Mesh_Network
  imports Mesh_Process
begin

text \<open>
  A network of processes. The nodes take their steps in any order; what joins them is the one
  thing the program relies on in the iroh crate: a datagram read from a connection whose remote
  identity is the key of a node of the network was sent by a node with that key, to the key of
  the reader (\<open>authenticated\<close>). Identities that belong to no node of the network are the
  attacker's and send what they like; datagrams of nodes may be lost, repeated and reordered.
\<close>

section \<open>State and steps\<close>

type_synonym ('i, 'pk, 'te) Network = "'i \<Rightarrow> ('pk, 'te) Process"

abbreviation key :: "('pk, 'te) Process \<Rightarrow> 'pk" where
  "key s \<equiv> endpoint_id (mgr (proc_node s))"

definition authenticated :: "('i, 'pk, 'te) Network \<Rightarrow> 'pk \<Rightarrow> bytes \<Rightarrow> 'pk \<Rightarrow> bool" where
  "authenticated S to p from \<longleftrightarrow>
     (\<forall>j. key (S j) = from \<longrightarrow> (\<exists>i. key (S i) = from \<and> (p, to) \<in> set (wire (proc_node (S i)))))"

definition link_ok :: "('i, 'pk, 'te) Network \<Rightarrow> 'i \<Rightarrow> 'pk proc_label \<Rightarrow> bool" where
  "link_ok S i l \<longleftrightarrow>
     (\<forall>t p conn ch. reads l = Some (t, p) \<longrightarrow> tasks (mgr (proc_node (S i))) t = Some (SessionTask conn ch) \<longrightarrow>
        authenticated S (key (S i)) p (remote_id conn))"

inductive net_step :: "('i, 'pk::linorder, 'te) Network \<Rightarrow> 'i \<times> 'pk proc_label \<Rightarrow> ('i, 'pk, 'te) Network \<Rightarrow> bool" where
  net_step: "proc_step (S i) l s \<Longrightarrow> link_ok S i l \<Longrightarrow> net_step S (i, l) (S(i := s))"

definition net_initial :: "('i, 'pk::linorder, 'te) Network \<Rightarrow> bool" where
  "net_initial S \<longleftrightarrow> (\<forall>i. proc_initial (S i))"

abbreviation net_reachable :: "('i, 'pk::linorder, 'te) Network \<Rightarrow> bool" where
  "net_reachable \<equiv> reachable net_initial net_step"

section \<open>Invariant\<close>

text \<open>What a step of a process does to the histories of its node.\<close>

definition new_arrivals :: "('pk, 'te) Process \<Rightarrow> 'pk proc_label \<Rightarrow> (bytes \<times> 'pk) set" where
  "new_arrivals s l = {(p, remote_id conn) | p conn t ch.
     reads l = Some (t, p) \<and> tasks (mgr (proc_node s)) t = Some (SessionTask conn ch)}"

lemma node_step_arrivals:
  assumes "node_step n l n'" and "(p, k) \<in> set (arrived n')"
  shows "(p, k) \<in> set (arrived n) \<or> (\<exists>t a conn ch. l = Session t (ReadDatagram (Inr p) a) \<and>
    tasks (mgr n) t = Some (SessionTask conn ch) \<and> k = remote_id conn)"
  using assms
  by (cases rule: node_step.cases)
     (auto simp: put_coord_def apply_session_def Let_def split: coord_pass.splits prod.splits session_input.splits sum.splits)

lemma proc_step_histories:
  assumes "proc_step s l s'" and "proc_reachable s"
  shows "node_grows (proc_node s) (proc_node s')"
    and "set (arrived (proc_node s')) \<subseteq> set (arrived (proc_node s)) \<union> new_arrivals s l"
proof -
  have n: "node_reachable (proc_node s)" "rx (proc_tun s) = tx_to_tun (coord (proc_node s))"
    using proc_invD [OF assms(2)] by blast+
  note inv = node.inv_reachable [OF n(1)]
  have "node_grows (proc_node s) (proc_node s') \<and>
      set (arrived (proc_node s')) \<subseteq> set (arrived (proc_node s)) \<union> new_arrivals s l"
    using assms(1)
  proof (cases rule: proc_step.cases)
    case (node_works l' n')
    have "x \<in> set (arrived (proc_node s)) \<union> new_arrivals s l" if "x \<in> set (arrived n')" for x
    proof (cases x)
      case (Pair p k)
      with node_step_arrivals [OF node_works(5), of p k] that node_works(1) show ?thesis
        by (auto simp: new_arrivals_def)
    qed
    with node_works node_step_grows [OF node_works(5) inv] show ?thesis by auto
  next
    case (coord_passes i e m alive ans r n')
    obtain l' where l': "node_step (proc_node s) l' n'"
      using coord_pass_node_step [OF inv coord_passes(5,7-)] by blast
    have "arrived n' = arrived (proc_node s)"
      using coord_passes(5,9) by (cases "(proc_node s, i)" rule: coord_takes.cases)
        (auto simp: put_coord_def split: coord_pass.splits list.splits if_splits)
    with coord_passes node_step_grows [OF l' inv] show ?thesis by simp
  next
    case (tun_works l' t')
    have "arrived (feed_node (proc_tun s) t' (proc_node s)) = arrived (proc_node s)"
      by (simp add: feed_node_def Let_def)
    with tun_works tun_step_feeds(1) [OF tun_works(5,4) n(2)] node_step_grows [OF _ inv] show ?thesis
      by (auto simp: node_grows_refl)
  qed (simp_all add: node_grows_refl)
  then show "node_grows (proc_node s) (proc_node s')"
    and "set (arrived (proc_node s')) \<subseteq> set (arrived (proc_node s)) \<union> new_arrivals s l" by blast+
qed

lemma proc_path_grows:
  "schedule proc_step s ls s' \<Longrightarrow> proc_reachable s \<Longrightarrow> node_grows (proc_node s) (proc_node s')"
proof (induction rule: schedule.induct)
  case (path_step s l t ls u)
  have "proc_reachable t" using path_step by (blast intro: reach_step)
  with path_step proc_step_histories(1) [OF path_step(1)] show ?case by (auto simp: node_grows_def)
qed (simp add: node_grows_refl)

definition net_inv :: "('i, 'pk::linorder, 'te) Network \<Rightarrow> bool" where
  "net_inv S \<longleftrightarrow> (\<forall>i. proc_reachable (S i)) \<and>
     (\<forall>i p k. (p, k) \<in> set (arrived (proc_node (S i))) \<longrightarrow> authenticated S (key (S i)) p k)"

text \<open>Identities are constant and wires only grow, so what was authenticated stays so.\<close>

lemma authenticated_grows:
  assumes "authenticated S to p from" and "node_grows (proc_node (S i)) (proc_node s)"
  shows "authenticated (S(i := s)) to p from"
proof -
  have key: "key ((S(i := s)) j) = key (S j)" for j using assms(2) by (simp add: node_grows_def)
  have wire: "set (wire (proc_node (S j))) \<subseteq> set (wire (proc_node ((S(i := s)) j)))" for j
    using assms(2) by (simp add: node_grows_def)
  show ?thesis
    using assms(1) wire unfolding authenticated_def key by blast
qed

interpretation net: inductive_invariant net_initial net_step net_inv
proof
  show "net_inv S" if "net_initial S" for S :: "('i, 'pk::linorder, 'te) Network"
  proof -
    have "proc_initial (S i)" for i using that by (simp add: net_initial_def)
    moreover from this have "arrived (proc_node (S i)) = []" for i
      by (intro node_initial_queues) (simp add: proc_initial_def)
    ultimately show ?thesis by (simp add: net_inv_def reach_init)
  qed
  show "net_inv S'" if inv: "net_inv S" and step: "net_step S l S'" for S S' :: "('i, 'pk::linorder, 'te) Network" and l
    using step
  proof (cases rule: net_step.cases)
    case (net_step i m s)
    have r: "proc_reachable (S i)" using inv by (simp add: net_inv_def)
    note h = proc_step_histories [OF net_step(3) r]
    have "proc_reachable s" using r net_step(3) by (rule reach_step)
    moreover have "authenticated S (key (S j)) p k" if "(p, k) \<in> set (arrived (proc_node (S' j)))" for j p k
      using that inv h(2) net_step by (cases "j = i") (auto simp: net_inv_def new_arrivals_def link_ok_def)
    moreover have "key (S' j) = key (S j)" for j using h(1) net_step by (simp add: node_grows_def)
    ultimately show ?thesis
      using inv net_step authenticated_grows [where i = i and S = S, OF _ h(1)] by (simp add: net_inv_def)
  qed
qed

section \<open>From host to host\<close>

text \<open>A schedule of one process that reads no datagram is a schedule of the network.\<close>

lemmas net_path_step = path_step [where step = net_step]

lemma net_lift:
  assumes "schedule proc_step s ms s'" and "S i = s" and "\<forall>m \<in> set ms. reads m = None"
  shows "schedule net_step S (map (Pair i) ms) (S(i := s'))"
  using assms
proof (induction arbitrary: S rule: schedule.induct)
  case (path_end s)
  then show ?case by (auto simp: fun_upd_idem intro: schedule.path_end)
next
  case (path_step s l t ls u)
  have "link_ok S i l" using path_step.prems by (simp add: link_ok_def)
  then have st: "net_step S (i, l) (S(i := t))" using path_step by (blast intro: net_step.net_step)
  have "schedule net_step (S(i := t)) (map (Pair i) ls) ((S(i := t))(i := u))"
    by (rule path_step.IH) (use path_step.prems in auto)
  from net_path_step [OF st this] show ?case unfolding fun_upd_upd list.map .
qed

text \<open>A node has a session with a peer that has sent everything it was given.\<close>

definition linked :: "'pk Node \<Rightarrow> 'pk \<Rightarrow> bool" where
  "linked n k \<longleftrightarrow> (\<exists>t c ch. state_table (mgr n) k = Some (Connected t c ch) \<and>
     tasks (mgr n) t = Some (SessionTask c ch) \<and> channels (mgr n) ch = Some [])"

lemma linked_session:
  assumes "node_reachable n" and "linked n k"
  obtains t c ch where "state_table (mgr n) k = Some (Connected t c ch)"
    "tasks (mgr n) t = Some (SessionTask c ch)" "channels (mgr n) ch = Some []" "remote_id c = k"
proof -
  from assms(2) obtain t c ch where l: "state_table (mgr n) k = Some (Connected t c ch)"
    "tasks (mgr n) t = Some (SessionTask c ch)" "channels (mgr n) ch = Some []"
    by (auto simp: linked_def)
  have "mgr_inv (mgr n)" using node_invD [OF assms(1)] by blast
  from mgr_inv_entry [OF this l(1)] have "remote_id c = k" by (simp add: entry_inv_def)
  with l that show thesis by blast
qed

lemma linked_same: "linked n k \<Longrightarrow> same_sessions n n' \<Longrightarrow> linked n' k"
  unfolding linked_def same_sessions_def by (metis insert_iff singletonD)

lemma network_schedule:
  assumes S: "net_reachable S" and ij: "i \<noteq> j" and ri: "ready (S i)" and rj: "ready (S j)"
    and li: "linked (proc_node (S i)) (key (S j))" and lj: "linked (proc_node (S j)) (key (S i))" and p: "p \<noteq> []" "length p \<le> READ_BUFFER"
    and ok: "egress_ok (core (coord (proc_node (S i)))) p (key (S j))"
      "ingress_ok (core (coord (proc_node (S j)))) p (key (S i))"
  shows "\<exists>ls S'. schedule net_step S ((i, TunPart (ReaderStep (DeviceRead (Inr p) Sent))) # ls) S' \<and> length ls = 6 \<and>
    (\<forall>a. written (proc_tun (S' a)) = written (proc_tun (S a)) @ (if a = j then [p] else [])) \<and>
    (\<forall>a. ready (S a) \<longrightarrow> ready (S' a)) \<and> (\<forall>a. same_sessions (proc_node (S a)) (proc_node (S' a)))"
proof -
  have r: "proc_reachable (S i)" "proc_reachable (S j)" using net.inv_reachable [OF S] by (simp_all add: net_inv_def)
  have nr: "node_reachable (proc_node (S i))" "node_reachable (proc_node (S j))" using proc_invD r by blast+
  obtain t c ch where c: "state_table (mgr (proc_node (S i))) (key (S j)) = Some (Connected t c ch)"
    "tasks (mgr (proc_node (S i))) t = Some (SessionTask c ch)" "channels (mgr (proc_node (S i))) ch = Some []"
    using linked_session [OF nr(1) li] by blast
  obtain t' c' ch' where c': "tasks (mgr (proc_node (S j))) t' = Some (SessionTask c' ch')" "remote_id c' = key (S i)"
    using linked_session [OF nr(2) lj] by blast
  have pt: "take READ_BUFFER p = p" using p(2) by simp
  obtain ans a s where out: "schedule proc_step (S i) [TunPart (ReaderStep (DeviceRead (Inr p) Sent)), CoordPass ans a,
      NodePart (MgrCoord Sent), NodePart (Session t (RecvFromManager (Some p) None))] s"
    and w: "wire (proc_node s) = wire (proc_node (S i)) @ [(p, key (S j))]" and s: "written (proc_tun s) = written (proc_tun (S i))"
      "ready s" "same_sessions (proc_node (S i)) (proc_node s)"
    using device_read_schedule [OF r(1) ri c _ p(1)] ok(1) by (auto simp: pt)
  let ?T = "S(i := s)"
  have up: "schedule net_step S (map (Pair i) [TunPart (ReaderStep (DeviceRead (Inr p) Sent)), CoordPass ans a,
      NodePart (MgrCoord Sent), NodePart (Session t (RecvFromManager (Some p) None))]) ?T"
    by (rule net_lift [OF out]) simp_all
  obtain ans' a' s' where inn: "schedule proc_step (S j) [NodePart (Session t' (ReadDatagram (Inr p) Sent)), CoordPass ans' a',
      TunPart (WriterStep (RecvPacket p None))] s'" and s': "written (proc_tun s') = written (proc_tun (S j)) @ [p]"
      "ready s'" "same_sessions (proc_node (S j)) (proc_node s')"
    using device_write_schedule [OF r(2) rj c'(1)] ok(2) c'(2) by metis
  then obtain s1 where s1: "proc_step (S j) (NodePart (Session t' (ReadDatagram (Inr p) Sent))) s1"
    "schedule proc_step s1 [CoordPass ans' a', TunPart (WriterStep (RecvPacket p None))] s'"
    by (auto elim: schedule.cases)
  have key: "key s = key (S i)" using proc_path_grows [OF out r(1)] by (simp add: node_grows_def)
  have "link_ok ?T j (NodePart (Session t' (ReadDatagram (Inr p) Sent)))"
    using c' w ij key by (auto simp: link_ok_def authenticated_def intro!: exI [of _ i])
  then have "net_step ?T (j, NodePart (Session t' (ReadDatagram (Inr p) Sent))) (?T(j := s1))"
    using s1(1) ij by (intro net_step.net_step) auto
  from net_path_step [OF this net_lift [OF s1(2), of "?T(j := s1)" j]]
  have "schedule net_step ?T (map (Pair j) [NodePart (Session t' (ReadDatagram (Inr p) Sent)), CoordPass ans' a',
      TunPart (WriterStep (RecvPacket p None))]) (?T(j := s'))" by simp
  from path_append [OF up this] s s' ij show ?thesis
    by (intro exI [of _ "?T(j := s')"] exI conjI) (auto simp: same_sessions_refl)
qed

section \<open>A concrete network\<close>

text \<open>The peer of the concrete node: key 7 at 10.67.1.2, which dials key 5 at 10.67.1.1.\<close>

definition far_table :: "(Ipv4Addr \<times> nat) list" where
  "far_table = [(Ipv4Addr 10 67 1 1, 5)]"

definition far_core :: "nat VpnCore" where
  "far_core = VpnCore_new (Ipv4Addr 10 67 1 2) (map_of far_table) far_table 1100"

definition far_start :: "nat Node" where
  "far_start = projr (node_start (\<lambda>_. None :: unit option) (Inr 7 :: unit + nat) (Ipv4Addr 10 67 1 2)
     (map_of far_table) far_table [5] 0)"

definition far_conn :: "nat Connection" where
  "far_conn = \<lparr>conn_handle = 0, remote_id = 5\<rparr>"

definition far_up :: "nat VpnCore" where
  "far_up = far_core\<lparr>peers := (peers far_core)(5 \<mapsto> \<lparr>is_connected = True,
     peer_ipv4_addr = Ipv4Addr 10 67 1 1, packet_queue = []\<rparr>)\<rparr>"

definition far_node :: "nat Node" where
  "far_node = far_start\<lparr>coord := Coordinator_new far_up,
     mgr := (complete_send True (handle_outgoing far_conn (task_ends 0 (mgr far_start))))\<lparr>to_coord := []\<rparr>\<rparr>"

lemmas far_simps = far_start_def node_start_def final_mtu_def far_table_def peer_set_def
  Iroh_new_def init_def init_peer_def far_conn_def

lemmas far_passes = handle_outgoing_def init_ready_connection_def complete_send_def start_session_def

lemma far_initial: "node_initial far_start"
  unfolding node_initial_def
proof (intro exI conjI)
  show "iterates far_table (map_of far_table)" by (simp add: iterates_def far_table_def)
  show "enumerates [5] (peer_set far_table)" by (simp add: enumerates_def peer_set_def far_table_def)
  show "node_start (\<lambda>_. None :: unit option) (Inr 7 :: unit + nat) (Ipv4Addr 10 67 1 2)
     (map_of far_table) far_table [5] 0 = Inr far_start"
    by (simp add: far_simps mgr_simps)
qed

lemma far_connected: "process far_core (PeerConnected 5) = Some (far_up, [])"
  by (simp add: on_peer_connected_def is_neighbour_def is_connect_open_def far_core_def far_up_def VpnCore_new_def far_table_def)

lemma far_path:
  "node_path far_start [Dialled 0 far_conn, MgrTasks, MgrSent, CoordIroh (\<lambda>_. Sent)] far_node"
proof -
  let ?s = "task_ends 0 (mgr far_start)"
  let ?n1 = "far_start\<lparr>mgr := ?s, inbox := [OutgoingConnection far_conn]\<rparr>"
  let ?n2 = "far_start\<lparr>mgr := handle_outgoing far_conn ?s\<rparr>"
  let ?n3 = "far_start\<lparr>mgr := complete_send True (handle_outgoing far_conn ?s)\<rparr>"
  have core: "coord far_start = Coordinator_new far_core"
    by (simp add: far_simps far_core_def mgr_simps)
  have s1: "node_step far_start (Dialled 0 far_conn) ?n1"
    using node_step.dialled [of far_start 0 5 far_conn] by (simp add: far_simps mgr_simps inbox_room_def)
  have s2: "node_step ?n1 MgrTasks ?n2"
    using node_step.mgr_tasks [of ?n1 "OutgoingConnection far_conn" "[]"] by (simp add: far_simps mgr_simps)
  have s3: "node_step ?n2 MgrSent ?n3"
    using node_step.mgr_sent [of ?n2] by (simp add: far_simps mgr_simps far_passes)
  have s4: "node_step ?n3 (CoordIroh (\<lambda>_. Sent)) far_node"
  proof (rule node_step.coord_iroh)
    show "to_coord (mgr ?n3) = ConnectedToPeer 5 # []" by (simp add: far_simps mgr_simps far_passes)
    show "coord_run_pass (\<lambda>_. Sent) (coord ?n3) (RecvIroh (Some (ConnectedToPeer 5))) = Some (Go (Coordinator_new far_up) [])"
      using far_connected by (simp add: handle_iroh_event_def handle_core_input_def core Coordinator_new_def)
    show "honest_pass (\<lambda>_. Sent) (coord ?n3) (map_iroh_event_to_core_event (ConnectedToPeer 5))"
      using far_connected by (simp add: pass_answers_def core Coordinator_new_def)
  qed (simp_all add: put_coord_def far_node_def, simp_all add: far_simps mgr_simps)
  show ?thesis by (intro node_path_step [OF s1] node_path_step [OF s2] node_path_step [OF s3] node_path_step [OF s4] path_end)
qed

lemma far_node_state:
  "calm far_node" "state_table (mgr far_node) 5 = Some (Connected 3 far_conn 2)"
  "tasks (mgr far_node) 3 = Some (SessionTask far_conn 2)" "channels (mgr far_node) 2 = Some []"
  "core (coord far_node) = far_up" "tx_to_tun (coord far_node) = []" "endpoint_id (mgr far_node) = 7"
  by (simp_all add: calm_def far_node_def far_simps mgr_simps far_passes Coordinator_new_def)

lemma near_key: "endpoint_id (mgr live_node) = 5"
  by (simp add: live_node_def sample_node_simps handle_incoming_def init_ready_connection_def send_await_def
          sample_conn_def complete_send_def start_session_def new_channel_def)

lemma far_ingress: "ingress_ok far_up (sample_packet b) 5"
  by (simp add: ingress_ok_def well_formed_def sample_packet_def far_up_def far_core_def far_table_def
      VpnCore_new_def header_version_def ipv4_header_length ipv4_header_fields)

text \<open>Both processes run, their interfaces are up and they are connected to each other.\<close>

lemma live_network:
  obtains S :: "(bool, nat, unit) Network"
  where "net_reachable S" "ready (S False)" "ready (S True)" "proc_node (S False) = live_node" "proc_node (S True) = far_node"
    "written (proc_tun (S True)) = []"
proof -
  let ?a0 = "spawn_loops sample_node :: (nat, unit) Process"
  let ?b0 = "spawn_loops far_start :: (nat, unit) Process"
  obtain ms a where a: "proc_initial ?a0" "schedule proc_step ?a0 (TunPart CreateOk # ms) a"
    "list_all2 lifts [Accepted 0 (sample_conn 0), MgrTasks, MgrSent, CoordIroh (\<lambda>_. Sent)] ms" "proc_node a = live_node" "ready a"
    by (rule running_process [OF sample_node_initial live_node_path _ live_node_state(7)])
       (auto simp: ready_def live_node_state)
  obtain ns b where b: "proc_initial ?b0" "schedule proc_step ?b0 (TunPart CreateOk # ns) b"
    "list_all2 lifts [Dialled 0 far_conn, MgrTasks, MgrSent, CoordIroh (\<lambda>_. Sent)] ns" "proc_node b = far_node" "ready b"
    "written (proc_tun b) = []"
    by (rule running_process [OF far_initial far_path _ far_node_state(6)])
       (auto simp: ready_def far_node_state)
  let ?S0 = "\<lambda>i. if i then ?b0 else ?a0"
  let ?S1 = "?S0(False := a)"
  let ?S2 = "?S1(True := b)"
  have "net_reachable ?S0" using a(1) b(1) by (intro reach_init) (simp add: net_initial_def)
  moreover have "schedule net_step ?S0 (map (Pair False) (TunPart CreateOk # ms)) ?S1"
    by (rule net_lift [OF a(2)]) (use a(3) in \<open>auto simp: lifts_def list_all2_Cons1\<close>)
  moreover have "schedule net_step ?S1 (map (Pair True) (TunPart CreateOk # ns)) ?S2"
    by (rule net_lift [OF b(2)]) (use b(3) in \<open>auto simp: lifts_def list_all2_Cons1\<close>)
  ultimately have "net_reachable ?S2" by (blast intro: path_reachable)
  with that [of ?S2] a(4,5) b(4-6) show thesis by simp
qed

lemma live_network_linked: "linked live_node 7" "linked far_node 5"
  using live_node_state(2-4) far_node_state(2-4) unfolding linked_def by auto

lemma sample_packet_size: "length (sample_packet b) \<le> READ_BUFFER" "sample_packet b \<noteq> []"
  by (simp_all add: sample_packet_def READ_BUFFER_def ipv4_header_length)

text \<open>A packet has crossed the concrete network.\<close>

lemma net_path_grows:
  "schedule net_step S ls S' \<Longrightarrow> net_reachable S \<Longrightarrow> node_grows (proc_node (S i)) (proc_node (S' i))"
proof (induction rule: schedule.induct)
  case (path_step S l T ls S')
  have r: "proc_reachable (S j)" for j using net.inv_reachable [OF path_step.prems] by (simp add: net_inv_def)
  from path_step(1) have "node_grows (proc_node (S i)) (proc_node (T i))"
    using proc_step_histories(1) [OF _ r] by cases (auto simp: node_grows_refl)
  moreover have "node_grows (proc_node (T i)) (proc_node (S' i))"
    using path_step by (blast intro: reach_step)
  ultimately show ?case by (auto simp: node_grows_def)
qed (simp add: node_grows_refl)

lemma crossed_network:
  "\<exists>S :: (bool, nat, unit) Network. net_reachable S \<and> sample_packet 3 \<in> set (written (proc_tun (S True))) \<and>
     key (S False) = 5 \<and> key (S True) = 7 \<and> core_config (core (coord (proc_node (S True)))) = core_config far_up"
proof -
  obtain S :: "(bool, nat, unit) Network" where S: "net_reachable S" "ready (S False)" "ready (S True)"
    "proc_node (S False) = live_node" "proc_node (S True) = far_node"
    by (rule live_network)
  obtain ls S' where "schedule net_step S ls S'" "written (proc_tun (S' True)) = written (proc_tun (S True)) @ [sample_packet 3]"
    using network_schedule [OF S(1) _ S(2,3), of "sample_packet 3"] live_network_linked S(4,5)
      live_node_traffic(1) [of 3] far_ingress [of 3] sample_packet_size [of 3]
    by (auto simp: near_key far_node_state)
  moreover from this(1) have "node_grows (proc_node (S i)) (proc_node (S' i))" for i by (rule net_path_grows [OF _ S(1)])
  from this [of False] this [of True] have "key (S' False) = 5" "key (S' True) = 7"
    "core_config (core (coord (proc_node (S' True)))) = core_config far_up"
    using S by (simp_all add: node_grows_def near_key far_node_state)
  ultimately show ?thesis using path_reachable [OF _ S(1)] by (intro exI [of _ S']) auto
qed

end
