(* ===== verification/Mesh_Ideal.thy ===== *)
theory Mesh_Ideal
  imports Mesh_Network
begin

text \<open>
  What the whole mesh promises to its hosts, independent of processes, connections and queues:
  an ideal private network. Every site has a key, an address and an address book; its host may
  send any packet, and it may receive a packet only when the packet is legitimate, that is,
  addressed to the site and sent before by the host that the site's address book names as the
  owner of the source address, with that host's own address. The mesh implements it through the
  locale \<open>simulation\<close>.
\<close>

section \<open>The ideal network\<close>

record 'pk Site =
  site_key :: 'pk
  site_addr :: Ipv4Addr
  site_book :: "Ipv4Addr \<rightharpoonup> 'pk"
  site_out :: "bytes list"
  site_in :: "bytes list"

type_synonym ('i, 'pk) Ideal = "'i \<Rightarrow> 'pk Site"

text \<open>A site that could have sent a packet to a key: its host did, with the site's own address,
  and its address book sends the destination there.\<close>

definition origin :: "'pk Site \<Rightarrow> bytes \<Rightarrow> 'pk \<Rightarrow> bool" where
  "origin a p to \<longleftrightarrow> p \<in> set (site_out a) \<and> header_src p = site_addr a \<and> site_book a (header_dst p) = Some to"

text \<open>Keys that belong to no site are foreign, and nothing is known about what they send.\<close>

definition legitimate :: "('i, 'pk) Ideal \<Rightarrow> 'i \<Rightarrow> bytes \<Rightarrow> bool" where
  "legitimate A i p \<longleftrightarrow> header_dst p = site_addr (A i) \<and>
     (\<exists>k. site_book (A i) (header_src p) = Some k \<and>
        (k \<in> range (\<lambda>j. site_key (A j)) \<longrightarrow> (\<exists>j. site_key (A j) = k \<and> origin (A j) p (site_key (A i)))))"

datatype 'i ideal_label = Leaves 'i bytes | Reaches 'i bytes

inductive ideal_step :: "('i, 'pk) Ideal \<Rightarrow> 'i ideal_label \<Rightarrow> ('i, 'pk) Ideal \<Rightarrow> bool" where
  leaves: "ideal_step A (Leaves i p) (A(i := (A i)\<lparr>site_out := site_out (A i) @ [p]\<rparr>))"
| reaches: "legitimate A i p \<Longrightarrow> ideal_step A (Reaches i p) (A(i := (A i)\<lparr>site_in := site_in (A i) @ [p]\<rparr>))"

definition ideal_initial :: "('i, 'pk) Ideal \<Rightarrow> bool" where
  "ideal_initial A \<longleftrightarrow> (\<forall>i. site_out (A i) = [] \<and> site_in (A i) = [])"

section \<open>The view of the mesh\<close>

definition site_of :: "('pk, 'te) Process \<Rightarrow> 'pk Site" where
  "site_of s = \<lparr>site_key = key s, site_addr = ipv4_addr (core (coord (proc_node s))),
     site_book = route_table (core (coord (proc_node s))), site_out = read_out (proc_tun s),
     site_in = written (proc_tun s)\<rparr>"

definition mesh_view :: "('i, 'pk, 'te) Network \<Rightarrow> ('i, 'pk) Ideal" where
  "mesh_view S = (\<lambda>i. site_of (S i))"

lemma mesh_view_upd: "mesh_view (S(i := s)) = (mesh_view S)(i := site_of s)"
  by (simp add: mesh_view_def fun_eq_iff)

text \<open>Whatever the interface was ever given is legitimate.\<close>

lemma put_legitimate:
  assumes inv: "net_inv S" and p: "p \<in> set (put (proc_tun (S i)))"
  shows "legitimate (mesh_view S) i p"
proof -
  have r: "proc_reachable (S j)" for j using inv by (simp add: net_inv_def)
  obtain k where k: "(p, k) \<in> set (arrived (proc_node (S i)))" "ingress_ok (core (coord (proc_node (S i)))) p k"
    using proc_invD [OF r] p unfolding authentic_def by blast
  have "\<exists>j. key (S j) = k \<and> origin (site_of (S j)) p (key (S i))" if "k \<in> range (\<lambda>j. key (S j))"
  proof -
    have "authenticated S (key (S i)) p k" using inv k(1) by (simp add: net_inv_def)
    with that obtain j where j: "key (S j) = k" "(p, key (S i)) \<in> set (wire (proc_node (S j)))"
      unfolding authenticated_def by blast
    with wire_outbound [OF r j(2)] show ?thesis by (auto simp: origin_def site_of_def egress_ok_def)
  qed
  with k(2) show ?thesis
    by (auto simp: legitimate_def mesh_view_def ingress_ok_def) (simp_all add: site_of_def)
qed

section \<open>Simulation\<close>

text \<open>What a step of the interface does to the two histories the host sees.\<close>

lemma tun_step_host:
  assumes "tun_step t l t'"
  shows "read_out t' = read_out t \<and> written t' = written t \<or>
    written t' = written t \<and> (\<exists>p. read_out t' = read_out t @ [p]) \<or>
    read_out t' = read_out t \<and> (\<exists>p \<in> set (rx t). written t' = written t @ [p])"
  using assms
proof (cases rule: tun_step.cases)
  case (reader_read r a)
  obtain b sent d where p: "tun_reader_pass (buf t) (DeviceRead r a) = (b, sent, d :: 'a TunEvent option)"
    by (metis prod_cases3)
  with reader_read reader_pass_sends [OF p] show ?thesis by (auto simp: reader_works_def)
next
  case (writer_recv p q r)
  obtain out d where w: "tun_writer_pass (RecvPacket p r) = (out, d :: 'a TunEvent option)" by fastforce
  then have "out = [] \<or> out = [p]" by (cases r) (auto split: TunEvent.splits)
  with writer_recv w show ?thesis by (auto simp: writer_works_def take_rx_def)
next
  case select_reader
  then show ?thesis by (cases "reader_end t") simp_all
next
  case select_writer
  then show ?thesis by (cases "writer_end t") simp_all
next
  case join_writer
  then show ?thesis by (cases "writer_end t") simp_all
next
  case join_reader
  then show ?thesis by (cases "reader_end t") simp_all
qed (auto simp: create_failed_def create_ok_def reader_works_def writer_works_def)

lemma proc_step_host:
  assumes step: "proc_step s l s'" and s: "proc_reachable s"
  shows "site_of s' = site_of s \<or> (\<exists>p. site_of s' = (site_of s)\<lparr>site_out := site_out (site_of s) @ [p]\<rparr>) \<or>
    (\<exists>p \<in> set (put (proc_tun s)). site_of s' = (site_of s)\<lparr>site_in := site_in (site_of s) @ [p]\<rparr>)"
proof -
  have "node_grows (proc_node s) (proc_node s')" by (rule proc_step_histories(1) [OF step s])
  then have same: "site_of s' = (site_of s)\<lparr>site_out := read_out (proc_tun s'), site_in := written (proc_tun s')\<rparr>"
    by (simp add: site_of_def node_grows_def core_config_def)
  have t: "tun_inv (proc_tun s)" using proc_invD [OF s] tun.inv_reachable by blast
  from step have "read_out (proc_tun s') = read_out (proc_tun s) \<and> written (proc_tun s') = written (proc_tun s) \<or>
      (\<exists>l. tun_step (proc_tun s) l (proc_tun s'))"
    by (cases rule: proc_step.cases) (auto simp: put_new_def Let_def)
  with t show ?thesis unfolding same by (auto simp: site_of_def tun_inv_def dest!: tun_step_host)
qed

interpretation mesh: simulation net_initial net_step net_inv mesh_view ideal_initial ideal_step
proof
  show "ideal_initial (mesh_view S)" if "net_initial S" for S :: "('i, 'pk::linorder, 'te) Network"
    using that by (simp add: net_initial_def proc_initial_def Tun_initial_def ideal_initial_def mesh_view_def site_of_def)
  fix S S' :: "('i, 'pk::linorder, 'te) Network" and l
  assume inv: "net_inv S" and "net_step S l S'"
  from this(2) show "mesh_view S' = mesh_view S \<or> (\<exists>m. ideal_step (mesh_view S) m (mesh_view S'))"
  proof (cases rule: net_step.cases)
    case (net_step i m s)
    have "proc_reachable (S i)" using inv by (simp add: net_inv_def)
    from proc_step_host [OF net_step(3) this] consider "site_of s = mesh_view S i"
      | p where "site_of s = (mesh_view S i)\<lparr>site_out := site_out (mesh_view S i) @ [p]\<rparr>"
      | p where "p \<in> set (put (proc_tun (S i)))" "site_of s = (mesh_view S i)\<lparr>site_in := site_in (mesh_view S i) @ [p]\<rparr>"
      by (auto simp: mesh_view_def)
    then show ?thesis
    proof cases
      case 1
      then show ?thesis by (simp add: net_step(2) mesh_view_upd)
    next
      case (2 p)
      then show ?thesis using ideal_step.leaves [of "mesh_view S" i p] by (auto simp: net_step(2) mesh_view_upd)
    next
      case (3 p)
      then show ?thesis using ideal_step.reaches [OF put_legitimate [OF inv 3(1)]] by (auto simp: net_step(2) mesh_view_upd)
    qed
  qed
qed

end
