(* ===== verification/Mesh_Resilience.thy ===== *)
theory Mesh_Resilience
  imports Mesh_Network
begin

text \<open>
  Resilience: no configured peer is ever forgotten. Whatever connections break, are replaced or
  are refused, each peer has a live session, or a task that dials it, or is awaited by a live
  accept loop, or the event that leads there is on its way. From such a state a node can connect
  to any of its peers, as the one that dials or as the one that accepts.
\<close>

section \<open>Peers are attended\<close>

fun cont_key :: "'pk Cont \<Rightarrow> 'pk" where
  "cont_key (StartSession conn) = remote_id conn"
| "cont_key (Reconnect k) = k"
| "cont_key (MarkDisconnected k) = k"

definition busy :: "'pk Iroh \<Rightarrow> 'pk \<Rightarrow> bool" where
  "busy s k \<longleftrightarrow> (\<exists>ev c. awaiting s = Some (ev, c) \<and> cont_key c = k)"

fun attended_entry :: "'pk Iroh \<Rightarrow> 'pk ConnectionEvent list \<Rightarrow> 'pk \<Rightarrow> 'pk ConnectionState \<Rightarrow> bool" where
  "attended_entry s q k (Connected t c ch) \<longleftrightarrow>
     tasks s t = Some (SessionTask c ch) \<or> ConnectionEvent.Disconnected k \<in> set q"
| "attended_entry s q k (Connecting t) \<longleftrightarrow>
     tasks s t = Some (ConnectTask k) \<or> (\<exists>conn. OutgoingConnection conn \<in> set q \<and> remote_id conn = k)"
| "attended_entry s q k WaitingIncomingConnection \<longleftrightarrow> True"
| "attended_entry s q k ConnectionState.Disconnected \<longleftrightarrow> False"

definition attended :: "'pk Iroh \<Rightarrow> 'pk ConnectionEvent list \<Rightarrow> bool" where
  "attended s q \<longleftrightarrow> (\<exists>t. tasks s t = Some AcceptTask) \<and> (\<forall>ev k. awaiting s \<noteq> Some (ev, MarkDisconnected k)) \<and>
     (\<forall>k st. state_table s k = Some st \<longrightarrow> busy s k \<or> attended_entry s q k st)"

lemma attended_entry_mono:
  assumes "attended_entry s q k st" and "\<And>t. tasks s t \<noteq> None \<Longrightarrow> tasks s' t = tasks s t" and "set q \<subseteq> set q'"
  shows "attended_entry s' q' k st"
proof (cases st)
  case (Connected t c ch)
  with assms(1,3) assms(2) [of t] show ?thesis by auto
next
  case (Connecting t)
  with assms(1,3) assms(2) [of t] show ?thesis by auto
qed (use assms in auto)

lemma attended_update:
  assumes "attended s q" and "state_table u = state_table s" and "awaiting u = awaiting s"
    and "\<And>a. tasks s a = Some AcceptTask \<Longrightarrow> tasks u a = Some AcceptTask"
    and "\<And>k st. state_table s k = Some st \<Longrightarrow> attended_entry s q k st \<Longrightarrow> attended_entry u q' k st"
  shows "attended u q'"
proof -
  have "busy u k = busy s k" for k using assms(3) by (simp add: busy_def)
  with assms show ?thesis unfolding attended_def by metis
qed

lemma attended_frame:
  assumes "attended s q" and "state_table u = state_table s" and "awaiting u = awaiting s"
    and "\<And>t. tasks s t \<noteq> None \<Longrightarrow> tasks u t = tasks s t" and "set q \<subseteq> set q'"
  shows "attended u q'"
  by (rule attended_update [OF assms(1-3)]) (use assms(4) attended_entry_mono [OF _ assms(4,5)] in auto)

text \<open>Ending the task of one entry leaves the others attended.\<close>

lemma attended_entry_abort:
  assumes "mgr_inv s" and "state_table s k = Some (Connected t c ch)" and "state_table s k' = Some st" and "k' \<noteq> k"
    and "attended_entry s q k' st"
  shows "attended_entry (abort t s) q k' st"
  using assms(5) mgr_inv_entry [OF assms(1,2)] mgr_inv_entry [OF assms(1,3)] assms(4)
  by (cases st) (auto simp: abort_def entry_inv_def)

lemma accept_abort:
  assumes "mgr_inv s" and "state_table s k = Some (Connected t c ch)" and "tasks s a = Some AcceptTask"
  shows "tasks (abort t s) a = Some AcceptTask"
  using mgr_inv_entry [OF assms(1,2)] assms(3) by (auto simp: abort_def entry_inv_def)

lemma attended_entry_tail:
  assumes "attended_entry s (ev # q) k st"
    and "ev \<noteq> ConnectionEvent.Disconnected k" and "\<And>conn. ev = OutgoingConnection conn \<Longrightarrow> remote_id conn \<noteq> k"
  shows "attended_entry s q k st"
  using assms by (cases st) auto

lemma attended_entry_frame [simp]:
  "attended_entry (s\<lparr>awaiting := a\<rparr>) q k st = attended_entry s q k st"
  "attended_entry (s\<lparr>closed := cs\<rparr>) q k st = attended_entry s q k st"
  "attended_entry (close c n r s) q k st = attended_entry s q k st"
  "attended_entry (send_await ev cont s) q k st = attended_entry s q k st"
  by (cases st; simp add: mgr_simps)+

text \<open>A handler that starts to wait on behalf of one peer.\<close>

lemma attended_await:
  assumes "attended s (ev # q)" and "awaiting s = None" and "cont_key cont = k" and "\<And>k'. cont \<noteq> MarkDisconnected k'"
    and "ev \<in> {IncomingConnection conn, OutgoingConnection conn, ConnectionEvent.Disconnected k}"
    and "remote_id conn = k"
    and tasks: "\<And>k' st. k' \<noteq> k \<Longrightarrow> state_table s k' = Some st \<Longrightarrow> attended_entry s (ev # q) k' st \<Longrightarrow> attended_entry u (ev # q) k' st"
    and u: "state_table u = state_table s" "\<And>t. tasks s t = Some AcceptTask \<Longrightarrow> tasks u t = Some AcceptTask"
  shows "attended (send_await e cont u) q"
proof -
  have "attended_entry u q k' st" if "k' \<noteq> k" "state_table s k' = Some st" for k' st
  proof (rule attended_entry_tail)
    have "attended_entry s (ev # q) k' st" using assms(1,2) that by (auto simp: attended_def busy_def)
    with that show "attended_entry u (ev # q) k' st" by (rule tasks)
  qed (use assms(5,6) that in auto)
  then have "busy (send_await e cont u) k' \<or> attended_entry (send_await e cont u) q k' st"
    if "state_table s k' = Some st" for k' st
    using that assms(3) by (cases "k' = k") (auto simp: busy_def send_await_def)
  moreover obtain t where "tasks s t = Some AcceptTask" using assms(1) by (auto simp: attended_def)
  with u(2) have "\<exists>t. tasks (send_await e cont u) t = Some AcceptTask" by (auto simp: send_await_def)
  ultimately show ?thesis using assms(4) u(1) by (auto simp: attended_def send_await_def)
qed

section \<open>Every step keeps peers attended\<close>

text \<open>With no send suspended every entry is attended; a new connection replaces one that exists.\<close>

lemma attended_entries:
  "attended s q \<Longrightarrow> awaiting s = None \<Longrightarrow> state_table s k = Some st \<Longrightarrow> attended_entry s q k st"
  by (auto simp: attended_def busy_def)

lemma attended_replaced:
  assumes inv: "mgr_inv s" and idle: "awaiting s = None" and att: "attended s (ev # q)"
    and ev: "ev \<in> {IncomingConnection c, OutgoingConnection c}" and old: "state_table s (remote_id c) = Some (Connected t d ch)"
  shows "attended (init_ready_connection c (close d n r (abort t s))) q"
  unfolding init_ready_connection_def
proof (rule attended_await [OF att idle, where k = "remote_id c" and conn = c])
  show "attended_entry (close d n r (abort t s)) (ev # q) k' st"
    if "k' \<noteq> remote_id c" "state_table s k' = Some st" "attended_entry s (ev # q) k' st" for k' st
    using attended_entry_abort [OF inv old] that by simp
  show "state_table (close d n r (abort t s)) = state_table s" by (simp add: mgr_simps)
  show "tasks (close d n r (abort t s)) a = Some AcceptTask" if "tasks s a = Some AcceptTask" for a
    using accept_abort [OF inv old that] by (simp add: close_def)
qed (use ev in auto)

lemma attended_report:
  assumes idle: "awaiting s = None" and att: "attended s (ConnectionEvent.Disconnected k # q)"
  shows "attended (handle_disconnected k s) q"
proof (cases "is_up s k")
  case True
  then have "handle_disconnected k s = send_await (DisconnectedFromPeer k) (Reconnect k) s"
    by (auto simp: handle_disconnected_def up_in_def)
  then show ?thesis
    using attended_await [OF att idle, where k = k and conn = "\<lparr>conn_handle = 0, remote_id = k\<rparr>"
      and cont = "Reconnect k" and u = s] by simp
next
  case False
  then have u: "handle_disconnected k s = s"
    by (auto simp: handle_disconnected_def up_in_def split: option.splits ConnectionState.splits)
  have "attended_entry s q k' st" if "state_table s k' = Some st" for k' st
    using attended_entries [OF att idle that] that False by (cases st) (auto simp: up_in_def)
  with att idle u show ?thesis by (auto simp: attended_def busy_def)
qed

lemma attended_conn_event:
  assumes inv: "mgr_inv s" and idle: "awaiting s = None" and att: "attended s (ev # q)"
    and h: "handle_conn_event s ev = Inr u"
  shows "attended u q"
proof -
  note ent = attended_entries [OF att idle]
  have same: "attended (close c n r s) q"
    if "\<And>k st. state_table s k = Some st \<Longrightarrow> attended_entry s (ev # q) k st \<Longrightarrow> attended_entry s q k st" for c n r
    using att idle ent that by (auto simp: attended_def busy_def close_def)
  note conn = attended_replaced [OF inv idle att]
  have ready: "attended (init_ready_connection c s) q"
    if "ev \<in> {IncomingConnection c, OutgoingConnection c}" for c
    unfolding init_ready_connection_def
    by (rule attended_await [OF att idle, where k = "remote_id c" and conn = c]) (use that in auto)
  show ?thesis
  proof (cases ev)
    case (OutgoingConnection c)
    have "attended (close c n r s) q" if "state_table s (remote_id c) \<in> {None, Some WaitingIncomingConnection}" for n r
      by (rule same) (use that OutgoingConnection in \<open>case_tac st; auto\<close>)
    with OutgoingConnection h conn ready ent [of "remote_id c"] show ?thesis
      by (auto simp: handle_outgoing_def split: option.splits ConnectionState.splits)
  next
    case (IncomingConnection c)
    have "attended (close c n r s) q" for n r
      by (rule same) (rule attended_entry_tail, use IncomingConnection in auto)
    with IncomingConnection h conn ready show ?thesis
      by (auto simp: handle_incoming_def split: option.splits ConnectionState.splits)
  next
    case (Disconnected k)
    with attended_report [OF idle, of k q] att h show ?thesis by auto
  qed (use h in auto)
qed

lemma attended_complete_send:
  assumes inv: "mgr_inv s" and wait: "awaiting s = Some (ev, cont)" and att: "attended s q"
  shows "attended (complete_send d s) q"
proof -
  let ?u = "s\<lparr>awaiting := None, to_coord := to_coord s @ (if d then [ev] else [])\<rparr>"
  have fresh: "tasks s (next_id s) = None" "tasks s (Suc (next_id s)) = None"
    using inv by (force simp: mgr_inv_def task_inv_def)+
  have ent: "attended_entry s q k st" if "state_table s k = Some st" "k \<noteq> cont_key cont" for k st
    using att wait that by (auto simp: attended_def busy_def)
  have keep: "attended_entry v q k st"
    if "state_table s k = Some st" "k \<noteq> cont_key cont" "\<And>t. tasks s t \<noteq> None \<Longrightarrow> tasks v t = tasks s t" for k st v
    using attended_entry_mono [OF ent [OF that(1,2)] that(3)] by blast
  obtain t where t: "tasks s t = Some AcceptTask" using att by (auto simp: attended_def)
  show ?thesis
  proof (cases cont)
    case (StartSession c)
    define v where "v = start_session c ?u"
    have v: "tasks v = (tasks s)(Suc (next_id s) \<mapsto> SessionTask c (next_id s))" "awaiting v = None"
      "state_table v = (state_table s)(remote_id c \<mapsto> Connected (Suc (next_id s)) c (next_id s))"
      by (simp_all add: v_def start_session_def mgr_simps)
    have old: "tasks v t = tasks s t" if "tasks s t \<noteq> None" for t using that fresh v(1) by auto
    have "attended_entry v q k st" if "state_table v k = Some st" for k st
      using that keep [OF _ _ old] StartSession by (cases "k = remote_id c") (auto simp: v)
    moreover have "tasks v t = Some AcceptTask" using t old [of t] by simp
    ultimately show ?thesis using wait StartSession v(2) unfolding v_def by (auto simp: complete_send_def attended_def)
  next
    case (Reconnect k)
    define v where "v = init_new_connection k ?u"
    have v: "awaiting v = None" "\<And>t. tasks s t \<noteq> None \<Longrightarrow> tasks v t = tasks s t"
      "\<And>k'. k' \<noteq> k \<Longrightarrow> state_table v k' = state_table s k'"
      using fresh by (auto simp: v_def init_new_connection_def mgr_simps)
    have own: "attended_entry v q k st" if "state_table v k = Some st" for st
      using that by (auto simp: v_def init_new_connection_def mgr_simps split: if_splits)
    have "attended_entry v q k' st" if "state_table v k' = Some st" for k' st
      using that own keep [OF _ _ v(2)] Reconnect v(3) [of k'] by (cases "k' = k") auto
    moreover have "tasks v t = Some AcceptTask" using t v(2) by simp
    ultimately show ?thesis using wait Reconnect v(1) unfolding v_def by (auto simp: complete_send_def attended_def)
  next
    case (MarkDisconnected k)
    with att wait show ?thesis by (simp add: attended_def)
  qed
qed

lemma attended_session:
  assumes inv: "mgr_inv (mgr n)" and att: "attended (mgr n) (inbox n)"
    and task: "tasks (mgr n) t = Some (SessionTask conn ch)"
    and shut: "\<And>r. i = RecvFromManager None r \<Longrightarrow> \<not> open_channel (mgr n) ch"
    and take: "take_packet ch i (mgr n) = Some s"
  shows "attended (mgr (apply_session conn t i s n)) (inbox (apply_session conn t i s n))"
proof -
  obtain effs go where p: "session_pass conn i = (effs, go)" by (cases "session_pass conn i")
  let ?q = "inbox n @ List.map_filter manager_part effs"
  note f = take_packet_frame [OF take]
  have m: "List.map_filter manager_part effs = (if failed_input i then [ConnectionEvent.Disconnected (remote_id conn)] else [])"
    using session_pass_parts(3) [of conn i] p by simp
  have go: "go \<longleftrightarrow> \<not> final_input i" using session_pass_go [of conn i] p by simp
  define v where "v = mgr (apply_session conn t i s n)"
  have v: "state_table v = state_table (mgr n)" "awaiting v = awaiting (mgr n)"
    "tasks v = (if go then tasks (mgr n) else (tasks (mgr n))(t := None))"
    using f by (simp_all add: v_def apply_session_def p Let_def task_ends_def)
  have q: "inbox (apply_session conn t i s n) = ?q" by (simp add: apply_session_def p Let_def)
  have "attended_entry v ?q k st" if st: "state_table (mgr n) k = Some st" and e: "attended_entry (mgr n) (inbox n) k st" for k st
  proof (cases st)
    case (Connected t' c' ch')
    have "ConnectionEvent.Disconnected k \<in> set ?q" if "t' = t" "tasks (mgr n) t' = Some (SessionTask c' ch')" "\<not> go"
    proof -
      have c: "c' = conn" "ch' = ch" using that task by auto
      then have "open_channel (mgr n) ch" using st Connected by (auto simp: open_channel_def)
      with shut that(3) go have "failed_input i" by (cases i rule: final_input.cases) (auto split: sum.splits)
      moreover have "remote_id conn = k" using mgr_inv_entry [OF inv st] Connected c by (simp add: entry_inv_def)
      ultimately show ?thesis by (simp add: m)
    qed
    with e Connected v(3) show ?thesis by auto
  next
    case (Connecting t')
    with e v(3) task show ?thesis by auto
  qed (use e in auto)
  moreover have "tasks v a = Some AcceptTask" if "tasks (mgr n) a = Some AcceptTask" for a
    using that task v(3) by auto
  ultimately show ?thesis using attended_update [OF att v(1,2)] unfolding q v_def [symmetric] by blast
qed

lemma attended_dialled:
  assumes inv: "mgr_inv s" and att: "attended s q" and task: "tasks s t = Some (ConnectTask k)" and rid: "remote_id conn = k"
  shows "attended (task_ends t s) (q @ [OutgoingConnection conn])"
proof -
  have "attended_entry (task_ends t s) (q @ [OutgoingConnection conn]) k' st"
    if "state_table s k' = Some st" "attended_entry s q k' st" for k' st
    using that task rid mgr_inv_entry [OF inv that(1)] by (cases st) (auto simp: task_ends_def entry_inv_def)
  moreover have "tasks (task_ends t s) a = Some AcceptTask" if "tasks s a = Some AcceptTask" for a
    using that task by (auto simp: task_ends_def)
  ultimately show ?thesis by (intro attended_update [OF att]) (simp_all add: task_ends_def)
qed

lemma attended_step:
  assumes "node_step n l n'" and "node_inv n" and "attended (mgr n) (inbox n)"
  shows "attended (mgr n') (inbox n')"
  using assms
proof (induction rule: node_step.induct)
  case (coord_iroh n ev q ans r n')
  then have "mgr n' = (mgr n)\<lparr>to_coord := q\<rparr>" "inbox n' = inbox n"
    by (auto simp: put_coord_def split: coord_pass.splits)
  with coord_iroh show ?case by (auto intro: attended_frame)
next
  case (coord_tun n p q ans r n')
  then have "mgr n' = mgr n" "inbox n' = inbox n" by (auto simp: put_coord_def split: coord_pass.splits)
  with coord_tun show ?case by simp
next
  case (coord_resume n ans n')
  then show ?case by (simp add: node_inv_def)
next
  case (mgr_tasks n ev q s)
  then have "handle_conn_event (mgr n) ev = Inr s" "mgr_inv (mgr n)" by (auto simp: node_inv_def split: sum.splits)
  with mgr_tasks attended_conn_event show ?case by auto
next
  case (mgr_coord n a q ans s)
  then have "action_routed (outbound n) a" by (simp add: node_inv_def)
  then obtain p k where "a = CoreAction.SendPacketTo p k" by (cases a) auto
  with mgr_coord show ?case
    by (auto intro: attended_frame split: option.splits ConnectionState.splits)
next
  case (mgr_sent n)
  then show ?case by (auto simp: node_inv_def intro: attended_complete_send)
next
  case (session n t conn ch i s)
  then show ?case by (intro attended_session) (auto simp: node_inv_def)
next
  case (dialled n t k conn)
  then show ?case by (auto simp: node_inv_def intro: attended_dialled)
next
  case (accepted n t conn)
  then show ?case by (auto intro: attended_frame)
qed auto

section \<open>Invariant\<close>

lemma attended_init:
  assumes "dom (state_table (init ks s)) \<subseteq> set ks" and "awaiting (init ks s) = None"
  shows "attended (init ks s) q"
proof -
  have "attended_entry (init ks s) q k st" if "state_table (init ks s) k = Some st" for k st
  proof -
    have "role_ok (init ks s) k" using assms(1) that by (intro role_ok_init) blast
    with that show ?thesis by (auto simp: role_ok_def split: if_splits)
  qed
  moreover have "\<exists>t. tasks (init ks s) t = Some AcceptTask" by (auto simp: init_def spawn_def)
  ultimately show ?thesis using assms(2) by (auto simp: attended_def)
qed

interpretation resilience: inductive_invariant node_initial node_step "\<lambda>n. node_inv n \<and> attended (mgr n) (inbox n)"
proof
  show "node_inv n \<and> attended (mgr n) (inbox n)" if i: "node_initial n" for n :: "'a Node"
  proof -
    from i obtain ba :: "string \<Rightarrow> unit option" and bound :: "unit + 'a" and addr table iter keys port
      where en: "enumerates keys (peer_set iter)" and st: "node_start ba bound addr table iter keys port = Inr n"
      unfolding node_initial_def by (elim exE conjE)
    obtain s where s: "Iroh_new ba bound (peer_set iter) keys port = Inr s" and n: "mgr n = init keys s"
      using st by (auto simp: node_start_def Let_def split: sum.splits)
    have inv: "node_inv n" using i by (rule node.inv_initial)
    then have "mgr_inv (mgr n)" by (simp add: node_inv_def)
    then have "dom (state_table (mgr n)) = whitelist (mgr n)" by (rule mgr_inv_dom)
    moreover have "whitelist (mgr n) = set keys" using Iroh_new_state(2) [OF s en] en n by (simp add: enumerates_def)
    ultimately have "dom (state_table (init keys s)) \<subseteq> set keys" using n by simp
    moreover have "awaiting (init keys s) = None" using Iroh_new_state(4) [OF s en] by simp
    ultimately show ?thesis using inv attended_init n by metis
  qed
  show "node_inv n' \<and> attended (mgr n') (inbox n')" if "node_inv n \<and> attended (mgr n) (inbox n)" and "node_step n l n'"
    for n n' :: "'a Node" and l
    using that attended_step node.inv_step by blast
qed

section \<open>Connecting\<close>

text \<open>A live session of the table, which the core knows of.\<close>

definition session_with :: "'pk Iroh \<Rightarrow> 'pk \<Rightarrow> bool" where
  "session_with s k \<longleftrightarrow> (\<exists>t c ch. state_table s k = Some (Connected t c ch) \<and> tasks s t = Some (SessionTask c ch))"

definition established :: "'pk Node \<Rightarrow> 'pk \<Rightarrow> bool" where
  "established n k \<longleftrightarrow> session_with (mgr n) k \<and> k \<in> core_up (core (coord n))"

text \<open>A session about which nothing is in flight.\<close>

fun event_key :: "'pk ConnectionEvent \<Rightarrow> 'pk option" where
  "event_key (OutgoingConnection conn) = Some (remote_id conn)"
| "event_key (IncomingConnection conn) = Some (remote_id conn)"
| "event_key (ConnectionEvent.Disconnected k) = Some k"
| "event_key InternalError = None"

definition steady :: "'pk Node \<Rightarrow> 'pk \<Rightarrow> bool" where
  "steady n k \<longleftrightarrow> session_with (mgr n) k \<and> \<not> busy (mgr n) k \<and> (\<forall>ev \<in> set (inbox n). event_key ev \<noteq> Some k)"

lemma ready_schedule:
  assumes n: "node_reachable n" and idle: "awaiting (mgr n) = None" "to_coord (mgr n) = []" and q: "inbox n = [ev]"
    and h: "handle_conn_event (mgr n) ev = Inr (init_ready_connection conn u)" and u: "to_coord u = []"
  shows "\<exists>ans n'. node_path n [MgrTasks, MgrSent, CoordIroh ans] n' \<and> steady n' (remote_id conn)"
proof -
  let ?e = "ConnectedToPeer (remote_id conn)"
  let ?n1 = "n\<lparr>mgr := init_ready_connection conn u, inbox := []\<rparr>"
  let ?s = "start_session conn (u\<lparr>awaiting := None, to_coord := [?e]\<rparr>)"
  let ?n2 = "?n1\<lparr>mgr := ?s\<rparr>"
  have s1: "node_step n MgrTasks ?n1" using node_step.mgr_tasks [of n ev "[]"] idle(1) q h by simp
  have "complete_send True (init_ready_connection conn u) = ?s" by (simp add: complete_ready u)
  then have s2: "node_step ?n1 MgrSent ?n2"
    using node_step.mgr_sent [of ?n1] by (simp add: init_ready_connection_def send_await_def u)
  have r2: "node_reachable ?n2" using n s1 s2 by (blast intro: reach_step)
  have c: "to_coord (mgr ?n2) = [?e]" by (simp add: start_session_def mgr_simps)
  obtain ans n' where s3: "node_step ?n2 (CoordIroh ans) n'" using coord_iroh_possible [OF r2 c] by blast
  then have m: "mgr n' = ?s\<lparr>to_coord := []\<rparr>"
    using c by (cases rule: node_step.cases) (auto simp: put_coord_def split: coord_pass.splits)
  have "session_with (mgr n') (remote_id conn)" by (simp add: m session_with_def start_session_def mgr_simps)
  moreover have "inbox n' = []"
    using s3 by (cases rule: node_step.cases) (auto simp: put_coord_def split: coord_pass.splits)
  ultimately have "steady n' (remote_id conn)" by (simp add: steady_def busy_def m start_session_def mgr_simps u)
  moreover have "node_path n [MgrTasks, MgrSent, CoordIroh ans] n'"
    by (intro node_path_step [OF s1] node_path_step [OF s2] node_path_step [OF s3] path_end)
  ultimately show ?thesis by blast
qed

lemma settled_fields:
  "settled n \<Longrightarrow> inbox n = [] \<and> awaiting (mgr n) = None \<and> to_coord (mgr n) = []"
  by (simp add: settled_def calm_def)

lemma settled_established:
  assumes "node_reachable n" and "settled n" and "session_with (mgr n) k"
  shows "established n k"
  using node_invD [OF assms(1)] settled_fields [OF assms(2)] assms(3)
  by (auto simp: established_def session_with_def up_keys_def up_in_def)

lemma dial_schedule:
  assumes n: "node_reachable n" "settled n" and st: "state_table (mgr n) k = Some (Connecting t)"
  shows "\<exists>conn ans n'. node_path n [Dialled t conn, MgrTasks, MgrSent, CoordIroh ans] n' \<and> steady n' k"
proof -
  note f = settled_fields [OF n(2)]
  have t: "tasks (mgr n) t = Some (ConnectTask k)"
    using resilience.inv_reachable [OF n(1)] f st by (fastforce simp: attended_def busy_def)
  define conn where "conn = \<lparr>conn_handle = 0, remote_id = k\<rparr>"
  let ?n = "n\<lparr>mgr := task_ends t (mgr n), inbox := [OutgoingConnection conn]\<rparr>"
  have s: "node_step n (Dialled t conn) ?n"
    using node_step.dialled [OF t, of conn] f by (simp add: conn_def inbox_room_def)
  have "handle_conn_event (mgr ?n) (OutgoingConnection conn) = Inr (init_ready_connection conn (mgr ?n))"
    using st by (simp add: handle_outgoing_def conn_def task_ends_def)
  then obtain ans n' where "node_path ?n [MgrTasks, MgrSent, CoordIroh ans] n'" "steady n' k"
    using ready_schedule [OF reach_step [OF n(1) s], of "OutgoingConnection conn" conn "mgr ?n"] f by (auto simp: task_ends_def conn_def)
  then have "node_path n [Dialled t conn, MgrTasks, MgrSent, CoordIroh ans] n' \<and> steady n' k"
    using node_path_step [OF s] by blast
  then show ?thesis by blast
qed

lemma accept_schedule:
  assumes n: "node_reachable n" "settled n" and known: "k \<in> whitelist (mgr n)" and small: "endpoint_id (mgr n) < k"
  shows "\<exists>a conn ans n'. node_path n [Accepted a conn, MgrTasks, MgrSent, CoordIroh ans] n' \<and> steady n' k \<and> remote_id conn = k"
proof -
  note f = settled_fields [OF n(2)] and r = resilience.inv_reachable [OF n(1)]
  have mi: "mgr_inv (mgr n)" using r by (simp add: node_inv_def)
  obtain st where st: "state_table (mgr n) k = Some st" using mgr_inv_dom [OF mi] known by auto
  have "attended_entry (mgr n) [] k st" using r st f by (fastforce simp: attended_def busy_def)
  with mgr_inv_entry [OF mi st] small consider "st = WaitingIncomingConnection" | t c ch where "st = Connected t c ch"
    by (cases st) (auto simp: entry_inv_def)
  note cases = this
  obtain a where a: "tasks (mgr n) a = Some AcceptTask" using r by (auto simp: attended_def)
  define conn where "conn = \<lparr>conn_handle = 0, remote_id = k\<rparr>"
  let ?n = "n\<lparr>inbox := [IncomingConnection conn]\<rparr>"
  have s: "node_step n (Accepted a conn) ?n"
    using node_step.accepted [OF a, of conn] f by (simp add: inbox_room_def)
  obtain u where "handle_incoming conn (mgr n) = init_ready_connection conn u" "to_coord u = []"
    using cases
  proof cases
    case 1
    with that [of "mgr n"] st f show ?thesis by (simp add: handle_incoming_def conn_def)
  next
    case (2 t c ch)
    with that [of "close c 1 ''connection is expired: peer open another connection'' (abort t (mgr n))"] st f show ?thesis
      by (simp add: handle_incoming_def conn_def mgr_simps)
  qed
  then obtain ans n' where "node_path ?n [MgrTasks, MgrSent, CoordIroh ans] n'" "steady n' k"
    using ready_schedule [OF reach_step [OF n(1) s], of "IncomingConnection conn" conn u] f by (auto simp: conn_def)
  then have "node_path n [Accepted a conn, MgrTasks, MgrSent, CoordIroh ans] n' \<and> steady n' k \<and> remote_id conn = k"
    using node_path_step [OF s] by (auto simp: conn_def)
  then show ?thesis by blast
qed

lemma settled_entry:
  assumes "node_reachable n" and "settled n" and "k \<in> whitelist (mgr n)"
  obtains t c ch where "state_table (mgr n) k = Some (Connected t c ch)" "tasks (mgr n) t = Some (SessionTask c ch)"
  | t where "state_table (mgr n) k = Some (Connecting t)" "tasks (mgr n) t = Some (ConnectTask k)" "\<not> endpoint_id (mgr n) < k"
  | "state_table (mgr n) k = Some WaitingIncomingConnection" "endpoint_id (mgr n) < k"
proof -
  note f = settled_fields [OF assms(2)] and r = resilience.inv_reachable [OF assms(1)]
  have mi: "mgr_inv (mgr n)" using r by (simp add: node_inv_def)
  obtain st where st: "state_table (mgr n) k = Some st" using mgr_inv_dom [OF mi] assms(3) by auto
  have "attended_entry (mgr n) [] k st" using r st f by (fastforce simp: attended_def busy_def)
  with mgr_inv_entry [OF mi st] st that show thesis by (cases st) (auto simp: entry_inv_def)
qed

section \<open>Two started nodes\<close>

lemma sample_start_state:
  "node_reachable sample_node" "settled sample_node" "whitelist (mgr sample_node) = {7}" "endpoint_id (mgr sample_node) = 5"
  "state_table (mgr sample_node) 7 = Some WaitingIncomingConnection"
proof -
  show "node_reachable sample_node" by (rule reach_init) (rule sample_node_initial)
qed (simp_all add: settled_def calm_def sample_node_simps Coordinator_new_def)

lemma far_start_state:
  "settled far_start" "whitelist (mgr far_start) = {5}" "endpoint_id (mgr far_start) = 7"
  "\<not> is_up (mgr far_start) 5"
  by (simp_all add: settled_def calm_def far_simps mgr_simps Coordinator_new_def up_in_def)

end
