(* ===== verification/Mesh_Ordering.thy ===== *)
theory Mesh_Ordering
  imports Mesh_Network "HOL-Library.Multiset"
begin

text \<open>
  Ordering and multiplicity on the data path. What the virtual interface is given is a
  subsequence of the admissible datagrams in the order of their arrival, and no packet of the
  host leaves the node more often than the host handed it over. The first is an invariant on
  lists over the process, the second a conservation invariant on multisets over the node: every
  packet that waits anywhere between the host and the wire is accounted for once.
\<close>

section \<open>What a pass of the coordinator queues\<close>

text \<open>A queue that has only grown, by messages of a given list in its order.\<close>

definition extends :: "'a list \<Rightarrow> 'a list \<Rightarrow> 'a list \<Rightarrow> bool" where
  "extends zs xs ys \<longleftrightarrow> (\<exists>ds. ys = xs @ ds \<and> subseq ds zs)"

lemma extends_refl: "extends zs xs xs"
  by (simp add: extends_def)

lemma extends_skip: "extends zs xs ys \<Longrightarrow> extends (z # zs) xs ys"
  by (auto simp: extends_def)

lemma extends_take: "extends zs (xs @ [z]) ys \<Longrightarrow> extends (z # zs) xs ys"
  unfolding extends_def by (elim exE) (auto intro: exI [of _ "z # _"])

lemma handle_actions_queues:
  "handle_actions ans s as \<in> {Done t, Suspended t bs} \<Longrightarrow> core t = core s \<and>
   extends (List.map_filter iroh_part as) (tx_to_iroh s) (tx_to_iroh t) \<and>
   extends (List.map_filter tun_part as) (tx_to_tun s) (tx_to_tun t)"
proof (induction as arbitrary: ans s)
  case Nil
  then show ?case by (simp add: extends_refl)
next
  case (Cons a as)
  note IH = Cons.IH [of "ans \<circ> Suc"]
  show ?case
  proof (cases a)
    case (ConnectToPeer k)
    with Cons.prems IH [of s] show ?thesis by (auto simp: map_filter_simps o_def)
  next
    case (DisconnectFromPeer k)
    with Cons.prems IH [of "queue_iroh (CoreAction.DisconnectFromPeer k) s"] show ?thesis
      by (cases "ans 0") (auto simp: map_filter_simps extends_refl o_def intro: extends_take)
  next
    case (SendPacketTo p k)
    with Cons.prems IH [of s] IH [of "queue_iroh (CoreAction.SendPacketTo p k) s"] show ?thesis
      by (cases "ans 0") (auto simp: map_filter_simps o_def intro: extends_take extends_skip)
  next
    case (WriteToTun p)
    with Cons.prems IH [of s] IH [of "queue_tun p s"] show ?thesis
      by (cases "ans 0") (auto simp: map_filter_simps o_def intro: extends_take extends_skip)
  next
    case (NoAction lg)
    with Cons.prems IH [of s] show ?thesis by (auto simp: map_filter_simps o_def)
  qed
qed

lemma coord_pass_queues:
  assumes "handle_core_input ans s e = Some r" and "after_handler r = Go t bs"
  obtains acts where "process (core s) e = Some (core t, acts)"
    "extends (List.map_filter iroh_part acts) (tx_to_iroh s) (tx_to_iroh t)"
    "extends (List.map_filter tun_part acts) (tx_to_tun s) (tx_to_tun t)"
proof -
  obtain c acts where c: "process (core s) e = Some (c, acts)" "r = handle_actions ans (s\<lparr>core := c\<rparr>) acts"
    using assms(1) by (auto simp: handle_core_input_def)
  from assms(2) have "r \<in> {Done t, Suspended t bs}" by (cases r) auto
  from handle_actions_queues [OF this [unfolded c(2)]] c that show thesis by auto
qed

section \<open>Inbound order\<close>

text \<open>The packets of queued events and of arrivals that pass the incoming checks, in order.\<close>

fun passing :: "(bytes \<Rightarrow> 'pk \<Rightarrow> bool) \<Rightarrow> 'pk IrohEvent \<Rightarrow> bytes option" where
  "passing ok (RecvPacketFrom p k) = (if ok p k then Some p else None)"
| "passing ok _ = None"

definition deliverable :: "(bytes \<Rightarrow> 'pk \<Rightarrow> bool) \<Rightarrow> 'pk IrohEvent list \<Rightarrow> bytes list" where
  "deliverable ok evs = List.map_filter (passing ok) evs"

definition admitted :: "(bytes \<Rightarrow> 'pk \<Rightarrow> bool) \<Rightarrow> (bytes \<times> 'pk) list \<Rightarrow> bytes list" where
  "admitted ok rs = map fst (filter (\<lambda>(p, k). ok p k) rs)"

lemma deliverable_simps [simp]:
  "deliverable ok [] = []" "deliverable ok (es @ fs) = deliverable ok es @ deliverable ok fs"
  "deliverable ok (RecvPacketFrom p k # es) = (if ok p k then [p] else []) @ deliverable ok es"
  "deliverable ok (ConnectedToPeer k # es) = deliverable ok es"
  "deliverable ok (DisconnectedFromPeer k # es) = deliverable ok es"
  by (simp_all add: deliverable_def map_filter_append map_filter_simps)

lemma admitted_simps [simp]:
  "admitted ok [] = []" "admitted ok (rs @ rs') = admitted ok rs @ admitted ok rs'"
  "admitted ok [(p, k)] = (if ok p k then [p] else [])"
  by (simp_all add: admitted_def)

lemma process_tun_parts:
  assumes "core_inv c" and "process c e = Some (d, acts)"
  shows "List.map_filter tun_part acts =
    (case e of PacketFromIroh p k \<Rightarrow> if ingress_ok c p k then [p] else [] | _ \<Rightarrow> [])"
proof (cases e)
  case (PeerConnected k)
  with assms(2) show ?thesis
    by (cases rule: on_peer_connected_cases [of c k]) (auto simp: map_filter_simps map_filter_def)
next
  case (PeerDisconnected k)
  with assms(2) show ?thesis
    by (cases rule: on_peer_disconnected_cases [of c k]) (auto simp: map_filter_simps)
next
  case (PacketFromTun p)
  with assms(2) show ?thesis
    by (cases rule: send_packet_cases [OF assms(1), of p]) (auto simp: map_filter_simps map_filter_def)
next
  case (PacketFromIroh p k)
  with assms(2) recv_packet_eq [of c p k] show ?thesis by (auto simp: map_filter_simps split: if_splits)
qed

text \<open>A step of the node hands on packets from the front of its incoming queue and appends the
  datagrams it reads.\<close>

abbreviation node_ok :: "'pk Node \<Rightarrow> bytes \<Rightarrow> 'pk \<Rightarrow> bool" where
  "node_ok n \<equiv> ingress_ok (core (coord n))"

definition inbound_moves :: "'pk Node \<Rightarrow> 'pk Node \<Rightarrow> bool" where
  "inbound_moves n n' \<longleftrightarrow> (\<exists>ps r. tx_to_tun (coord n') = tx_to_tun (coord n) @ ps \<and> arrived n' = arrived n @ r \<and>
     subseq (ps @ deliverable (node_ok n) (to_coord (mgr n')))
       (deliverable (node_ok n) (to_coord (mgr n)) @ admitted (node_ok n) r))"

lemma inbound_moves_quiet:
  assumes "tx_to_tun (coord n') = tx_to_tun (coord n)" and "arrived n' = arrived n"
    and "deliverable (node_ok n) (to_coord (mgr n')) = deliverable (node_ok n) (to_coord (mgr n))"
  shows "inbound_moves n n'"
  using assms by (auto simp: inbound_moves_def)

lemma inbound_moves_coord:
  assumes inv: "core_inv (core (coord n))" and h: "handle_core_input ans (coord n) e = Some r"
    and put: "put_coord m (after_handler r) = Some n'" and m: "arrived m = arrived n"
    and q: "deliverable (node_ok n) (to_coord (mgr n)) =
      (case e of PacketFromIroh p k \<Rightarrow> if node_ok n p k then [p] else [] | _ \<Rightarrow> []) @
      deliverable (node_ok n) (to_coord (mgr m))"
  shows "inbound_moves n n'"
proof -
  from put obtain c bs where go: "after_handler r = Go c bs" and n': "n' = m\<lparr>coord := c, pending := bs\<rparr>"
    by (auto simp: put_coord_def split: coord_pass.splits)
  from coord_pass_queues [OF h go] obtain acts ps where a: "process (core (coord n)) e = Some (core c, acts)"
    "tx_to_tun c = tx_to_tun (coord n) @ ps" "subseq ps (List.map_filter tun_part acts)" unfolding extends_def by metis
  with process_tun_parts [OF inv a(1)] m q show ?thesis
    by (auto simp: inbound_moves_def n' intro: list_emb_append_mono)
qed

lemma handle_conn_event_quiet:
  assumes "handle_conn_event s ev = Inr t"
  shows "to_coord t = to_coord s \<and> channels t = channels s \<and> next_id t = next_id s"
  using assms
  by (cases ev) (auto simp: handle_outgoing_def handle_incoming_def handle_disconnected_def
      init_ready_connection_def mgr_simps split: option.splits ConnectionState.splits)

lemma complete_send_deliverable:
  assumes "mgr_inv s"
  shows "deliverable ok (to_coord (complete_send d s)) = deliverable ok (to_coord s)"
proof (cases "awaiting s")
  case (Some a)
  obtain ev k where a: "a = (ev, k)" by (cases a)
  with assms Some have "cont_ok (state_table s) ev k" by (simp add: mgr_inv_def await_inv_def)
  with Some a show ?thesis
    by (cases k) (auto simp: complete_send_def start_session_def init_new_connection_def mgr_simps)
qed (simp add: complete_send_def)

lemma node_step_inbound:
  assumes "node_step n l n'" and "node_inv n" and "l \<noteq> HostTakes"
  shows "inbound_moves n n'"
proof -
  have ci: "core_inv (core (coord n))" and mi: "mgr_inv (mgr n)" using assms(2) by (simp_all add: node_inv_def)
  from assms(1) show ?thesis
  proof (cases rule: node_step.cases)
    case (coord_iroh ev q ans r)
    then obtain h where "handle_core_input ans (coord n) (map_iroh_event_to_core_event ev) = Some h" "r = after_handler h"
      by (auto simp: handle_iroh_event_def)
    with coord_iroh show ?thesis
      by (intro inbound_moves_coord [OF ci, of ans "map_iroh_event_to_core_event ev" h "n\<lparr>mgr := (mgr n)\<lparr>to_coord := q\<rparr>\<rparr>" n'];
          cases ev) simp_all
  next
    case (coord_tun p q ans r)
    then obtain h where "handle_core_input ans (coord n) (PacketFromTun p) = Some h" "r = after_handler h"
      by (auto simp: handle_packet_from_tun_def)
    with coord_tun show ?thesis by (intro inbound_moves_coord [OF ci, of ans "PacketFromTun p" h "n\<lparr>from_tun := q\<rparr>" n']) simp_all
  next
    case (coord_resume ans)
    with assms(2) show ?thesis by (simp add: node_inv_def)
  next
    case (mgr_tasks ev q s)
    with handle_conn_event_quiet [of "mgr n" ev s] show ?thesis
      by (intro inbound_moves_quiet) (auto split: sum.splits)
  next
    case (mgr_coord a q ans s)
    then show ?thesis by (intro inbound_moves_quiet) (auto simp: handle_core_event_keeps)
  next
    case mgr_sent
    with complete_send_deliverable [OF mi] show ?thesis by (intro inbound_moves_quiet) simp_all
  next
    case (session t conn ch i s)
    with take_packet_frame(2) [OF session(6)] show ?thesis 
      by (cases "(conn, i)" rule: session_pass.cases)
         (auto simp: inbound_moves_def apply_session_def map_filter_simps task_ends_def)
  qed (use assms(3) in \<open>auto intro!: inbound_moves_quiet simp: task_ends_def\<close>)
qed

text \<open>Over the process: what the interface was given, and what still waits for the coordinator, is
  a subsequence of the admissible arrivals.\<close>

definition inbound_order :: "('pk, 'te) Process \<Rightarrow> bool" where
  "inbound_order s \<longleftrightarrow>
     subseq (put (proc_tun s) @ deliverable (node_ok (proc_node s)) (to_coord (mgr (proc_node s))))
       (admitted (node_ok (proc_node s)) (arrived (proc_node s)))"

lemma inbound_order_moves:
  assumes "inbound_order s" and "inbound_moves (proc_node s) n'" and "node_ok n' = node_ok (proc_node s)"
  shows "inbound_order (s\<lparr>proc_node := n', proc_tun := put_new (proc_node s) n' (proc_tun s)\<rparr>)"
proof -
  let ?ok = "node_ok (proc_node s)"
  from assms(2) obtain ps r where m: "tx_to_tun (coord n') = tx_to_tun (coord (proc_node s)) @ ps"
    "arrived n' = arrived (proc_node s) @ r"
    "subseq (ps @ deliverable ?ok (to_coord (mgr n'))) (deliverable ?ok (to_coord (mgr (proc_node s))) @ admitted ?ok r)"
    unfolding inbound_moves_def by blast
  have "subseq (put (proc_tun s) @ ps @ deliverable ?ok (to_coord (mgr n')))
      (put (proc_tun s) @ deliverable ?ok (to_coord (mgr (proc_node s))) @ admitted ?ok r)"
    using m(3) by (simp add: list_emb_append_mono)
  also have "subseq \<dots> (admitted ?ok (arrived (proc_node s)) @ admitted ?ok r)"
    using assms(1) unfolding inbound_order_def
    by (metis append.assoc list_emb_append_mono subseq_order.order_refl)
  finally show ?thesis by (simp add: inbound_order_def put_new_def m(1,2) assms(3))
qed

lemma node_ok_grows: "node_grows n n' \<Longrightarrow> node_ok n' = node_ok n"
  using egress_config(2) by (auto simp: node_grows_def)

lemma inbound_order_step:
  assumes step: "proc_step s l s'" and inv: "proc_inv s" and ord: "inbound_order s"
  shows "inbound_order s'"
proof -
  have n: "node_reachable (proc_node s)" "rx (proc_tun s) = tx_to_tun (coord (proc_node s))"
    using inv by (simp_all add: proc_inv_def)
  note ni = node.inv_reachable [OF n(1)]
  have moved: "inbound_order (s\<lparr>proc_node := n', proc_tun := put_new (proc_node s) n' (proc_tun s)\<rparr>)"
    if "node_step (proc_node s) m n'" "m \<noteq> HostTakes" for m n'
    using inbound_order_moves [OF ord node_step_inbound [OF that(1) ni that(2)]]
      node_ok_grows [OF node_step_grows [OF that(1) ni]] by blast
  from step show ?thesis
  proof (cases rule: proc_step.cases)
    case (node_works m n')
    then have "m \<noteq> HostTakes" by auto
    with moved node_works show ?thesis by simp
  next
    case (coord_passes i e m alive ans r n')
    with moved coord_pass_node_step [OF ni coord_passes(5,7-)] show ?thesis by blast
  next
    case (tun_works m t')
    have "put t' = put (proc_tun s)" using tun_step_feeds(2) [OF tun_works(5,4) n(2)] .
    with ord tun_works show ?thesis by (simp add: inbound_order_def feed_node_def Let_def)
  qed (use ord in \<open>simp_all add: inbound_order_def\<close>)
qed

interpretation ordered: inductive_invariant proc_initial proc_step "\<lambda>s. proc_inv s \<and> inbound_order s"
proof
  fix s :: "('a::linorder, 'b) Process"
  assume s: "proc_initial s"
  then have "put (proc_tun s) = []" and "to_coord (mgr (proc_node s)) = []" 
    using node_initial_empty(1) [of "proc_node s"] by (simp_all add: proc_initial_def Tun_initial_def)
  with s proc.inv_initial show "proc_inv s \<and> inbound_order s" by (auto simp: inbound_order_def)
qed (use proc.inv_step inbound_order_step in blast)

lemma written_in_order:
  assumes "proc_reachable s"
  shows "subseq (written (proc_tun s)) (admitted (node_ok (proc_node s)) (arrived (proc_node s)))"
proof -
  have "tun_inv (proc_tun s)" using proc_invD [OF assms] tun.inv_reachable by blast
  then have "subseq (written (proc_tun s)) (put (proc_tun s))"
    unfolding tun_inv_def by (metis subseq_order.trans subseq_rev_drop_many)
  also have "subseq \<dots> (admitted (node_ok (proc_node s)) (arrived (proc_node s)))"
    using ordered.inv_reachable [OF assms] unfolding inbound_order_def by (metis list_emb_append2 subseq_appendE subseq_order.trans prefix_imp_subseq prefixI)
  finally show ?thesis .
qed

section \<open>Outbound conservation\<close>

text \<open>The packets that wait in the core for a connection, in the channels of the sessions and in
  the queue from the coordinator to the manager, as multisets.\<close>

definition core_bag :: "'pk VpnCore \<Rightarrow> bytes multiset" where
  "core_bag c = (\<Sum>k \<in> dom (peers c). mset (packet_queue (the (peers c k))))"

definition queue_of :: "'pk Iroh \<Rightarrow> nat \<Rightarrow> bytes list" where
  "queue_of s ch = (case channels s ch of Some q \<Rightarrow> q | None \<Rightarrow> [])"

definition channel_bag :: "'pk Iroh \<Rightarrow> bytes multiset" where
  "channel_bag s = (\<Sum>ch < next_id s. mset (queue_of s ch))"

fun packet_of :: "'pk CoreAction \<Rightarrow> bytes option" where
  "packet_of (CoreAction.SendPacketTo p k) = Some p"
| "packet_of _ = None"

fun sent_part :: "'pk Action \<Rightarrow> bytes option" where
  "sent_part (Action.SendPacketTo p k) = Some p"
| "sent_part _ = None"

definition action_bag :: "'pk CoreAction list \<Rightarrow> bytes multiset" where
  "action_bag as = mset (List.map_filter packet_of as)"

definition in_flight :: "'pk Node \<Rightarrow> bytes multiset" where
  "in_flight n = mset (from_tun n) + core_bag (core (coord n)) + action_bag (tx_to_iroh (coord n)) +
     channel_bag (mgr n)"

definition conserved :: "'pk Node \<Rightarrow> bool" where
  "conserved n \<longleftrightarrow> finite (dom (peers (core (coord n)))) \<and> (\<forall>ch \<ge> next_id (mgr n). channels (mgr n) ch = None) \<and>
     mset (map fst (wire n)) + in_flight n \<subseteq># mset (host_sent n)"

subsection \<open>The core\<close>

lemma core_bag_upd:
  assumes "finite (dom (peers c))" and "peers c k = Some peer"
  shows "core_bag (c\<lparr>peers := (peers c)(k \<mapsto> peer')\<rparr>) + mset (packet_queue peer) = core_bag c + mset (packet_queue peer')"
proof -
  have k: "k \<in> dom (peers c)" using assms(2) by auto
  have "(\<Sum>j \<in> dom (peers c) - {k}. mset (packet_queue (the (((peers c)(k \<mapsto> peer')) j)))) =
      (\<Sum>j \<in> dom (peers c) - {k}. mset (packet_queue (the (peers c j))))" by (rule sum.cong) auto
  with assms sum.remove [OF assms(1) k, of "\<lambda>j. mset (packet_queue (the (peers c j)))"]
    sum.remove [OF assms(1) k, of "\<lambda>j. mset (packet_queue (the (((peers c)(k \<mapsto> peer')) j)))"] k
  show ?thesis by (simp add: core_bag_def insert_absorb ac_simps)
qed

lemma buffer_packet_bag: "mset (fst (buffer_packet q p)) \<subseteq># add_mset p (mset q)"
  by (cases q) (auto simp: buffer_packet_def)

text \<open>The core emits every packet at most once: what it keeps and what it sends was kept before or
  has just come from the host.\<close>

lemma process_bag:
  assumes inv: "core_inv c" and fin: "finite (dom (peers c))" and p: "process c e = Some (d, acts)"
  shows "core_bag d + mset (List.map_filter sent_part acts) \<subseteq>#
      core_bag c + (case e of PacketFromTun p \<Rightarrow> {#p#} | _ \<Rightarrow> {#})"
proof (cases e)
  case (PeerConnected k)
  show ?thesis
  proof (cases rule: on_peer_connected_cases [of c k])
    case (drained peer)
    have "List.map_filter sent_part (map (\<lambda>p. Action.SendPacketTo p k) (packet_queue peer)) = packet_queue peer"
      by (simp add: map_filter_def o_def)
    with drained PeerConnected p core_bag_upd [OF fin drained(1), of "peer\<lparr>is_connected := True, packet_queue := []\<rparr>"]
    show ?thesis by auto
  qed (use PeerConnected p in \<open>auto simp: map_filter_simps\<close>)
next
  case (PeerDisconnected k)
  show ?thesis
  proof (cases rule: on_peer_disconnected_cases [of c k])
    case (closed peer)
    with PeerDisconnected p core_bag_upd [OF fin closed(1), of "peer\<lparr>is_connected := False\<rparr>"]
    show ?thesis by auto
  qed (use PeerDisconnected p in \<open>auto simp: map_filter_simps\<close>)
next
  case (PacketFromTun x)
  show ?thesis
  proof (cases rule: send_packet_cases [OF inv, of x])
    case 1
    with PacketFromTun p show ?thesis by (auto simp: map_filter_simps)
  next
    case 2
    with PacketFromTun p show ?thesis by (auto simp: map_filter_simps)
  next
    case (3 k peer)
    let ?q = "fst (buffer_packet (packet_queue peer) x)"
    have "core_bag d + mset (packet_queue peer) = core_bag c + mset ?q"
      using core_bag_upd [OF fin 3(2), of "peer\<lparr>packet_queue := ?q\<rparr>"] 3 PacketFromTun p by auto
    also have "\<dots> \<subseteq># core_bag c + {#x#} + mset (packet_queue peer)"
      using buffer_packet_bag [of "packet_queue peer" x] by simp
    finally have "core_bag d \<subseteq># core_bag c + {#x#}" by simp
    moreover have "List.map_filter sent_part acts = []" using 3 PacketFromTun p by (auto simp: map_filter_def)
    ultimately show ?thesis using PacketFromTun by simp
  qed
next
  case (PacketFromIroh x k)
  with p recv_packet_eq [of c x k] show ?thesis by (auto simp: map_filter_simps split: if_splits)
qed

lemma iroh_packets: "List.map_filter packet_of (List.map_filter iroh_part as) = List.map_filter sent_part as"
proof (induction as)
  case (Cons a as)
  then show ?case by (cases a) (simp_all add: map_filter_simps)
qed simp

lemma action_bag_Cons: "action_bag (a # q) = action_bag [a] + action_bag q"
  by (cases "packet_of a") (simp_all add: action_bag_def map_filter_simps)

lemma subseq_mset: "subseq xs ys \<Longrightarrow> mset xs \<subseteq># mset ys"
  by (induction rule: list_emb.induct) (auto intro: subset_mset.order_trans)

lemma action_bag_extends:
  assumes "extends (List.map_filter iroh_part acts) xs ys"
  shows "action_bag ys \<subseteq># action_bag xs + mset (List.map_filter sent_part acts)"
proof -
  from assms obtain ds where ds: "ys = xs @ ds" "subseq ds (List.map_filter iroh_part acts)"
    by (auto simp: extends_def)
  have "subseq (List.map_filter packet_of ds) (List.map_filter packet_of (List.map_filter iroh_part acts))"
    using ds(2) unfolding map_filter_def by (intro subseq_map subseq_filter)
  then have "mset (List.map_filter packet_of ds) \<subseteq># mset (List.map_filter sent_part acts)"
    by (simp add: iroh_packets subseq_mset)
  with ds(1) show ?thesis by (simp add: action_bag_def map_filter_append)
qed

lemma conserved_coord:
  assumes inv: "core_inv (core (coord n))" and con: "conserved n"
    and h: "handle_core_input ans (coord n) e = Some r" and put: "put_coord m (after_handler r) = Some n'"
    and m: "wire m = wire n" "host_sent m = host_sent n" "channels (mgr m) = channels (mgr n)" "next_id (mgr m) = next_id (mgr n)"
    and q: "mset (from_tun n) = mset (from_tun m) + (case e of PacketFromTun p \<Rightarrow> {#p#} | _ \<Rightarrow> {#})"
  shows "conserved n'"
proof -
  from put obtain c bs where go: "after_handler r = Go c bs" and n': "n' = m\<lparr>coord := c, pending := bs\<rparr>"
    by (auto simp: put_coord_def split: coord_pass.splits)
  have fin: "finite (dom (peers (core (coord n))))" using con by (simp add: conserved_def)
  obtain acts where a: "process (core (coord n)) e = Some (core c, acts)"
    "extends (List.map_filter iroh_part acts) (tx_to_iroh (coord n)) (tx_to_iroh c)"
    using coord_pass_queues [OF h go] by blast
  let ?sent = "mset (List.map_filter sent_part acts)" and ?e = "case e of PacketFromTun p \<Rightarrow> {#p#} | _ \<Rightarrow> {#}"
  have "mset (from_tun m) + core_bag (core c) + action_bag (tx_to_iroh c) \<subseteq>#
      mset (from_tun m) + (core_bag (core c) + ?sent) + action_bag (tx_to_iroh (coord n))"
    using action_bag_extends [OF a(2)] by (simp add: ac_simps)
  also have "\<dots> \<subseteq># mset (from_tun m) + (core_bag (core (coord n)) + ?e) + action_bag (tx_to_iroh (coord n))"
    using process_bag [OF inv fin a(1)] by (simp only: subset_mset.add_mono order_refl subset_mset.order_refl)
  finally have "in_flight n' \<subseteq># in_flight n"
    by (simp add: in_flight_def n' q channel_bag_def queue_of_def m ac_simps)
  moreover have "dom (peers (core c)) = dom (peers (core (coord n)))"
    using process_config [OF inv a(1)] by (simp add: core_config_def)
  ultimately show ?thesis using con m
    by (simp add: conserved_def n') (meson subset_mset.add_left_mono subset_mset.order_trans)
qed

subsection \<open>The manager\<close>

abbreviation unused :: "'pk Iroh \<Rightarrow> bool" where
  "unused s \<equiv> \<forall>ch \<ge> next_id s. channels s ch = None"

lemma channel_bag_upd:
  assumes "ch < next_id s"
  shows "channel_bag (s\<lparr>channels := (channels s)(ch \<mapsto> q)\<rparr>) + mset (queue_of s ch) = channel_bag s + mset q"
proof -
  let ?s = "s\<lparr>channels := (channels s)(ch \<mapsto> q)\<rparr>"
  have "(\<Sum>c \<in> {..<next_id s} - {ch}. mset (queue_of ?s c)) = (\<Sum>c \<in> {..<next_id s} - {ch}. mset (queue_of s c))"
    by (rule sum.cong) (auto simp: queue_of_def)
  moreover have "queue_of ?s ch = q" by (simp add: queue_of_def)
  ultimately show ?thesis
    using sum.remove [of "{..<next_id s}" ch "\<lambda>c. mset (queue_of s c)"] sum.remove [of "{..<next_id s}" ch "\<lambda>c. mset (queue_of ?s c)"] assms
    by (simp add: channel_bag_def ac_simps)
qed

lemma channel_bag_fresh:
  assumes "unused s" and "channels t = channels s" and "next_id s \<le> next_id t"
  shows "channel_bag t = channel_bag s"
proof -
  have "channel_bag t = (\<Sum>ch < next_id s. mset (queue_of t ch))"
    unfolding channel_bag_def
    by (rule sum.mono_neutral_right) (use assms in \<open>auto simp: queue_of_def\<close>)
  with assms(2) show ?thesis by (simp add: channel_bag_def queue_of_def)
qed

lemma bag_start_session:
  assumes "unused s"
  shows "unused (start_session conn s) \<and> channel_bag (start_session conn s) = channel_bag s"
proof -
  let ?t = "start_session conn s"
  have "channel_bag ?t = channel_bag (s\<lparr>channels := (channels s)(next_id s \<mapsto> []), next_id := Suc (next_id s)\<rparr>)"
    by (rule channel_bag_fresh) (use assms in \<open>auto simp: start_session_def mgr_simps\<close>)
  also have "\<dots> = channel_bag s" using assms by (simp add: channel_bag_def queue_of_def)
  finally show ?thesis using assms by (auto simp: start_session_def mgr_simps)
qed

lemma bag_init_new:
  assumes "unused s"
  shows "unused (init_new_connection k s) \<and> channel_bag (init_new_connection k s) = channel_bag s"
  using assms by (auto simp: init_new_connection_def mgr_simps intro!: channel_bag_fresh)

lemma bag_complete_send:
  assumes "unused s"
  shows "unused (complete_send d s) \<and> channel_bag (complete_send d s) = channel_bag s"
proof (cases "awaiting s")
  case (Some a)
  obtain ev k where a: "a = (ev, k)" by (cases a)
  let ?s = "s\<lparr>awaiting := None, to_coord := to_coord s @ (if d then [ev] else [])\<rparr>"
  have "unused ?s" and "channel_bag ?s = channel_bag s" using assms by (simp_all add: channel_bag_def queue_of_def)
  moreover have "channel_bag (set_state x st ?s) = channel_bag ?s" for x st
    by (simp add: channel_bag_def queue_of_def set_state_def)
  ultimately show ?thesis
    using Some a bag_start_session [of ?s] bag_init_new [of ?s]
    by (cases k) (auto simp: complete_send_def set_state_def)
qed (use assms in \<open>simp add: complete_send_def\<close>)

lemma bag_core_event:
  assumes "unused s" and "mgr_inv s" and "action_routed ok a"
  shows "unused (handle_core_event s ans a) \<and>
    channel_bag (handle_core_event s ans a) \<subseteq># channel_bag s + action_bag [a]"
proof (cases a)
  case (SendPacketTo p k)
  show ?thesis
  proof (cases "\<exists>t c ch. state_table s k = Some (Connected t c ch)")
    case True
    then obtain t c ch where st: "state_table s k = Some (Connected t c ch)" by blast
    from mgr_inv_entry [OF assms(2) st] have ch: "ch < next_id s" by (simp add: entry_inv_def)
    with channel_bag_upd [OF ch, of "queue_of s ch @ [p]"] st assms(1) SendPacketTo show ?thesis
      by (cases ans) (auto simp: push_packet_def queue_of_def action_bag_def map_filter_simps)
  next
    case False
    then have "handle_core_event s ans a = s"
      using SendPacketTo by (auto split: option.splits ConnectionState.splits)
    with assms(1) show ?thesis by simp
  qed
qed (use assms(3) in simp_all)

lemma bag_take:
  assumes "unused s" and "mgr_inv s" and "tasks s t = Some (SessionTask conn ch)" and "take_packet ch i s = Some s'"
  shows "unused s' \<and> channel_bag s' + mset (case sent_packet i of Some p \<Rightarrow> [p] | None \<Rightarrow> []) \<subseteq># channel_bag s"
proof -
  have ch: "ch < next_id s" using assms(2,3) by (auto simp: mgr_inv_def task_inv_def)
  show ?thesis
  proof (cases "\<exists>p r. i = RecvFromManager (Some p) r")
    case True
    then obtain p r where i: "i = RecvFromManager (Some p) r" by blast
    then obtain q where q: "channels s ch = Some (p # q)" "s' = s\<lparr>channels := (channels s)(ch \<mapsto> q)\<rparr>"
      using assms(4) by (auto simp: take_packet_def split: option.splits list.splits if_splits)
    have "channel_bag s' + {#p#} = channel_bag s"
      using channel_bag_upd [OF ch, of q] q by (simp add: queue_of_def)
    then have "channel_bag s' \<subseteq># channel_bag s" "add_mset p (channel_bag s') \<subseteq># channel_bag s"
       by (metis mset_subset_eq_add_left, simp)
    with assms(1) ch q i show ?thesis by auto
  next
    case False
    then have "s' = s" "sent_packet i = None"
      using assms(4) by (auto simp: take_packet_def split: session_input.splits option.splits list.splits if_splits)
    with assms(1) show ?thesis by simp
  qed
qed

subsection \<open>The node\<close>

lemma conservedI:
  assumes "conserved n" and "core (coord n') = core (coord n)" and "unused (mgr n')" and "host_sent n' = host_sent n"
    and "mset (map fst (wire n')) + in_flight n' \<subseteq># mset (map fst (wire n)) + in_flight n"
  shows "conserved n'"
  using assms subset_mset.order_trans [OF assms(5)] by (simp add: conserved_def)

lemma conserved_session:
  assumes inv: "node_inv n" and con: "conserved n" and task: "tasks (mgr n) t = Some (SessionTask conn ch)"
    and take: "take_packet ch i (mgr n) = Some s"
  shows "conserved (apply_session conn t i s n)"
proof (rule conservedI [OF con])
  let ?w = "case sent_packet i of Some p \<Rightarrow> [p] | None \<Rightarrow> []"
  obtain effs go where p: "session_pass conn i = (effs, go)" by (cases "session_pass conn i")
  have b: "unused s" "channel_bag s + mset ?w \<subseteq># channel_bag (mgr n)"
    using bag_take [OF _ _ task take] inv con by (simp_all add: conserved_def node_inv_def)
  have w: "List.map_filter wire_part effs = ?w" using session_pass_parts(2) [of conn i] by (simp add: p)
  have s: "channel_bag (mgr (apply_session conn t i s n)) = channel_bag s"
    by (simp add: apply_session_def p task_ends_def channel_bag_def queue_of_def Let_def)
  show "unused (mgr (apply_session conn t i s n))" using b(1) by (simp add: apply_session_def p task_ends_def Let_def)
  show "mset (map fst (wire (apply_session conn t i s n))) + in_flight (apply_session conn t i s n) \<subseteq>#
      mset (map fst (wire n)) + in_flight n"
    using b(2) by (simp add: in_flight_def s) (simp add: apply_session_def p w multiset.map_comp o_def Let_def ac_simps)
qed (simp_all add: apply_session_def Let_def split: prod.splits)

lemma node_step_conserved:
  assumes "node_step n l n'" and "node_inv n" and "conserved n"
  shows "conserved n'"
proof -
  have ci: "core_inv (core (coord n))" and mi: "mgr_inv (mgr n)" using assms(2) by (simp_all add: node_inv_def)
  have un: "unused (mgr n)" using assms(3) by (simp add: conserved_def)
  from assms(1) show ?thesis
  proof (cases rule: node_step.cases)
    case (coord_iroh ev q ans r)
    then obtain h where "handle_core_input ans (coord n) (map_iroh_event_to_core_event ev) = Some h" "r = after_handler h"
      by (auto simp: handle_iroh_event_def)
    with coord_iroh show ?thesis
      by (intro conserved_coord [OF ci assms(3), of ans "map_iroh_event_to_core_event ev" h "n\<lparr>mgr := (mgr n)\<lparr>to_coord := q\<rparr>\<rparr>" n'];
          cases ev) simp_all
  next
    case (coord_tun p q ans r)
    then obtain h where "handle_core_input ans (coord n) (PacketFromTun p) = Some h" "r = after_handler h"
      by (auto simp: handle_packet_from_tun_def)
    with coord_tun show ?thesis
      by (intro conserved_coord [OF ci assms(3), of ans "PacketFromTun p" h "n\<lparr>from_tun := q\<rparr>" n']) simp_all
  next
    case (coord_resume ans)
    with assms(2) show ?thesis by (simp add: node_inv_def)
  next
    case (mgr_tasks ev q s)
    with handle_conn_event_quiet [of "mgr n" ev s] un show ?thesis
      by (intro conservedI [OF assms(3)]) (auto simp: in_flight_def channel_bag_def queue_of_def split: sum.splits)
  next
    case (mgr_coord a q ans s)
    have "action_routed (outbound n) a" using assms(2) mgr_coord by (simp add: node_inv_def)
    from bag_core_event [OF un mi this, of ans] mgr_coord show ?thesis
      by (intro conservedI [OF assms(3)])
         (auto simp: in_flight_def action_bag_Cons [of a q] ac_simps)
  next
    case mgr_sent
    with bag_complete_send [OF un] show ?thesis by (intro conservedI [OF assms(3)]) (auto simp: in_flight_def)
  next
    case (session t conn ch i s)
    with assms(2,3) show ?thesis by (auto intro: conserved_session)
  next
    case (dialled t k conn)
    with un show ?thesis
      by (intro conservedI [OF assms(3)]) (auto simp: in_flight_def task_ends_def channel_bag_def queue_of_def)
  next
    case (host_sends p)
    with assms(3) show ?thesis by (auto simp: conserved_def in_flight_def offer_def ac_simps)
  qed (use assms(3) un in \<open>auto intro!: conservedI [OF assms(3)] simp: in_flight_def\<close>)
qed

interpretation conservation: inductive_invariant node_initial node_step "\<lambda>n. node_inv n \<and> conserved n"
proof
  fix n :: "'a::linorder Node"
  assume n: "node_initial n"
  note e = node_initial_empty [OF n] node_initial_queues [OF n]
  have "core_bag (core (coord n)) = {#}" unfolding core_bag_def by (rule sum.neutral) (use e(4) in auto)
  moreover have "channel_bag (mgr n) = {#}" using e(2) by (simp add: channel_bag_def queue_of_def)
  ultimately show "node_inv n \<and> conserved n"
    using node.inv_initial [OF n] e by (simp add: conserved_def in_flight_def action_bag_def map_filter_simps)
qed (use node.inv_step node_step_conserved in blast)

lemma sent_at_most_once:
  assumes "proc_reachable s"
  shows "mset (map fst (wire (proc_node s))) + in_flight (proc_node s) \<subseteq># mset (read_out (proc_tun s))"
proof -
  have "node_reachable (proc_node s)" "read_out (proc_tun s) = host_sent (proc_node s)"
    using proc_invD [OF assms] by blast+
  with conservation.inv_reachable [of "proc_node s"] show ?thesis by (simp add: conserved_def)
qed

end
