(* ===== verification/Mesh_Healing.thy ===== *)
theory Mesh_Healing
  imports Mesh_Resilience Mesh_Ordering
begin

text \<open>
  Self-healing of the mesh: whatever has happened to the connections of a network, any finite set
  of running nodes that list each other can again reach a state in which every two of them have a
  live session. A session that exists is left alone while another pair connects (\<open>steady\<close>), so
  the pairs can be connected one after the other.
\<close>

section \<open>Sessions that a step leaves alone\<close>

text \<open>A step spares a peer when it is about no connection of that peer.\<close>

fun spares :: "'pk Iroh \<Rightarrow> 'pk \<Rightarrow> 'pk node_label \<Rightarrow> bool" where
  "spares s k (Dialled t conn) \<longleftrightarrow> remote_id conn \<noteq> k"
| "spares s k (Accepted t conn) \<longleftrightarrow> remote_id conn \<noteq> k"
| "spares s k (Session t i) \<longleftrightarrow> (\<forall>c ch. tasks s t = Some (SessionTask c ch) \<longrightarrow> remote_id c \<noteq> k)"
| "spares s k _ \<longleftrightarrow> True"

lemma session_with_frame:
  assumes "session_with s k" and "state_table u k = state_table s k" and "\<And>t. tasks s t \<noteq> None \<Longrightarrow> tasks u t = tasks s t"
  shows "session_with u k"
  using assms by (fastforce simp: session_with_def)

lemma session_with_frame_eq:
  "state_table u = state_table s \<Longrightarrow> tasks u = tasks s \<Longrightarrow> session_with u k = session_with s k"
  by (simp add: session_with_def)

text \<open>The task of a session with one peer is not the task of another entry.\<close>

lemma session_with_abort:
  assumes "mgr_inv s" and "session_with s k" and "\<And>c ch. tasks s t = Some (SessionTask c ch) \<Longrightarrow> remote_id c \<noteq> k"
  shows "session_with (abort t s) k"
proof -
  from assms(2) obtain t' c ch where e: "state_table s k = Some (Connected t' c ch)" "tasks s t' = Some (SessionTask c ch)"
    by (auto simp: session_with_def)
  have "remote_id c = k" using mgr_inv_entry [OF assms(1) e(1)] by (simp add: entry_inv_def)
  with e assms(3) have "t \<noteq> t'" by auto
  with e show ?thesis by (auto simp: session_with_def abort_def)
qed

lemma entry_task_other:
  assumes "mgr_inv s" and "state_table s k' = Some (Connected t d ch')" and "k' \<noteq> k" and "tasks s t = Some (SessionTask c ch)"
  shows "remote_id c \<noteq> k"
  using mgr_inv_entry [OF assms(1,2)] assms(3,4) by (auto simp: entry_inv_def)

lemma conn_event_spares:
  assumes inv: "mgr_inv s" and h: "handle_conn_event s ev = Inr u" and ev: "event_key ev \<noteq> Some k"
    and s: "session_with s k" "\<not> busy s k"
  shows "session_with u k \<and> \<not> busy u k"
proof -
  have other: "session_with (abort t s) k" if "state_table s k' = Some (Connected t d ch)" "k' \<noteq> k" for k' t d ch
    using session_with_abort [OF inv s(1)] entry_task_other [OF inv that] by blast
  have fr: "session_with (close c n r w) k = session_with w k" "session_with (send_await e x w) k = session_with w k"
    "busy (close c n r w) k = busy w k" "busy (abort t w) k = busy w k"
    "busy (send_await e x w) k \<longleftrightarrow> cont_key x = k" for c n r w e x t
    by (auto simp: session_with_def busy_def mgr_simps)
  show ?thesis
    using h ev s other
    by (cases ev) (auto simp: handle_outgoing_def handle_incoming_def handle_disconnected_def init_ready_connection_def fr
        split: option.splits ConnectionState.splits)
qed

lemma complete_send_spares:
  assumes inv: "mgr_inv s" and s: "session_with s k" "\<not> busy s k"
  shows "session_with (complete_send d s) k \<and> \<not> busy (complete_send d s) k"
proof (cases "awaiting s")
  case None
  with s show ?thesis by (simp add: complete_send_def)
next
  case (Some a)
  obtain ev x where a: "a = (ev, x)" by (cases a)
  have fresh: "tasks s (next_id s) = None" "tasks s (Suc (next_id s)) = None"
    using inv by (force simp: mgr_inv_def task_inv_def)+
  have x: "cont_key x \<noteq> k" using s(2) Some a by (auto simp: busy_def)
  have "session_with (complete_send d s) k"
    by (rule session_with_frame [OF s(1)]; cases x)
       (use x Some a fresh in \<open>auto simp: complete_send_def start_session_def init_new_connection_def mgr_simps\<close>)
  moreover have "awaiting (complete_send d s) = None"
    by (cases x) (use Some a in \<open>auto simp: complete_send_def start_session_def init_new_connection_def mgr_simps\<close>)
  ultimately show ?thesis by (simp add: busy_def)
qed

lemma session_spares:
  assumes inv: "mgr_inv (mgr n)" and st: "steady n k" and task: "tasks (mgr n) t = Some (SessionTask conn ch)"
    and other: "remote_id conn \<noteq> k" and take: "take_packet ch i (mgr n) = Some s"
  shows "steady (apply_session conn t i s n) k"
proof -
  obtain effs go where p: "session_pass conn i = (effs, go)" by (cases "session_pass conn i")
  note f = take_packet_frame [OF take]
  let ?n = "apply_session conn t i s n"
  have "List.map_filter manager_part effs = (if failed_input i then [ConnectionEvent.Disconnected (remote_id conn)] else [])"
    using session_pass_parts(3) [of conn i] p by simp
  then have q: "\<forall>ev \<in> set (inbox ?n). event_key ev \<noteq> Some k"
    using st other by (auto simp: steady_def apply_session_def p Let_def)
  have "session_with (abort t (mgr n)) k"
    using session_with_abort [OF inv, of k t] st task other by (auto simp: steady_def)
  moreover have "state_table (mgr ?n) = state_table (mgr n)" "tasks (mgr ?n) \<in> {tasks (mgr n), tasks (abort t (mgr n))}"
    "awaiting (mgr ?n) = awaiting (mgr n)"
    using f by (auto simp: apply_session_def p Let_def task_ends_def abort_def)
  ultimately have "session_with (mgr ?n) k" "\<not> busy (mgr ?n) k"
    using st by (auto simp: steady_def session_with_def busy_def abort_def)
  with q show ?thesis by (simp add: steady_def)
qed

lemma steady_frame:
  assumes "steady n k" and "state_table (mgr n') = state_table (mgr n)" and "tasks (mgr n') = tasks (mgr n)"
    and "awaiting (mgr n') = awaiting (mgr n)" and "\<And>ev. ev \<in> set (inbox n') \<Longrightarrow> ev \<in> set (inbox n) \<or> event_key ev \<noteq> Some k"
  shows "steady n' k"
proof -
  have "\<not> busy (mgr n') k" using assms(1,4) by (simp add: steady_def busy_def)
  with assms(1,5) session_with_frame_eq [OF assms(2,3)] show ?thesis unfolding steady_def by blast
qed

lemma node_step_steady:
  assumes "node_step n l n'" and "node_inv n" and "steady n k" and "spares (mgr n) k l"
  shows "steady n' k"
proof -
  have mi: "mgr_inv (mgr n)" using assms(2) by (simp add: node_inv_def)
  from assms(1) show ?thesis
  proof (cases rule: node_step.cases)
    case (coord_iroh ev q ans r)
    then show ?thesis by (intro steady_frame [OF assms(3)]) (auto simp: put_coord_def split: coord_pass.splits)
  next
    case (coord_tun p q ans r)
    then show ?thesis by (intro steady_frame [OF assms(3)]) (auto simp: put_coord_def split: coord_pass.splits)
  next
    case (coord_resume ans)
    with assms(2) show ?thesis by (simp add: node_inv_def)
  next
    case (mgr_tasks ev q s)
    then have "handle_conn_event (mgr n) ev = Inr s" by (auto split: sum.splits)
    from conn_event_spares [OF mi this, of k] mgr_tasks assms(3) show ?thesis by (auto simp: steady_def)
  next
    case (mgr_coord a q ans s)
    then have "action_routed (outbound n) a" using assms(2) by (simp add: node_inv_def)
    then obtain p k where "a = CoreAction.SendPacketTo p k" by (cases a) auto
    with mgr_coord show ?thesis
      by (intro steady_frame [OF assms(3)]) (auto split: option.splits ConnectionState.splits)
  next
    case mgr_sent
    with complete_send_spares [OF mi, of k] assms(3) show ?thesis by (simp add: steady_def)
  next
    case (session t conn ch i s)
    with session_spares [OF mi assms(3)] assms(4) show ?thesis by auto
  next
    case (dialled t j conn)
    have "session_with (abort t (mgr n)) k"
      using session_with_abort [OF mi, of k t] assms(3) dialled by (auto simp: steady_def)
    with dialled assms(3,4) show ?thesis by (auto simp: steady_def task_ends_def abort_def busy_def)
  next
    case (accepted t conn)
    with assms(4) show ?thesis by (intro steady_frame [OF assms(3)]) auto
  qed (auto intro!: steady_frame [OF assms(3)])
qed

section \<open>Schedules of one node\<close>

text \<open>The steps of a node that need neither its host nor a datagram of the network.\<close>

fun no_traffic :: "'pk node_label \<Rightarrow> bool" where
  "no_traffic (HostSends p) \<longleftrightarrow> False"
| "no_traffic HostTakes \<longleftrightarrow> False"
| "no_traffic (Session t (ReadDatagram (Inr p) a)) \<longleftrightarrow> False"
| "no_traffic _ \<longleftrightarrow> True"

lemma no_traffic_carried: "no_traffic l \<Longrightarrow> carried l"
  by (cases l) auto

lemma internal_no_traffic: "internal l \<Longrightarrow> no_traffic l"
  by (cases l) auto

lemma internal_spares: "internal l \<Longrightarrow> spares s k l"
  by (cases l) auto

text \<open>A node that evolves on its own, is idle at the end and loses no session except with one peer.\<close>

definition evolves :: "'pk::linorder \<Rightarrow> 'pk Node \<Rightarrow> 'pk Node \<Rightarrow> bool" where
  "evolves k n n' \<longleftrightarrow> (\<exists>ls. node_path n ls n' \<and> list_all no_traffic ls) \<and> settled n' \<and>
     (\<forall>k'. k' \<noteq> k \<longrightarrow> session_with (mgr n) k' \<longrightarrow> session_with (mgr n') k')"

lemma evolves_trans: "evolves k n m \<Longrightarrow> evolves k m n' \<Longrightarrow> evolves k n n'"
  unfolding evolves_def by (metis path_append list_all_append)

lemma evolves_reachable: "evolves k n n' \<Longrightarrow> node_reachable n \<Longrightarrow> node_reachable n'"
  unfolding evolves_def by (auto intro: path_reachable)

lemma settled_steady: "settled n \<Longrightarrow> session_with (mgr n) k \<Longrightarrow> steady n k"
  using settled_fields [of n] by (simp add: steady_def busy_def)

lemma path_steady:
  "node_path n ls n' \<Longrightarrow> node_reachable n \<Longrightarrow> steady n k \<Longrightarrow>
   list_all (\<lambda>l. \<forall>s. spares s k l) ls \<Longrightarrow> steady n' k"
proof (induction rule: schedule.induct)
  case (path_step n l m ls n')
  have "steady m k" using node_step_steady [OF path_step(1) node.inv_reachable] path_step.prems by simp
  with path_step show ?case by (auto intro: reach_step)
qed simp

lemma node_path_grows:
  "node_path n ls n' \<Longrightarrow> node_reachable n \<Longrightarrow> node_grows n n'"
proof (induction rule: schedule.induct)
  case (path_step n l m ls n')
  have "node_reachable m" using path_step by (blast intro: reach_step)
  with path_step node_step_grows [OF path_step(1) node.inv_reachable [OF path_step.prems]] show ?case
    by (auto simp: node_grows_def)
qed (simp add: node_grows_refl)

lemma node_grows_peers:
  assumes "node_grows n n'" and "node_reachable n" and "node_reachable n'"
  shows "whitelist (mgr n') = whitelist (mgr n)" "endpoint_id (mgr n') = endpoint_id (mgr n)"
  using assms(1) node_invD [OF assms(2)] node_invD [OF assms(3)] by (auto simp: node_grows_def core_config_def)

text \<open>A first step about one peer, and passes of the node afterwards.\<close>

lemma evolvesI:
  assumes n: "node_reachable n" "settled n" and s: "node_step n l m" "no_traffic l"
    and sp: "\<And>k'. k' \<noteq> k \<Longrightarrow> spares (mgr n) k' l" and p: "node_path m ls n'" "list_all internal ls" and set: "settled n'"
  shows "evolves k n n'"
proof -
  have "session_with (mgr n') k'" if "k' \<noteq> k" "session_with (mgr n) k'" for k'
  proof -
    have "steady m k'"
      using node_step_steady [OF s(1) node.inv_reachable [OF n(1)] settled_steady [OF n(2) that(2)] sp [OF that(1)]] .
    moreover have "list_all (\<lambda>l. \<forall>s. spares s k' l) ls" using p(2) by (auto simp: list_all_iff internal_spares)
    ultimately have "steady n' k'" using path_steady [OF p(1)] n(1) s(1) by (blast intro: reach_step)
    then show ?thesis by (simp add: steady_def)
  qed
  moreover have "list_all no_traffic (l # ls)" using s(2) p(2) by (auto simp: list_all_iff internal_no_traffic)
  ultimately show ?thesis using node_path_step [OF s(1) p(1)] set unfolding evolves_def by blast
qed

text \<open>The connection is made and the node finishes what follows from it.\<close>

lemma finish_connection:
  assumes "node_reachable n" and "settled n" and "node_path n [l, MgrTasks, MgrSent, CoordIroh ans] m"
    and "no_traffic l" and "\<And>k'. k' \<noteq> k \<Longrightarrow> spares (mgr n) k' l" and "steady m k"
  shows "\<exists>n'. evolves k n n' \<and> session_with (mgr n') k"
proof -
  have m: "node_reachable m" by (rule path_reachable [OF assms(3,1)])
  obtain ls n' where ls: "list_all internal ls" "node_path m ls n'" "settled n'" using settles [OF m] by blast
  obtain m1 where m1: "node_step n l m1" "node_path m1 [MgrTasks, MgrSent, CoordIroh ans] m"
    using assms(3) by (auto elim: schedule.cases)
  have "evolves k n n'"
    by (rule evolvesI [OF assms(1,2) m1(1) assms(4,5) path_append [OF m1(2) ls(2)] _ ls(3)]) (use ls(1) in simp_all)
  moreover have "list_all (\<lambda>l. \<forall>s. spares s k l) ls" using ls(1) by (auto simp: list_all_iff internal_spares)
  then have "steady n' k" by (rule path_steady [OF ls(2) m assms(6)])
  ultimately show ?thesis by (auto simp: steady_def)
qed

text \<open>The three ways in which a node gets a session with a peer: it dials, after hanging up a
  connection it may have, or it accepts.\<close>

lemma dials:
  assumes n: "node_reachable n" "settled n" and k: "k \<in> whitelist (mgr n)" "\<not> endpoint_id (mgr n) < k" "\<not> is_up (mgr n) k"
  shows "\<exists>n'. evolves k n n' \<and> session_with (mgr n') k"
proof -
  obtain t where t: "state_table (mgr n) k = Some (Connecting t)" "tasks (mgr n) t = Some (ConnectTask k)"
    by (rule settled_entry [OF n k(1)]) (use k(2,3) in \<open>auto simp: up_in_def\<close>)
  obtain conn ans m where m: "node_path n [Dialled t conn, MgrTasks, MgrSent, CoordIroh ans] m" "steady m k"
    using dial_schedule [OF n t(1)] by blast
  then obtain m1 where "node_step n (Dialled t conn) m1" by (auto elim: schedule.cases)
  then have "remote_id conn = k" using t(2) by (cases rule: node_step.cases) simp
  with finish_connection [OF n m(1)] m(2) show ?thesis by simp
qed

lemma accepts:
  assumes n: "node_reachable n" "settled n" and k: "k \<in> whitelist (mgr n)" "endpoint_id (mgr n) < k"
  shows "\<exists>n'. evolves k n n' \<and> session_with (mgr n') k"
proof -
  obtain a conn ans m where m: "node_path n [Accepted a conn, MgrTasks, MgrSent, CoordIroh ans] m" "steady m k" "remote_id conn = k"
    using accept_schedule [OF n k] by blast
  with finish_connection [OF n m(1)] show ?thesis by simp
qed

lemma hangs_up:
  assumes n: "node_reachable n" "settled n" and up: "session_with (mgr n) k"
  shows "\<exists>n'. evolves k n n' \<and> \<not> is_up (mgr n') k"
proof -
  note f = settled_fields [OF n(2)]
  obtain t c ch where e: "state_table (mgr n) k = Some (Connected t c ch)" "tasks (mgr n) t = Some (SessionTask c ch)"
    using up by (auto simp: session_with_def)
  have rk: "remote_id c = k"
    using mgr_inv_entry [OF _ e(1)] node_invD [OF n(1)] by (simp add: entry_inv_def)
  let ?i = "ReadDatagram (Inl ()) Sent" and ?e = "DisconnectedFromPeer k"
  let ?n1 = "n\<lparr>mgr := task_ends t (mgr n), inbox := [ConnectionEvent.Disconnected k]\<rparr>"
  let ?s2 = "send_await ?e (Reconnect k) (task_ends t (mgr n))"
  let ?n2 = "?n1\<lparr>mgr := ?s2, inbox := []\<rparr>"
  let ?n3 = "?n2\<lparr>mgr := complete_send True ?s2\<rparr>"
  have s1: "node_step n (Session t ?i) ?n1"
    using node_step.session [OF e(2), of ?i "mgr n"] f rk
    by (cases "mgr n") (simp add: take_packet_def apply_session_def map_filter_simps inbox_room_def)
  have s2: "node_step ?n1 MgrTasks ?n2"
    using node_step.mgr_tasks [of ?n1 "ConnectionEvent.Disconnected k" "[]" ?s2] f e(1)
    by (simp add: handle_disconnected_def task_ends_def)
  have s3: "node_step ?n2 MgrSent ?n3"
    using node_step.mgr_sent [of ?n2] f by (simp add: send_await_def task_ends_def)
  have m3: "complete_send True ?s2 = init_new_connection k ((task_ends t (mgr n))\<lparr>awaiting := None, to_coord := [?e]\<rparr>)"
    using f by (simp add: complete_send_def send_await_def task_ends_def)
  have c3: "to_coord (mgr ?n3) = [?e]" "awaiting (mgr ?n3) = None" by (simp_all add: m3)
  have r3: "node_reachable ?n3" using n(1) s1 s2 s3 by (blast intro: reach_step)
  obtain ans n' where s4: "node_step ?n3 (CoordIroh ans) n'" using coord_iroh_possible [OF r3 c3(1)] by blast
  then obtain hr where hr: "handle_core_input ans (coord n) (PeerDisconnected k) = Some hr"
    "put_coord (?n3\<lparr>mgr := (mgr ?n3)\<lparr>to_coord := []\<rparr>\<rparr>) (after_handler hr) = Some n'"
    using c3 by (cases rule: node_step.cases) (auto simp: handle_iroh_event_def)
  then obtain d bs where d: "after_handler hr = Go d bs" "n' = ?n3\<lparr>mgr := (mgr ?n3)\<lparr>to_coord := []\<rparr>, coord := d, pending := bs\<rparr>"
    by (auto simp: put_coord_def split: coord_pass.splits)
  obtain acts where a: "process (core (coord n)) (PeerDisconnected k) = Some (core d, acts)"
    "extends (List.map_filter iroh_part acts) (tx_to_iroh (coord n)) (tx_to_iroh d)"
    by (rule coord_pass_queues [OF hr(1) d(1)]) blast
  have "List.map_filter iroh_part acts = []"
    using a(1) by (cases rule: on_peer_disconnected_cases [of "core (coord n)" k]) (auto simp: map_filter_simps)
  with a(2) have "tx_to_iroh d = tx_to_iroh (coord n)" by (auto simp: extends_def)
  then have set: "settled n'" using n(2) c3(2) d(2) by (simp add: settled_def calm_def)
  have "evolves k n n'"
  proof (rule evolvesI [OF n s1 _ _ _ _ set])
    show "node_path ?n1 [MgrTasks, MgrSent, CoordIroh ans] n'"
      by (intro node_path_step [OF s2] node_path_step [OF s3] node_path_step [OF s4] path_end)
  qed (use e(2) rk in auto)
  moreover have "\<not> is_up (mgr n') k"
    unfolding d(2) m3 by (simp add: init_new_connection_def mgr_simps up_in_def)
  ultimately show ?thesis by blast
qed

lemma redials:
  assumes n: "node_reachable n" "settled n" and k: "k \<in> whitelist (mgr n)" "\<not> endpoint_id (mgr n) < k"
  shows "\<exists>n'. evolves k n n' \<and> session_with (mgr n') k"
proof (cases "session_with (mgr n) k")
  case False
  then have "\<not> is_up (mgr n) k"
    by (intro notI, rule_tac settled_entry [OF n k(1)]) (auto simp: up_in_def session_with_def)
  then show ?thesis by (rule dials [OF n k])
next
  case True
  then obtain m where m: "evolves k n m" "\<not> is_up (mgr m) k" using hangs_up [OF n] by blast
  have r: "node_reachable m" by (rule evolves_reachable [OF m(1) n(1)])
  have "node_grows n m" using m(1) node_path_grows n(1) by (auto simp: evolves_def)
  note same = node_grows_peers [OF this n(1) r]
  from dials [OF r _ _ _ m(2)] m(1) k same obtain n' where "evolves k m n'" "session_with (mgr n') k"
    by (auto simp: evolves_def)
  with m(1) evolves_trans show ?thesis by blast
qed

section \<open>Networks\<close>

text \<open>A running process whose interface still holds its receiver, and an idle one.\<close>

definition running :: "('pk, 'te) Process \<Rightarrow> bool" where
  "running s \<longleftrightarrow> finished s = None \<and> holder (proc_tun s) \<noteq> Lost"

abbreviation idle :: "('pk, 'te) Process \<Rightarrow> bool" where
  "idle s \<equiv> running s \<and> settled (proc_node s)"

abbreviation session_between :: "('i, 'pk, 'te) Network \<Rightarrow> 'i \<Rightarrow> 'i \<Rightarrow> bool" where
  "session_between S i j \<equiv> session_with (mgr (proc_node (S i))) (key (S j))"

text \<open>Steps that leave every process running as it was and every interface in its phase.\<close>

definition same_interface :: "('pk, 'te) Process \<Rightarrow> ('pk, 'te) Process \<Rightarrow> bool" where
  "same_interface s s' \<longleftrightarrow> finished s' = finished s \<and> phase (proc_tun s') = phase (proc_tun s) \<and>
     holder (proc_tun s') = holder (proc_tun s) \<and> reader_end (proc_tun s') = reader_end (proc_tun s) \<and>
     writer_end (proc_tun s') = writer_end (proc_tun s)"

abbreviation same_interfaces :: "('i, 'pk, 'te) Network \<Rightarrow> ('i, 'pk, 'te) Network \<Rightarrow> bool" where
  "same_interfaces S S' \<equiv> \<forall>i. same_interface (S i) (S' i)"

lemma same_interface_refl: "same_interface s s"
  by (simp add: same_interface_def)

lemma same_interface_trans: "same_interface s t \<Longrightarrow> same_interface t u \<Longrightarrow> same_interface s u"
  by (simp add: same_interface_def)

lemma same_interface_running: "same_interface s s' \<Longrightarrow> running s' = running s"
  by (simp add: same_interface_def running_def)

lemma same_interface_serving: "same_interface s s' \<Longrightarrow> serving s' = serving s"
  by (simp add: same_interface_def serving_def workers_live_def)

text \<open>Every schedule leaves identities and whitelists alone.\<close>

lemma net_nodes_reachable: "net_reachable S \<Longrightarrow> node_reachable (proc_node (S i))"
  using net.inv_reachable proc_invD unfolding net_inv_def by blast

lemma net_path_peers:
  assumes "schedule net_step S ms S'" and "net_reachable S"
  shows "key (S' i) = key (S i)" "whitelist (mgr (proc_node (S' i))) = whitelist (mgr (proc_node (S i)))"
  using node_grows_peers [OF net_path_grows [OF assms] net_nodes_reachable [OF assms(2)]
      net_nodes_reachable [OF path_reachable [OF assms]]] by blast+

lemma net_node_schedule:
  assumes np: "node_path (proc_node (S i)) ls n'" "list_all no_traffic ls" and run: "running (S i)"
  shows "\<exists>ms s. schedule net_step S ms (S(i := s)) \<and> proc_node s = n' \<and> same_interface (S i) s \<and>
    written (proc_tun s) = written (proc_tun (S i))"
proof -
  have "tun_channel (proc_tun (S i)) True" "finished (S i) = None" using run by (simp_all add: running_def tun_channel_def)
  moreover have "list_all carried ls" using np(2) by (auto simp: list_all_iff no_traffic_carried)
  ultimately obtain ms s ps where s: "schedule proc_step (S i) ms s" "list_all2 lifts ls ms" "proc_node s = n'" "finished s = None"
    "proc_tun s = (proc_tun (S i))\<lparr>rx := rx (proc_tun (S i)) @ ps, put := put (proc_tun (S i)) @ ps\<rparr>"
    using lift_path [OF np(1) refl] by blast
  have "reads m = None" if m: "m \<in> set ms" for m
  proof -
    obtain j where "j < length ms" "m = ms ! j" using m by (auto simp: in_set_conv_nth)
    with s(2) obtain l where l: "l \<in> set ls" "lifts l m" by (metis list_all2_conv_all_nth nth_mem)
    then have "no_traffic l" using np(2) by (simp add: list_all_iff)
    with l(2) show ?thesis by (cases m rule: reads.cases) (auto simp: lifts_def split: if_splits)
  qed
  then have "schedule net_step S (map (Pair i) ms) (S(i := s))" by (intro net_lift [OF s(1)]) simp_all
  moreover have "same_interface (S i) s" "written (proc_tun s) = written (proc_tun (S i))"
    using s(4,5) run by (simp_all add: running_def same_interface_def)
  ultimately show ?thesis using s(3) by blast
qed

text \<open>One node of an idle network evolves.\<close>

lemma net_evolves:
  assumes S: "net_reachable S" and e: "evolves k (proc_node (S i)) n'" and run: "running (S i)"
  obtains ms S' where "schedule net_step S ms S'" "net_reachable S'" "proc_node (S' i) = n'" "idle (S' i)"
    "\<forall>j. j \<noteq> i \<longrightarrow> S' j = S j" "same_interfaces S S'"
proof -
  obtain ls where ls: "node_path (proc_node (S i)) ls n'" "list_all no_traffic ls" using e by (auto simp: evolves_def)
  obtain ms s where s: "schedule net_step S ms (S(i := s))" "proc_node s = n'" "same_interface (S i) s"
    using net_node_schedule [of S i, OF ls run] by blast
  show thesis
  proof (rule that [OF s(1) path_reachable [OF s(1) S]])
    show "idle ((S(i := s)) i)" using s(2) e run same_interface_running [OF s(3)] by (simp add: evolves_def)
  qed (use s(2,3) in \<open>auto simp: same_interface_refl\<close>)
qed

text \<open>Two nodes connect and the sessions of all others stay.\<close>

definition mutual :: "('i, 'pk, 'te) Network \<Rightarrow> 'i set \<Rightarrow> bool" where
  "mutual S F \<longleftrightarrow> inj_on (\<lambda>i. key (S i)) F \<and>
     (\<forall>i \<in> F. \<forall>j \<in> F. i \<noteq> j \<longrightarrow> key (S j) \<in> whitelist (mgr (proc_node (S i))))"

lemma mutual_path: "schedule net_step S ms S' \<Longrightarrow> net_reachable S \<Longrightarrow> mutual S' F = mutual S F"
  by (simp add: mutual_def net_path_peers)

lemma dialler_first:
  assumes S: "net_reachable S" and F: "mutual S F" "\<forall>i \<in> F. idle (S i)" and ij: "i \<in> F" "j \<in> F" "i \<noteq> j"
    and less: "key (S j) < key (S i)"
  obtains ms S' where "schedule net_step S ms S'" "net_reachable S'" "same_interfaces S S'" "\<forall>i \<in> F. idle (S' i)"
    "session_between S' i j" "session_between S' j i"
    "\<forall>a \<in> F. \<forall>b \<in> F. a \<noteq> b \<longrightarrow> session_between S a b \<longrightarrow> session_between S' a b"
proof -
  have keys: "key (S a) \<noteq> key (S b)" if "a \<in> F" "b \<in> F" "a \<noteq> b" for a b
    using F(1) that by (auto simp: mutual_def dest: inj_onD)
  obtain n where n: "evolves (key (S j)) (proc_node (S i)) n" "session_with (mgr n) (key (S j))"
    using redials [OF net_nodes_reachable [OF S], of i "key (S j)"] F ij less_not_sym [OF less] by (auto simp: mutual_def)
  obtain ms T where T: "schedule net_step S ms T" "net_reachable T" "proc_node (T i) = n" "idle (T i)"
    "\<forall>a. a \<noteq> i \<longrightarrow> T a = S a" "same_interfaces S T"
    by (rule net_evolves [OF S n(1)]) (use F ij in auto)
  have Tj: "T j = S j" using T(5) ij by simp
  obtain m where m: "evolves (key (S i)) (proc_node (T j)) m" "session_with (mgr m) (key (S i))"
    using accepts [OF net_nodes_reachable [OF T(2)], of j "key (S i)"] F ij less Tj by (auto simp: mutual_def)
  obtain ms' U where U: "schedule net_step T ms' U" "net_reachable U" "proc_node (U j) = m" "idle (U j)"
    "\<forall>a. a \<noteq> j \<longrightarrow> U a = T a" "same_interfaces T U"
    by (rule net_evolves [OF T(2) m(1)]) (use F ij Tj in auto)
  have Ui: "U i = T i" using U(5) ij by simp
  note path = path_append [OF T(1) U(1)]
  note k = net_path_peers(1) [OF path S]
  have keep: "session_between U a b" if "a \<in> F" "b \<in> F" "a \<noteq> b" "session_between S a b" for a b
  proof -
    consider "a = i" | "a = j" | "a \<noteq> i" "a \<noteq> j" by blast
    then show ?thesis
    proof cases
      case 1
      with that n T(3) Ui k keys [of b j] ij show ?thesis by (cases "b = j") (auto simp: evolves_def)
    next
      case 2
      with that m U(3) Tj k keys [of b i] ij show ?thesis by (cases "b = i") (auto simp: evolves_def)
    next
      case 3
      with that U(5) T(5) k show ?thesis by simp
    qed
  qed
  show thesis
  proof (rule that [OF path U(2)])
    show "same_interfaces S U" using T(6) U(6) same_interface_trans by blast
    show "\<forall>a \<in> F. idle (U a)"
    proof
      fix a
      assume "a \<in> F"
      then show "idle (U a)"
        using F(2) U(4,5) T(4,5) Ui by (cases "a = j"; cases "a = i") simp_all
    qed
    show "session_between U i j" unfolding k Ui T(3) by (rule n(2))
    show "session_between U j i" unfolding k U(3) by (rule m(2))
  qed (use keep in blast)
qed

text \<open>All pairs of a list, one after the other; a pair connects in the direction of its keys.\<close>

lemma pairs_connect:
  assumes "net_reachable S" and "mutual S F" and "\<forall>i \<in> F. idle (S i)" and "set ps \<subseteq> {(a, b). a \<in> F \<and> b \<in> F \<and> a \<noteq> b}"
  shows "\<exists>ms S'. schedule net_step S ms S' \<and> net_reachable S' \<and> same_interfaces S S' \<and> (\<forall>i \<in> F. idle (S' i)) \<and>
    (\<forall>(a, b) \<in> set ps. session_between S' a b) \<and>
    (\<forall>a \<in> F. \<forall>b \<in> F. a \<noteq> b \<longrightarrow> session_between S a b \<longrightarrow> session_between S' a b)"
  using assms
proof (induction ps arbitrary: S)
  case Nil
  then show ?case by (intro exI [of _ "[]"] exI [of _ S]) (simp add: path_end same_interface_refl)
next
  case (Cons p ps)
  obtain a b where p: "p = (a, b)" by (cases p)
  then have ab: "a \<in> F" "b \<in> F" "a \<noteq> b" using Cons.prems(4) by auto
  then have "key (S a) \<noteq> key (S b)" using Cons.prems(2) by (auto simp: mutual_def dest: inj_onD)
  then consider "key (S b) < key (S a)" | "key (S a) < key (S b)" by fastforce
  then obtain i j where ij: "{i, j} = {a, b}" "key (S j) < key (S i)" by cases blast+
  then have mem: "i \<in> F" "j \<in> F" "i \<noteq> j" using ab by (auto simp: doubleton_eq_iff)
  obtain ms T where T: "schedule net_step S ms T" "net_reachable T" "same_interfaces S T" "\<forall>i \<in> F. idle (T i)"
    "session_between T i j" "session_between T j i"
    "\<forall>a \<in> F. \<forall>b \<in> F. a \<noteq> b \<longrightarrow> session_between S a b \<longrightarrow> session_between T a b"
    by (rule dialler_first [OF Cons.prems(1-3) mem ij(2)])
  have l: "mutual T F" using mutual_path [OF T(1) Cons.prems(1)] Cons.prems(2) by blast
  have sub: "set ps \<subseteq> {(a, b). a \<in> F \<and> b \<in> F \<and> a \<noteq> b}" using Cons.prems(4) by simp
  obtain ns U where U: "schedule net_step T ns U" "net_reachable U"
    "same_interfaces T U" "\<forall>i \<in> F. idle (U i)" "\<forall>(a, b) \<in> set ps. session_between U a b"
    "\<forall>a \<in> F. \<forall>b \<in> F. a \<noteq> b \<longrightarrow> session_between T a b \<longrightarrow> session_between U a b"
    using Cons.IH [OF T(2) l T(4) sub] by (elim exE conjE)
  have "session_between T a b" using T(5,6) ij(1) by (auto simp: doubleton_eq_iff)
  with U(5,6) ab p have "\<forall>(a, b) \<in> set (p # ps). session_between U a b" by simp
  moreover have "\<forall>a \<in> F. \<forall>b \<in> F. a \<noteq> b \<longrightarrow> session_between S a b \<longrightarrow> session_between U a b" using U(6) T(7) by blast
  moreover have "same_interfaces S U" using T(3) U(3) same_interface_trans by blast
  ultimately show ?case using path_append [OF T(1) U(1)] U(2,4) by blast
qed

text \<open>What one node can do by itself, all nodes of a finite set can do, one after the other.\<close>

lemma each_node:
  assumes "finite F" and "net_reachable S" and "\<forall>i \<in> F. P i (S i)"
    and step: "\<And>T i. net_reachable T \<Longrightarrow> i \<in> F \<Longrightarrow> P i (T i) \<Longrightarrow> \<exists>ms s. schedule net_step T ms (T(i := s)) \<and> Q i (T i) s"
  shows "\<exists>ms S'. schedule net_step S ms S' \<and> (\<forall>i. if i \<in> F then Q i (S i) (S' i) else S' i = S i)"
  using assms(1-3) step
proof (induction F rule: finite_induct)
  case empty
  then show ?case by (intro exI [of _ "[]"] exI [of _ S]) (simp add: path_end)
next
  case (insert i F)
  have "\<exists>ms S'. schedule net_step S ms S' \<and> (\<forall>i. if i \<in> F then Q i (S i) (S' i) else S' i = S i)"
    by (rule insert.IH) (use insert.prems in auto)
  then obtain ms T where T: "schedule net_step S ms T" "\<forall>i. if i \<in> F then Q i (S i) (T i) else T i = S i" by blast
  have r: "net_reachable T" by (rule path_reachable [OF T(1) insert.prems(1)])
  have Ti: "T i = S i" using T(2) insert.hyps(2) by meson
  then have "P i (T i)" using insert.prems(2) by simp
  then obtain ns s where s: "schedule net_step T ns (T(i := s))" "Q i (T i) s" using insert.prems(3) [OF r, of i] by blast
  have "\<forall>a. if a \<in> insert i F then Q a (S a) ((T(i := s)) a) else (T(i := s)) a = S a"
    using T(2) s(2) Ti insert.hyps(2) by (auto split: if_splits)
  with path_append [OF T(1) s(1)] show ?case by blast
qed

text \<open>The nodes of a set come to rest.\<close>

lemma network_settles:
  assumes "finite F" and "net_reachable S" and "\<forall>i \<in> F. running (S i)"
  shows "\<exists>ms S'. schedule net_step S ms S' \<and> net_reachable S' \<and> same_interfaces S S' \<and> (\<forall>i \<in> F. idle (S' i))"
proof -
  have "\<exists>ms s. schedule net_step T ms (T(i := s)) \<and> settled (proc_node s) \<and> same_interface (T i) s"
    if T: "net_reachable T" "running (T i)" for T :: "('a, 'b, 'c) Network" and i
  proof -
    obtain ls n where ls: "list_all internal ls" "node_path (proc_node (T i)) ls n" "settled n"
      using settles [OF net_nodes_reachable [OF T(1)]] by blast
    have "list_all no_traffic ls" using ls(1) by (auto simp: list_all_iff internal_no_traffic)
    from net_node_schedule [of T i, OF ls(2) this T(2)] ls(3) show ?thesis by blast
  qed
  from each_node [OF assms(1,2), of "\<lambda>_. running" "\<lambda>_ s s'. settled (proc_node s') \<and> same_interface s s'"] this assms(3)
  obtain ms S' where S': "schedule net_step S ms S'"
    "\<forall>i. if i \<in> F then settled (proc_node (S' i)) \<and> same_interface (S i) (S' i) else S' i = S i" by blast
  have same: "same_interfaces S S'" using S'(2) same_interface_refl by metis
  moreover have "\<forall>i \<in> F. idle (S' i)" using same_interface_running [of "S _" "S' _"] same assms(3) S'(2) by auto
  ultimately show ?thesis using S'(1) path_reachable [OF S'(1) assms(2)] by blast
qed

lemma mesh_forms:
  assumes "net_reachable S" and "finite F" and "\<forall>i \<in> F. running (S i)" and "mutual S F"
  obtains ms S' where "schedule net_step S ms S'" "net_reachable S'" "same_interfaces S S'" "\<forall>i \<in> F. idle (S' i)"
    "\<forall>i \<in> F. \<forall>j \<in> F. i \<noteq> j \<longrightarrow> established (proc_node (S' i)) (key (S j))"
proof -
  obtain ms T where T: "schedule net_step S ms T" "net_reachable T" "same_interfaces S T" "\<forall>i \<in> F. idle (T i)"
    using network_settles [OF assms(2,1,3)] by blast
  have "finite {(a, b). a \<in> F \<and> b \<in> F \<and> a \<noteq> b}" by (rule finite_subset [of _ "F \<times> F"]) (use assms(2) in auto)
  then obtain ps where ps: "set ps = {(a, b). a \<in> F \<and> b \<in> F \<and> a \<noteq> b}" using finite_list by blast
  have "mutual T F" using mutual_path [OF T(1) assms(1)] assms(4) by simp
  from pairs_connect [OF T(2) this T(4), of ps] ps obtain ns U where U: "schedule net_step T ns U" "net_reachable U"
    "same_interfaces T U" "\<forall>i \<in> F. idle (U i)" "\<forall>(a, b) \<in> set ps. session_between U a b" by blast
  note path = path_append [OF T(1) U(1)]
  have "established (proc_node (U i)) (key (S j))" if "i \<in> F" "j \<in> F" "i \<noteq> j" for i j
  proof (rule settled_established)
    show "node_reachable (proc_node (U i))" by (rule net_nodes_reachable [OF U(2)])
    show "settled (proc_node (U i))" using U(4) that by simp
    have "session_between U i j" using U(5) ps that by auto
    then show "session_with (mgr (proc_node (U i))) (key (S j))" unfolding net_path_peers(1) [OF path assms(1)] .
  qed
  moreover have "same_interfaces S U" using T(3) U(3) same_interface_trans by blast
  ultimately show thesis using that [OF path U(2) _ U(4)] by blast
qed

end
