(* ===== verification/Mesh_Traffic.thy ===== *)
theory Mesh_Traffic
  imports Mesh_Healing
begin

text \<open>
  Traffic over a mesh that has formed. What is still queued in the sessions and before the
  interfaces is worked off, so the nodes come to a state in which nothing is in flight and every
  two of them are linked (\<open>online\<close>). Such a network carries any sequence of packets between any
  of its nodes, each in seven passes, and is online again afterwards.
\<close>

section \<open>Working off the queues\<close>

text \<open>A session sends what its channel holds.\<close>

lemma session_drains:
  assumes "tasks (mgr n) t = Some (SessionTask c ch)" and "channels (mgr n) ch = Some q"
  shows "\<exists>ls n'. node_path n ls n' \<and> list_all no_traffic ls \<and> coord n' = coord n \<and> calm n' = calm n \<and>
    same_sessions n n' \<and> channels (mgr n') ch = Some []"
  using assms
proof (induction q arbitrary: n)
  case Nil
  then show ?case by (intro exI [of _ "[]"] exI [of _ n]) (simp add: path_end same_sessions_refl)
next
  case (Cons p q)
  let ?m = "n\<lparr>mgr := (mgr n)\<lparr>channels := (channels (mgr n))(ch \<mapsto> q)\<rparr>, wire := wire n @ [(p, remote_id c)]\<rparr>"
  let ?l = "Session t (RecvFromManager (Some p) None)"
  have st: "node_step n ?l ?m"
    using node_step.session [of n t c ch "RecvFromManager (Some p) None" "(mgr n)\<lparr>channels := (channels (mgr n))(ch \<mapsto> q)\<rparr>"]
      Cons.prems by (simp add: take_packet_def apply_session_def map_filter_simps)
  obtain ls n' where n': "node_path ?m ls n'" "list_all no_traffic ls" "coord n' = coord ?m" "calm n' = calm ?m"
    "same_sessions ?m n'" "channels (mgr n') ch = Some []"
    using Cons.IH [of ?m] Cons.prems by auto
  have "channels (mgr n') c' \<in> {channels (mgr n) c', Some []}" for c'
    using n'(5,6) by (cases "c' = ch") (auto simp: same_sessions_def dest!: spec [of _ c'])
  then have "same_sessions n n'" using n'(5) by (simp add: same_sessions_def)
  moreover have "calm n' = calm n" "coord n' = coord n" using n'(3,4) by (simp_all add: calm_def)
  moreover have "list_all no_traffic (?l # ls)" using n'(2) by simp
  ultimately show ?case using node_path_step [OF st n'(1)] n'(6) by blast
qed

lemma sessions_drain:
  assumes "finite K" and "node_reachable n" and "\<forall>k \<in> K. session_with (mgr n) k"
  shows "\<exists>ls n'. node_path n ls n' \<and> list_all no_traffic ls \<and> coord n' = coord n \<and> calm n' = calm n \<and>
    same_sessions n n' \<and> (\<forall>k \<in> K. linked n' k)"
  using assms
proof (induction K rule: finite_induct)
  case empty
  then show ?case by (intro exI [of _ "[]"] exI [of _ n]) (simp add: path_end same_sessions_refl)
next
  case (insert k K)
  then obtain ls m where m: "node_path n ls m" "list_all no_traffic ls" "coord m = coord n" "calm m = calm n"
    "same_sessions n m" "\<forall>k \<in> K. linked m k" by blast
  from insert.prems(2) obtain t c ch where e: "state_table (mgr m) k = Some (Connected t c ch)" "tasks (mgr m) t = Some (SessionTask c ch)"
    using m(5) by (auto simp: session_with_def same_sessions_def)
  have "mgr_inv (mgr m)" using node_invD [OF path_reachable [OF m(1) insert.prems(1)]] by blast
  from mgr_inv_entry [OF this e(1)] obtain q where q: "channels (mgr m) ch = Some q" by (auto simp: entry_inv_def)
  obtain ls' n' where n': "node_path m ls' n'" "list_all no_traffic ls'" "coord n' = coord m" "calm n' = calm m"
    "same_sessions m n'" "channels (mgr n') ch = Some []"
    using session_drains [OF e(2) q] by (elim exE conjE)
  have "state_table (mgr n') = state_table (mgr m)" "tasks (mgr n') = tasks (mgr m)"
    using n'(5) by (simp_all add: same_sessions_def)
  then have "linked n' k" using n'(6) e unfolding linked_def by metis
  moreover have "\<forall>k \<in> K. linked n' k" using m(6) linked_same [OF _ n'(5)] by blast
  moreover have "list_all no_traffic (ls @ ls')" using m(2) n'(2) by simp
  ultimately show ?case
    using path_append [OF m(1) n'(1)] same_sessions_trans [OF m(5) n'(5)] m(3,4) n'(3,4)
    by (intro exI [of _ "ls @ ls'"] exI [of _ n']) simp
qed

text \<open>The writer of an interface writes what waits for the host.\<close>

lemma interface_drains:
  assumes "proc_reachable s" and "serving s" and "rx (proc_tun s) = q"
  shows "\<exists>ms s'. schedule proc_step s ms s' \<and> (\<forall>m \<in> set ms. reads m = None) \<and> serving s' \<and> rx (proc_tun s') = [] \<and>
    mgr (proc_node s') = mgr (proc_node s) \<and> calm (proc_node s') = calm (proc_node s)"
  using assms
proof (induction q arbitrary: s)
  case Nil
  then show ?case by (intro exI [of _ "[]"] exI [of _ s]) (simp add: path_end)
next
  case (Cons p q)
  obtain u where u: "proc_step s (TunPart (WriterStep (RecvPacket p None))) u" "serving u" "rx (proc_tun u) = q"
    "mgr (proc_node u) = mgr (proc_node s)" "calm (proc_node u) = calm (proc_node s)"
    by (rule writer_writes [OF Cons.prems])
  have "proc_reachable u" using Cons.prems(1) u(1) by (rule reach_step)
  from Cons.IH [OF this u(2,3)] obtain ms s' where s': "schedule proc_step u ms s'" "\<forall>m \<in> set ms. reads m = None" "serving s'"
    "rx (proc_tun s') = []" "mgr (proc_node s') = mgr (proc_node u)" "calm (proc_node s') = calm (proc_node u)" by blast
  have "\<forall>m \<in> set (TunPart (WriterStep (RecvPacket p None)) # ms). reads m = None" using s'(2) by simp
  moreover have "mgr (proc_node s') = mgr (proc_node s)" "calm (proc_node s') = calm (proc_node s)"
    using s'(5,6) u(4,5) by simp_all
  ultimately show ?case using proc_path_step [OF u(1) s'(1)] s'(3,4) by blast
qed

section \<open>Networks without anything in flight\<close>

definition online :: "('i, 'pk, 'te) Network \<Rightarrow> 'i set \<Rightarrow> bool" where
  "online S F \<longleftrightarrow> (\<forall>i \<in> F. ready (S i) \<and> (\<forall>j \<in> F. i \<noteq> j \<longrightarrow> linked (proc_node (S i)) (key (S j))))"

lemma online_established:
  assumes S: "net_reachable S" and on: "online S F"
  shows "\<forall>i \<in> F. \<forall>j \<in> F. i \<noteq> j \<longrightarrow> established (proc_node (S i)) (key (S j))"
proof (intro ballI impI)
  fix i j
  assume ij: "i \<in> F" "j \<in> F" "i \<noteq> j"
  let ?n = "proc_node (S i)"
  have l: "linked ?n (key (S j))" "calm ?n" using on ij by (auto simp: online_def ready_def)
  then have "session_with (mgr ?n) (key (S j))" by (auto simp: linked_def session_with_def)
  moreover from l have "key (S j) \<in> core_up (core (coord ?n))"
    using node_invD [OF net_nodes_reachable [OF S], of i] by (auto simp: calm_def up_keys_def up_in_def linked_def)
  ultimately show "established ?n (key (S j))" by (simp add: established_def)
qed

lemma serving_running: "proc_reachable s \<Longrightarrow> serving s \<Longrightarrow> running s"
  using writer_channel [of s] by (auto simp: serving_def running_def tun_channel_def)

lemma node_drains:
  assumes S: "net_reachable S" and i: "serving (S i)" "calm (proc_node (S i))" and K: "finite K" "\<forall>k \<in> K. session_with (mgr (proc_node (S i))) k"
  shows "\<exists>ms s. schedule net_step S ms (S(i := s)) \<and> ready s \<and> (\<forall>k \<in> K. linked (proc_node s) k)"
proof -
  have r: "proc_reachable (S i)" using net.inv_reachable [OF S] by (simp add: net_inv_def)
  obtain ms u where u: "schedule proc_step (S i) ms u" "\<forall>m \<in> set ms. reads m = None" "serving u" "rx (proc_tun u) = []"
    "mgr (proc_node u) = mgr (proc_node (S i))" "calm (proc_node u) = calm (proc_node (S i))"
    using interface_drains [OF r i(1) refl] by blast
  define T where "T = S(i := u)"
  have T: "schedule net_step S (map (Pair i) ms) T" unfolding T_def by (rule net_lift [OF u(1) _ u(2)]) (rule refl)
  have Ti: "T i = u" by (simp add: T_def)
  have ru: "proc_reachable u" by (rule path_reachable [OF u(1) r])
  have nu: "node_reachable (proc_node u)" using proc_invD [OF ru] by blast
  have "\<forall>k \<in> K. session_with (mgr (proc_node u)) k" using K(2) u(5) by simp
  from sessions_drain [OF K(1) nu this] obtain ls n where n: "node_path (proc_node u) ls n" "list_all no_traffic ls"
    "coord n = coord (proc_node u)" "calm n = calm (proc_node u)" "\<forall>k \<in> K. linked n k" by blast
  have "running (T i)" unfolding Ti by (rule serving_running [OF ru u(3)])
  then obtain ns s where s: "schedule net_step T ns (T(i := s))" "proc_node s = n" "same_interface (T i) s"
    using net_node_schedule [of T i, OF _ n(2)] n(1) Ti by metis
  have path: "schedule net_step S (map (Pair i) ms @ ns) (S(i := s))"
    using path_append [OF T s(1)] by (simp add: T_def)
  have "proc_reachable s" using net.inv_reachable [OF path_reachable [OF path S]] by (metis fun_upd_same net_inv_def)
  then have "rx (proc_tun s) = tx_to_tun (coord n)" using proc_invD s(2) by blast
  also have "\<dots> = rx (proc_tun u)" using n(3) proc_invD [OF ru] by simp
  finally have "ready s" using u(3,4,6) i(2) s(2) n(4) same_interface_serving [OF s(3)] Ti by (simp add: ready_def)
  with path n(5) s(2) show ?thesis by blast
qed

lemma mesh_online:
  assumes S: "net_reachable S" and F: "finite F" "\<forall>i \<in> F. serving (S i) \<and> calm (proc_node (S i))"
    and ses: "\<forall>i \<in> F. \<forall>j \<in> F. i \<noteq> j \<longrightarrow> session_between S i j"
  shows "\<exists>ms S'. schedule net_step S ms S' \<and> online S' F"
proof -
  let ?K = "\<lambda>i. (\<lambda>j. key (S j)) ` (F - {i})"
  let ?P = "\<lambda>i s. serving s \<and> calm (proc_node s) \<and> (\<forall>k \<in> ?K i. session_with (mgr (proc_node s)) k)"
  let ?Q = "\<lambda>i s s'. ready s' \<and> (\<forall>k \<in> ?K i. linked (proc_node s') k)"
  have P: "\<forall>i \<in> F. ?P i (S i)" using F(2) ses by auto
  have "\<exists>ms s. schedule net_step T ms (T(i := s)) \<and> ?Q i (T i) s"
    if "net_reachable T" "i \<in> F" "?P i (T i)" for T :: "('a, 'b, 'c) Network" and i
    by (rule node_drains [OF that(1)]) (use that(3) F(1) in auto)
  from each_node [where P = ?P and Q = ?Q, OF F(1) S P this] obtain ms S' where S': "schedule net_step S ms S'"
    "\<forall>i. if i \<in> F then ?Q i (S i) (S' i) else S' i = S i" by blast
  have "online S' F" using S'(2) by (auto simp: online_def net_path_peers(1) [OF S'(1) S])
  with S'(1) show ?thesis by blast
qed

section \<open>Packets\<close>

text \<open>The core of every node limits packets to 1100 bytes, which the reader's buffer holds.\<close>

lemma node_packet_size:
  fixes n :: "'a::linorder Node"
  shows "node_reachable n \<Longrightarrow> max_packet_size (core (coord n)) = 1100"
proof (induction rule: reachable.induct)
  case (reach_init n)
  then obtain ba :: "string \<Rightarrow> unit option" and bound :: "unit + 'a" and addr table iter ks port
    where "node_start ba bound addr table iter ks port = Inr n" unfolding node_initial_def by (elim exE conjE)
  then show ?case
    by (cases "Iroh_new ba bound (peer_set iter) ks port")
       (auto simp: node_start_def final_mtu_def VpnCore_new_def Coordinator_new_def)
next
  case (reach_step n l n')
  from node_step_grows [OF reach_step(2) node.inv_reachable [OF reach_step(1)]] reach_step(3) show ?case
    by (simp add: node_grows_def core_config_def)
qed

text \<open>A packet that both ends let pass, and what a sequence of packets brings to a node.\<close>

definition deliverable :: "('i, 'pk, 'te) Network \<Rightarrow> 'i \<Rightarrow> 'i \<Rightarrow> bytes \<Rightarrow> bool" where
  "deliverable S i j p \<longleftrightarrow> egress_ok (core (coord (proc_node (S i)))) p (key (S j)) \<and>
     ingress_ok (core (coord (proc_node (S j)))) p (key (S i))"

definition delivered_to :: "'i \<Rightarrow> ('i \<times> 'i \<times> bytes) list \<Rightarrow> bytes list" where
  "delivered_to a ms = map (\<lambda>(i, j, p). p) (filter (\<lambda>(i, j, p). j = a) ms)"

definition traffic_ok :: "('i, 'pk, 'te) Network \<Rightarrow> 'i set \<Rightarrow> ('i \<times> 'i \<times> bytes) list \<Rightarrow> bool" where
  "traffic_ok S F ms \<longleftrightarrow> (\<forall>(i, j, p) \<in> set ms. i \<in> F \<and> j \<in> F \<and> i \<noteq> j \<and> deliverable S i j p)"

lemma deliverable_path:
  assumes "schedule net_step S ls S'" and "net_reachable S"
  shows "deliverable S' i j p = deliverable S i j p"
proof -
  have "core_config (core (coord (proc_node (S' a)))) = core_config (core (coord (proc_node (S a))))" for a
    using net_path_grows [OF assms, of a] by (simp add: node_grows_def)
  note c = egress_config(1) [OF this [of i]] egress_config(2) [OF this [of j]]
  show ?thesis unfolding deliverable_def net_path_peers(1) [OF assms] c ..
qed

lemma online_carries:
  assumes "net_reachable S" and "online S F" and "traffic_ok S F ms"
  shows "\<exists>ls S'. schedule net_step S ls S' \<and> length ls = 7 * length ms \<and> online S' F \<and>
    (\<forall>a. written (proc_tun (S' a)) = written (proc_tun (S a)) @ delivered_to a ms)"
  using assms
proof (induction ms arbitrary: S)
  case Nil
  then show ?case by (intro exI [of _ "[]"] exI [of _ S]) (simp add: path_end delivered_to_def)
next
  case (Cons m ms)
  obtain i j p where m: "m = (i, j, p)" by (cases m)
  then have ij: "i \<in> F" "j \<in> F" "i \<noteq> j" and d: "egress_ok (core (coord (proc_node (S i)))) p (key (S j))"
    "ingress_ok (core (coord (proc_node (S j)))) p (key (S i))"
    using Cons.prems(3) by (auto simp: traffic_ok_def deliverable_def)
  have p: "p \<noteq> []" "length p \<le> READ_BUFFER"
    using d(1) node_packet_size [OF net_nodes_reachable [OF Cons.prems(1)], of i]
    by (auto simp: egress_ok_def well_formed_def READ_BUFFER_def)
  have on: "ready (S i)" "ready (S j)" "linked (proc_node (S i)) (key (S j))" "linked (proc_node (S j)) (key (S i))"
    using Cons.prems(2) ij by (auto simp: online_def)
  obtain ls T where T: "schedule net_step S ((i, TunPart (ReaderStep (DeviceRead (Inr p) Sent))) # ls) T" "length ls = 6"
    "\<forall>a. written (proc_tun (T a)) = written (proc_tun (S a)) @ (if a = j then [p] else [])"
    "\<forall>a. ready (S a) \<longrightarrow> ready (T a)" "\<forall>a. same_sessions (proc_node (S a)) (proc_node (T a))"
    using network_schedule [OF Cons.prems(1) ij(3) on p d] by blast
  have onT: "online T F"
    using Cons.prems(2) T(4) linked_same [OF _ T(5) [rule_format]] by (auto simp: online_def net_path_peers(1) [OF T(1) Cons.prems(1)])
  have "traffic_ok T F ms"
    using Cons.prems(3) by (auto simp: traffic_ok_def deliverable_path [OF T(1) Cons.prems(1)])
  from Cons.IH [OF path_reachable [OF T(1) Cons.prems(1)] onT this] obtain ls' S' where S': "schedule net_step T ls' S'"
    "length ls' = 7 * length ms" "online S' F" "\<forall>a. written (proc_tun (S' a)) = written (proc_tun (T a)) @ delivered_to a ms"
    by blast
  have "\<forall>a. written (proc_tun (S' a)) = written (proc_tun (S a)) @ delivered_to a (m # ms)"
    using S'(4) T(3) by (simp add: delivered_to_def m)
  moreover have "length (((i, TunPart (ReaderStep (DeviceRead (Inr p) Sent))) # ls) @ ls') = 7 * length (m # ms)"
    using T(2) S'(2) by simp
  ultimately show ?case using path_append [OF T(1) S'(1)] S'(3) by blast
qed

text \<open>The mesh forms and then carries whatever it is given.\<close>

lemma mesh_carries:
  assumes S: "net_reachable S" and F: "finite F" "\<forall>i \<in> F. serving (S i)" "mutual S F"
  shows "\<exists>ls S'. schedule net_step S ls S' \<and>
    (\<forall>i \<in> F. \<forall>j \<in> F. i \<noteq> j \<longrightarrow> established (proc_node (S' i)) (key (S j))) \<and>
    (\<forall>ms. traffic_ok S F ms \<longrightarrow> (\<exists>ls' S''. schedule net_step S' ls' S'' \<and> length ls' = 7 * length ms \<and>
       (\<forall>i \<in> F. \<forall>j \<in> F. i \<noteq> j \<longrightarrow> established (proc_node (S'' i)) (key (S j))) \<and>
       (\<forall>a. written (proc_tun (S'' a)) = written (proc_tun (S' a)) @ delivered_to a ms)))"
proof -
  have "\<forall>i \<in> F. running (S i)" using F(2) net.inv_reachable [OF S] serving_running by (auto simp: net_inv_def)
  then obtain ls T where T: "schedule net_step S ls T" "net_reachable T" "same_interfaces S T" "\<forall>i \<in> F. idle (T i)"
    "\<forall>i \<in> F. \<forall>j \<in> F. i \<noteq> j \<longrightarrow> established (proc_node (T i)) (key (S j))"
    by (rule mesh_forms [OF S F(1) _ F(3)])
  have sv: "\<forall>i \<in> F. serving (T i) \<and> calm (proc_node (T i))"
    using T(3,4) F(2) same_interface_serving [of "S _"] by (simp add: settled_def) metis
  have "\<forall>i \<in> F. \<forall>j \<in> F. i \<noteq> j \<longrightarrow> session_between T i j"
    using T(5) by (simp add: established_def net_path_peers(1) [OF T(1) S])
  from mesh_online [OF T(2) F(1) sv this] obtain ls1 U where U: "schedule net_step T ls1 U" "online U F" by blast
  note path = path_append [OF T(1) U(1)]
  have rU: "net_reachable U" by (rule path_reachable [OF path S])
  have "\<forall>i \<in> F. \<forall>j \<in> F. i \<noteq> j \<longrightarrow> established (proc_node (U i)) (key (S j))"
    using online_established [OF rU U(2)] by (simp add: net_path_peers(1) [OF path S])
  moreover have "\<exists>ls' S''. schedule net_step U ls' S'' \<and> length ls' = 7 * length ms \<and>
      (\<forall>i \<in> F. \<forall>j \<in> F. i \<noteq> j \<longrightarrow> established (proc_node (S'' i)) (key (S j))) \<and>
      (\<forall>a. written (proc_tun (S'' a)) = written (proc_tun (U a)) @ delivered_to a ms)" if "traffic_ok S F ms" for ms
  proof -
    have "traffic_ok U F ms" using that by (simp add: traffic_ok_def deliverable_path [OF path S])
    from online_carries [OF rU U(2) this] obtain ls' V where V: "schedule net_step U ls' V" "length ls' = 7 * length ms" "online V F"
      "\<forall>a. written (proc_tun (V a)) = written (proc_tun (U a)) @ delivered_to a ms" by (elim exE conjE)
    have "\<forall>i \<in> F. \<forall>j \<in> F. i \<noteq> j \<longrightarrow> established (proc_node (V i)) (key (S j))"
      using online_established [OF path_reachable [OF V(1) rU] V(3)] by (simp add: net_path_peers(1) [OF path_append [OF path V(1)] S])
    with V(1,2,4) show ?thesis by blast
  qed
  ultimately show ?thesis using path by blast
qed

text \<open>The two connected nodes of \<open>Mesh_Network\<close> list each other.\<close>

lemma path_whitelist:
  assumes "node_path n ls n'" and "node_reachable n"
  shows "whitelist (mgr n') = whitelist (mgr n)"
  by (rule node_grows_peers(1) [OF node_path_grows [OF assms] assms(2) path_reachable [OF assms]])

lemma live_whitelists: "whitelist (mgr live_node) = {7}" "whitelist (mgr far_node) = {5}"
proof -
  have far: "node_reachable far_start" by (rule reach_init) (rule far_initial)
  show "whitelist (mgr live_node) = {7}" "whitelist (mgr far_node) = {5}"
    using path_whitelist [OF live_node_path sample_start_state(1)] path_whitelist [OF far_path far]
      sample_start_state(3) far_start_state(2) by simp_all
qed

section \<open>From the start\<close>

text \<open>The loops of a started node create the virtual interface.\<close>

lemma interface_created:
  assumes "node_initial n"
  obtains s where "schedule proc_step (spawn_loops n) [TunPart CreateOk] s" "proc_node s = n" "serving s"
proof -
  obtain ms and s :: "('a, 'b) Process" where "schedule proc_step (spawn_loops n) (TunPart CreateOk # ms) s" "list_all2 lifts [] ms"
    "proc_node s = n" "serving s"
    by (rule running_process [OF assms path_end _ node_initial_queues(6) [OF assms]]) simp_all
  then show thesis using that by simp
qed

lemma started_mesh_carries:
  fixes a :: "'i \<Rightarrow> 'pk::linorder Node"
  defines "S \<equiv> \<lambda>i. spawn_loops (a i) :: ('pk, 'te) Process"
  assumes F: "finite F" and ini: "\<And>i. node_initial (a i)" and mu: "mutual S F"
  obtains ls S' where "schedule net_step S ls S'"
    "\<forall>i \<in> F. \<forall>j \<in> F. i \<noteq> j \<longrightarrow> established (proc_node (S' i)) (endpoint_id (mgr (a j)))"
    "\<forall>ms. traffic_ok S F ms \<longrightarrow> (\<exists>ls' S''. schedule net_step S' ls' S'' \<and> length ls' = 7 * length ms \<and>
       (\<forall>i \<in> F. \<forall>j \<in> F. i \<noteq> j \<longrightarrow> established (proc_node (S'' i)) (endpoint_id (mgr (a j)))) \<and>
       (\<forall>i. written (proc_tun (S'' i)) = written (proc_tun (S' i)) @ delivered_to i ms))"
proof -
  have i: "net_initial S" unfolding net_initial_def S_def by (intro allI spawn_loops_initial ini)
  have r: "net_reachable S" by (rule reach_init) (rule i)
  have step: "\<exists>ms s. schedule net_step T ms (T(i := s)) \<and> serving s" if "T i = S i" for T i
  proof -
    obtain s :: "('pk, 'te) Process" where s: "schedule proc_step (S i) [TunPart CreateOk] s" "serving s"
      unfolding S_def by (rule interface_created [OF ini])
    have "schedule net_step T (map (Pair i) [TunPart CreateOk]) (T(i := s))" by (rule net_lift [OF s(1)]) (use that in simp_all)
    with s(2) show ?thesis by blast
  qed
  have "\<forall>i \<in> F. S i = S i" by simp
  from each_node [where P = "\<lambda>i s. s = S i" and Q = "\<lambda>i s. serving", OF F r this step]
  obtain ls T where T: "schedule net_step S ls T" "\<forall>i. if i \<in> F then serving (T i) else T i = S i" by blast
  have rT: "net_reachable T" by (rule path_reachable [OF T(1) r])
  have sv: "\<forall>i \<in> F. serving (T i)" using T(2) by meson
  have mT: "mutual T F" using mu by (simp add: mutual_path [OF T(1) r])
  have tr: "traffic_ok T F ms = traffic_ok S F ms" for ms by (simp add: traffic_ok_def deliverable_path [OF T(1) r])
  have key: "key (T j) = endpoint_id (mgr (a j))" for j
    unfolding net_path_peers(1) [OF T(1) r] by (simp add: S_def spawn_loops_def)
  obtain ls1 S' where "schedule net_step T ls1 S'"
    "\<forall>i \<in> F. \<forall>j \<in> F. i \<noteq> j \<longrightarrow> established (proc_node (S' i)) (endpoint_id (mgr (a j)))"
    "\<forall>ms. traffic_ok S F ms \<longrightarrow> (\<exists>ls' S''. schedule net_step S' ls' S'' \<and> length ls' = 7 * length ms \<and>
       (\<forall>i \<in> F. \<forall>j \<in> F. i \<noteq> j \<longrightarrow> established (proc_node (S'' i)) (endpoint_id (mgr (a j)))) \<and>
       (\<forall>i. written (proc_tun (S'' i)) = written (proc_tun (S' i)) @ delivered_to i ms))"
    using mesh_carries [OF rT F sv mT] unfolding tr key by (elim exE conjE)
  then show thesis by (intro that [OF path_append [OF T(1)]])
qed

end
