(* ===== verification/Config_File.thy ===== *)
theory Config_File
  imports Rust_Net Rust_Io
begin

text \<open>
  The configuration of \<^verbatim>\<open>src/config.rs\<close>: reading and validating the file, the peer table and
  the secret key, which is generated on first use. The TOML parser and the key functions of
  the iroh crate are not part of the repository; they are the fields of the record \<open>Crates\<close>,
  an argument of every definition that calls them.
\<close>

section \<open>Data\<close>

definition SUBNET :: Ipv4Addr where
  "SUBNET = Ipv4Addr 10 67 0 0"

definition NETMASK :: Ipv4Addr where
  "NETMASK = Ipv4Addr 255 255 0 0"

definition DEFAULT_LISTEN_PORT :: u16 where
  "DEFAULT_LISTEN_PORT = 0"

definition DEFAULT_MTU :: u16 where
  "DEFAULT_MTU = 1500"

definition DEFAULT_TUN_NAME :: string where
  "DEFAULT_TUN_NAME = ''iroh_vpn''"

record ('sk, 'pk) Config =
  cfg_secret_key :: 'sk
  cfg_node_ipv4 :: Ipv4Addr
  cfg_netmask :: Ipv4Addr
  cfg_tun_name :: string
  cfg_listen_port :: u16
  cfg_mtu :: u16
  cfg_log_level :: string
  cfg_log_path :: "string option"
  cfg_peers :: "Ipv4Addr \<rightharpoonup> 'pk"

record Peer =
  peer_pub_key :: string
  peer_ipv4 :: string

record ConfigToml =
  toml_secret_key_path :: string
  toml_node_ipv4 :: string
  toml_tun_name :: "string option"
  toml_listen_port :: "u16 option"
  toml_mtu :: "u16 option"
  toml_log_level :: "string option"
  toml_log_path :: "string option"
  toml_peers :: "Peer list"

datatype SecretKeyError =
    GetKeyError ErrorKind
  | IncorrectKey

datatype ('te, 'ke) ConfigError =
    OpenFileError ErrorKind
  | FormatParsingError 'te
  | SecretKeyError SecretKeyError
  | Ipv4ParseError AddrParseError
  | PublicKeyParseError 'ke
  | Ipv4NotInSubnet
  | IncorrectLogLevel

text \<open>The functions of the toml and iroh crates; \<open>generated\<close> is the key that
  \<^verbatim>\<open>SecretKey::generate\<close> draws.\<close>

record ('te, 'ke, 'sk, 'pk) Crates =
  from_slice :: "bytes \<Rightarrow> 'te + ConfigToml"
  pk_from_str :: "string \<Rightarrow> 'ke + 'pk"
  generated :: 'sk
  to_bytes :: "'sk \<Rightarrow> bytes"
  from_bytes :: "bytes \<Rightarrow> 'sk"

section \<open>Messages\<close>

fun fmt_SecretKeyError :: "(ErrorKind \<Rightarrow> string) \<Rightarrow> SecretKeyError \<Rightarrow> string" where
  "fmt_SecretKeyError show_io (GetKeyError e) = ''can'' @ [CHR 0x27] @ ''t get the key: '' @ show_io e"
| "fmt_SecretKeyError show_io IncorrectKey = ''given key isn'' @ [CHR 0x27] @ ''t correct''"

fun fmt_ConfigError ::
  "(ErrorKind \<Rightarrow> string) \<Rightarrow> ('te \<Rightarrow> string) \<Rightarrow> (AddrParseError \<Rightarrow> string) \<Rightarrow> ('ke \<Rightarrow> string) \<Rightarrow>
     ('te, 'ke) ConfigError \<Rightarrow> string" where
  "fmt_ConfigError show_io show_toml show_addr show_key (OpenFileError e) = ''Open file error: '' @ show_io e"
| "fmt_ConfigError show_io show_toml show_addr show_key (FormatParsingError e) =
     ''Incorrect config format: '' @ show_toml e"
| "fmt_ConfigError show_io show_toml show_addr show_key (SecretKeyError e) =
     ''Secret key error: '' @ fmt_SecretKeyError show_io e"
| "fmt_ConfigError show_io show_toml show_addr show_key (Ipv4ParseError e) = ''Ipv4 parse error: '' @ show_addr e"
| "fmt_ConfigError show_io show_toml show_addr show_key (PublicKeyParseError e) =
     ''Public key parse error: '' @ show_key e"
| "fmt_ConfigError show_io show_toml show_addr show_key Ipv4NotInSubnet = ''Node Ipv4 not in correct subnet''"
| "fmt_ConfigError show_io show_toml show_addr show_key IncorrectLogLevel = ''Incorrect log level''"

section \<open>The secret key\<close>

definition gen_secret_key ::
  "('te, 'ke, 'sk, 'pk) Crates \<Rightarrow> FS \<Rightarrow> string \<Rightarrow> (ErrorKind + 'sk) \<times> FS" where
  "gen_secret_key C fs path =
     (case fs_write fs path (to_bytes C (generated C)) of
        Inl e \<Rightarrow> (Inl e, fs)
      | Inr fs' \<Rightarrow> (Inr (generated C), fs'))"

text \<open>\<^verbatim>\<open>as_array::<32>()\<close> followed by \<^verbatim>\<open>unwrap\<close>: a panic on any other length.\<close>

definition as_array_32 :: "bytes \<Rightarrow> bytes option" where
  "as_array_32 data = (if length data = 32 then Some data else None)"

definition get_secret_key ::
  "('te, 'ke, 'sk, 'pk) Crates \<Rightarrow> FS \<Rightarrow> string \<Rightarrow> ((SecretKeyError + 'sk) \<times> FS) option" where
  "get_secret_key C fs path =
     (case fs_read fs path of
        Inl e \<Rightarrow>
          if e = NotFound
          then (case gen_secret_key C fs path of
                  (Inr sec_key, fs') \<Rightarrow> Some (Inr sec_key, fs')
                | (Inl e, fs') \<Rightarrow> Some (Inl (GetKeyError e), fs'))
          else Some (Inl (GetKeyError e), fs)
      | Inr data \<Rightarrow>
          if length data \<noteq> 32 then Some (Inl IncorrectKey, fs)
          else do { key \<leftarrow> as_array_32 data; Some (Inr (from_bytes C key), fs) })"

section \<open>The peer table\<close>

fun insert_peers ::
  "('te, 'ke, 'sk, 'pk) Crates \<Rightarrow> Peer list \<Rightarrow> (Ipv4Addr \<rightharpoonup> 'pk) \<Rightarrow> ('te, 'ke) ConfigError + (Ipv4Addr \<rightharpoonup> 'pk)" where
  "insert_peers C [] peers = Inr peers"
| "insert_peers C (peer # rest) peers =
     (case ipv4_from_str (peer_ipv4 peer) of
        Inl e \<Rightarrow> Inl (Ipv4ParseError e)
      | Inr ipv4 \<Rightarrow>
          (case pk_from_str C (peer_pub_key peer) of
             Inl e \<Rightarrow> Inl (PublicKeyParseError e)
           | Inr pub_key \<Rightarrow> insert_peers C rest (peers(ipv4 \<mapsto> pub_key))))"

definition get_peers ::
  "('te, 'ke, 'sk, 'pk) Crates \<Rightarrow> ConfigToml \<Rightarrow> ('te, 'ke) ConfigError + (Ipv4Addr \<rightharpoonup> 'pk)" where
  "get_peers C cfg = insert_peers C (toml_peers cfg) Map.empty"

section \<open>The file\<close>

definition LOG_LEVELS :: "string list" where
  "LOG_LEVELS = [''trace'', ''debug'', ''info'', ''warn'', ''error'', ''off'']"

text \<open>The checks that follow the secret key, in the order of the code.\<close>

definition build_config ::
  "('te, 'ke, 'sk, 'pk) Crates \<Rightarrow> ConfigToml \<Rightarrow> 'sk \<Rightarrow> ('te, 'ke) ConfigError + ('sk, 'pk) Config" where
  "build_config C config_toml secret_key =
     (case get_peers C config_toml of
        Inl e \<Rightarrow> Inl e
      | Inr peers \<Rightarrow>
          (case ipv4_from_str (toml_node_ipv4 config_toml) of
             Inl e \<Rightarrow> Inl (Ipv4ParseError e)
           | Inr node_ipv4 \<Rightarrow>
               if ipv4_and node_ipv4 NETMASK \<noteq> SUBNET then Inl Ipv4NotInSubnet
               else
                 let listen_port = (case toml_listen_port config_toml of
                       Some port \<Rightarrow> port | None \<Rightarrow> DEFAULT_LISTEN_PORT);
                     mtu = (case toml_mtu config_toml of Some mtu \<Rightarrow> mtu | None \<Rightarrow> DEFAULT_MTU);
                     log_level = (case toml_log_level config_toml of
                       Some lvl \<Rightarrow> if lvl \<in> set LOG_LEVELS then Some lvl else None
                     | None \<Rightarrow> Some ''info'');
                     tun_name = (case toml_tun_name config_toml of
                       Some name \<Rightarrow> name | None \<Rightarrow> DEFAULT_TUN_NAME)
                 in case log_level of
                      None \<Rightarrow> Inl IncorrectLogLevel
                    | Some level \<Rightarrow>
                        Inr \<lparr>cfg_secret_key = secret_key, cfg_node_ipv4 = node_ipv4, cfg_netmask = NETMASK,
                             cfg_tun_name = tun_name, cfg_listen_port = listen_port, cfg_mtu = mtu,
                             cfg_log_level = level, cfg_log_path = toml_log_path config_toml,
                             cfg_peers = peers\<rparr>))"

definition from_file ::
  "('te, 'ke, 'sk, 'pk) Crates \<Rightarrow> FS \<Rightarrow> string \<Rightarrow> ((('te, 'ke) ConfigError + ('sk, 'pk) Config) \<times> FS) option" where
  "from_file C fs path =
     (case fs_read fs path of
        Inl e \<Rightarrow> Some (Inl (OpenFileError e), fs)
      | Inr data \<Rightarrow>
          (case from_slice C data of
             Inl e \<Rightarrow> Some (Inl (FormatParsingError e), fs)
           | Inr config_toml \<Rightarrow>
               (case get_secret_key C fs (toml_secret_key_path config_toml) of
                  None \<Rightarrow> None
                | Some (Inl e, fs') \<Rightarrow> Some (Inl (SecretKeyError e), fs')
                | Some (Inr secret_key, fs') \<Rightarrow> Some (build_config C config_toml secret_key, fs'))))"

section \<open>What the parts compute\<close>

text \<open>Reference definition of one peer entry: the address is read before the key.\<close>

definition parse_peer ::
  "('te, 'ke, 'sk, 'pk) Crates \<Rightarrow> Peer \<Rightarrow> ('te, 'ke) ConfigError + (Ipv4Addr \<times> 'pk)" where
  "parse_peer C peer =
     (case ipv4_from_str (peer_ipv4 peer) of
        Inl e \<Rightarrow> Inl (Ipv4ParseError e)
      | Inr ip \<Rightarrow> map_sum PublicKeyParseError (Pair ip) (pk_from_str C (peer_pub_key peer)))"

text \<open>Documented behaviour of the key type: 32 bytes, and reading them back gives the key.\<close>

definition key_codec :: "('te, 'ke, 'sk, 'pk) Crates \<Rightarrow> bool" where
  "key_codec C \<longleftrightarrow> (\<forall>k. length (to_bytes C k) = 32 \<and> from_bytes C (to_bytes C k) = k)"

lemma insert_peers_step:
  "insert_peers C (peer # rest) m =
     (case parse_peer C peer of Inl e \<Rightarrow> Inl e | Inr (ip, k) \<Rightarrow> insert_peers C rest (m(ip \<mapsto> k)))"
  by (auto simp: parse_peer_def split: sum.splits)

lemma insert_peers_eq:
  "insert_peers C ps m =
     (case List.find (\<lambda>p. isl (parse_peer C p)) ps of
        Some p \<Rightarrow> Inl (projl (parse_peer C p))
      | None \<Rightarrow> Inr (m ++ map_of (rev (map (projr \<circ> parse_peer C) ps))))"
proof (induction ps arbitrary: m)
  case Nil
  then show ?case by simp
next
  case (Cons p ps)
  show ?case
  proof (cases "parse_peer C p")
    case (Inl e)
    then show ?thesis unfolding insert_peers_step by simp
  next
    case (Inr x)
    obtain ip k where "x = (ip, k)" by (cases x)
    with Inr show ?thesis
      unfolding insert_peers_step by (simp add: Cons.IH map_add_assoc [symmetric] map_add_upd_left
          comp_def split: option.splits)
  qed
qed

lemma and_255: "(a :: u8) AND 255 = a"
proof -
  have "(255 :: u8) = - 1" by simp
  then show ?thesis by (simp only: and.right_neutral)
qed

lemma in_subnet: "ipv4_and ip NETMASK = SUBNET \<longleftrightarrow> octet0 ip = 10 \<and> octet1 ip = 67"
  by (cases ip) (simp add: NETMASK_def SUBNET_def and_255)

lemma build_config_Inr:
  "build_config C t sk = Inr cfg \<longleftrightarrow>
     get_peers C t = Inr (cfg_peers cfg) \<and> ipv4_from_str (toml_node_ipv4 t) = Inr (cfg_node_ipv4 cfg) \<and>
     octet0 (cfg_node_ipv4 cfg) = 10 \<and> octet1 (cfg_node_ipv4 cfg) = 67 \<and>
     cfg_log_level cfg \<in> set LOG_LEVELS \<and>
     cfg_log_level cfg = (case toml_log_level t of Some l \<Rightarrow> l | None \<Rightarrow> ''info'') \<and>
     cfg_secret_key cfg = sk \<and> cfg_netmask cfg = NETMASK \<and>
     cfg_tun_name cfg = (case toml_tun_name t of Some x \<Rightarrow> x | None \<Rightarrow> DEFAULT_TUN_NAME) \<and>
     cfg_listen_port cfg = (case toml_listen_port t of Some x \<Rightarrow> x | None \<Rightarrow> DEFAULT_LISTEN_PORT) \<and>
     cfg_mtu cfg = (case toml_mtu t of Some x \<Rightarrow> x | None \<Rightarrow> DEFAULT_MTU) \<and>
     cfg_log_path cfg = toml_log_path t"
  by (cases cfg)
     (auto simp: build_config_def in_subnet Let_def LOG_LEVELS_def split: sum.splits option.splits)

text \<open>The three ways in which the key is obtained, and the failures.\<close>

lemma get_secret_key_cases:
  obtains (stored) data where "fs_read fs path = Inr data" "length data = 32"
      "get_secret_key C fs path = Some (Inr (from_bytes C data), fs)"
    | (fresh) fs' where "fs_read fs path = Inl NotFound"
      "fs_write fs path (to_bytes C (generated C)) = Inr fs'"
      "get_secret_key C fs path = Some (Inr (generated C), fs')"
    | (failed) e where "get_secret_key C fs path = Some (Inl e, fs)"
proof (cases "fs_read fs path")
  case (Inl e)
  let ?w = "fs_write fs path (to_bytes C (generated C))"
  have "get_secret_key C fs path =
      (if e = NotFound then case ?w of Inl e' \<Rightarrow> Some (Inl (GetKeyError e'), fs) | Inr fs' \<Rightarrow> Some (Inr (generated C), fs')
       else Some (Inl (GetKeyError e), fs))"
    using Inl by (auto simp: get_secret_key_def gen_secret_key_def split: sum.splits)
  with Inl fresh failed show thesis by (cases ?w; cases "e = NotFound") simp_all
next
  case (Inr data)
  then show thesis
    using stored failed by (cases "length data = 32") (auto simp: get_secret_key_def as_array_32_def)
qed

lemma get_secret_key_total: "\<exists>r fs'. get_secret_key C fs path = Some (r, fs')"
  by (cases rule: get_secret_key_cases [of fs path C]) auto

lemma from_file_cases:
  obtains (rejected) e where "from_file C fs path = Some (Inl e, fs)"
  | (checked) data t sk fs' where "fs_read fs path = Inr data" "from_slice C data = Inr t"
    "get_secret_key C fs (toml_secret_key_path t) = Some (Inr sk, fs')"
    "from_file C fs path = Some (build_config C t sk, fs')"
proof (cases "fs_read fs path")
  case (Inl e)
  with rejected show thesis by (simp add: from_file_def)
next
  case read: (Inr data)
  show thesis
  proof (cases "from_slice C data")
    case (Inl e)
    with read rejected show thesis by (simp add: from_file_def)
  next
    case (Inr t)
    with read rejected checked show thesis
      by (cases rule: get_secret_key_cases [of fs "toml_secret_key_path t" C])
         (auto simp: from_file_def)
  qed
qed

section \<open>A concrete configuration\<close>

definition sample_toml :: ConfigToml where
  "sample_toml = \<lparr>toml_secret_key_path = ''secret.key'', toml_node_ipv4 = ''10.67.1.5'', toml_tun_name = None,
     toml_listen_port = None, toml_mtu = None, toml_log_level = Some ''debug'', toml_log_path = None,
     toml_peers = [\<lparr>peer_pub_key = ''k'', peer_ipv4 = ''8.8.8.8''\<rparr>]\<rparr>"

definition sample_crates :: "u8 \<Rightarrow> (unit, unit, u8, nat) Crates" where
  "sample_crates g = \<lparr>from_slice = (\<lambda>d. if d = [1] then Inr sample_toml else Inl ()),
     pk_from_str = (\<lambda>x. if x = ''k'' then Inr 7 else Inl ()), generated = g,
     to_bytes = replicate 32, from_bytes = hd\<rparr>"

definition sample_fs :: FS where
  "sample_fs = \<lparr>files = [''config.toml'' \<mapsto> [1]], read_fault = (\<lambda>_. None), write_fault = (\<lambda>_. None)\<rparr>"

lemma sample_codec: "key_codec (sample_crates g)"
  by (simp add: key_codec_def sample_crates_def)

lemma sample_read: "fs_read sample_fs ''config.toml'' = Inr [1]" "from_slice (sample_crates g) [1] = Inr sample_toml"
  "fs_read sample_fs ''secret.key'' = Inl NotFound" "write_fault sample_fs q = None"
  by (simp_all add: sample_fs_def fs_read_def sample_crates_def)

lemma sample_addresses:
  "ipv4_from_str ''10.67.1.5'' = Inr (Ipv4Addr 10 67 1 5)" "ipv4_from_str ''8.8.8.8'' = Inr (Ipv4Addr 8 8 8 8)"
  by code_simp+

definition sample_config :: "u8 \<Rightarrow> (u8, nat) Config" where
  "sample_config g = \<lparr>cfg_secret_key = g, cfg_node_ipv4 = Ipv4Addr 10 67 1 5, cfg_netmask = NETMASK,
     cfg_tun_name = DEFAULT_TUN_NAME, cfg_listen_port = DEFAULT_LISTEN_PORT, cfg_mtu = DEFAULT_MTU,
     cfg_log_level = ''debug'', cfg_log_path = None, cfg_peers = [Ipv4Addr 8 8 8 8 \<mapsto> 7]\<rparr>"

lemma sample_from_file:
  "from_file (sample_crates g) sample_fs ''config.toml'' =
     Some (Inr (sample_config g), sample_fs\<lparr>files := (files sample_fs)(''secret.key'' \<mapsto> replicate 32 g)\<rparr>)"
proof -
  have "build_config (sample_crates g) sample_toml g = Inr (sample_config g)"
    by (simp add: build_config_Inr sample_config_def sample_toml_def get_peers_def sample_addresses
        LOG_LEVELS_def) (simp add: sample_crates_def)
  moreover have "get_secret_key (sample_crates g) sample_fs ''secret.key'' =
      Some (Inr g, sample_fs\<lparr>files := (files sample_fs)(''secret.key'' \<mapsto> replicate 32 g)\<rparr>)"
    by (simp add: get_secret_key_def sample_read gen_secret_key_def fs_write_def) (simp add: sample_crates_def)
  moreover have "toml_secret_key_path sample_toml = ''secret.key''" by (simp add: sample_toml_def)
  ultimately show ?thesis by (simp add: from_file_def sample_read)
qed

section \<open>Properties\<close>

text \<open>
  C30. An accepted configuration is valid: the node's address is inside 10.67.0.0/16, the mask is
  the subnet's, the log level is one of the six names, the key is the one of the key file, and
  every field comes from the file or is the documented default.
\<close>

theorem from_file_accepts_valid:
  assumes "from_file C fs path = Some (Inr cfg, fs')"
  shows "octet0 (cfg_node_ipv4 cfg) = 10 \<and> octet1 (cfg_node_ipv4 cfg) = 67 \<and> cfg_netmask cfg = NETMASK \<and>
    cfg_log_level cfg \<in> set LOG_LEVELS \<and>
    (\<exists>data t. fs_read fs path = Inr data \<and> from_slice C data = Inr t \<and>
       get_secret_key C fs (toml_secret_key_path t) = Some (Inr (cfg_secret_key cfg), fs') \<and>
       ipv4_from_str (toml_node_ipv4 t) = Inr (cfg_node_ipv4 cfg) \<and> get_peers C t = Inr (cfg_peers cfg) \<and>
       cfg_listen_port cfg = (case toml_listen_port t of Some x \<Rightarrow> x | None \<Rightarrow> 0) \<and>
       cfg_mtu cfg = (case toml_mtu t of Some x \<Rightarrow> x | None \<Rightarrow> 1500) \<and>
       cfg_tun_name cfg = (case toml_tun_name t of Some x \<Rightarrow> x | None \<Rightarrow> ''iroh_vpn'') \<and>
       cfg_log_level cfg = (case toml_log_level t of Some l \<Rightarrow> l | None \<Rightarrow> ''info''))"
proof (cases rule: from_file_cases [of C fs path])
  case (rejected e)
  with assms show ?thesis by simp
next
  case (checked data t sk fs1)
  with assms have "build_config C t sk = Inr cfg" "fs1 = fs'" by simp_all
  with checked show ?thesis
    unfolding build_config_Inr DEFAULT_MTU_def DEFAULT_LISTEN_PORT_def DEFAULT_TUN_NAME_def by blast
qed

theorem from_file_accepts_valid_witness:
  "octet0 (cfg_node_ipv4 (sample_config 9)) = 10 \<and> octet1 (cfg_node_ipv4 (sample_config 9)) = 67 \<and>
   cfg_log_level (sample_config 9) \<in> set LOG_LEVELS"
  using from_file_accepts_valid [OF sample_from_file [of 9]] by blast

text \<open>
  C31. Loading a configuration never panics, whatever the files contain, and its only effect is
  to create a missing key file: no file that exists is ever changed.
\<close>

theorem from_file_total:
  assumes "\<forall>q. read_fault fs q \<noteq> Some NotFound"
  shows "\<exists>r fs'. from_file C fs path = Some (r, fs') \<and>
    (fs' = fs \<or> (\<exists>key_path. files fs key_path = None \<and>
       fs' = fs\<lparr>files := (files fs)(key_path \<mapsto> to_bytes C (generated C))\<rparr>))"
proof (cases rule: from_file_cases [of C fs path])
  case (rejected e)
  then show ?thesis by blast
next
  case (checked data t sk fs1)
  have "files fs q = None" if "fs_read fs q = Inl NotFound" for q
    using that assms by (auto simp: fs_read_def split: option.splits)
  with checked show ?thesis
    by (cases rule: get_secret_key_cases [of fs "toml_secret_key_path t" C]) (auto simp: fs_write_Inr)
qed

theorem from_file_total_witness:
  "(\<forall>q. read_fault sample_fs q \<noteq> Some NotFound) \<and>
   (\<exists>r fs'. from_file (sample_crates 9) sample_fs ''missing.toml'' = Some (r, fs'))"
proof -
  have f: "\<forall>q. read_fault sample_fs q \<noteq> Some NotFound" by (simp add: sample_fs_def)
  with from_file_total [OF f, of "sample_crates 9" "''missing.toml''"] show ?thesis by blast
qed

text \<open>
  C29. The identity of a node is stable: when a start creates the key file, every later start
  from the resulting files yields the same result with the same key and writes nothing,
  whatever key the generator would draw then.
\<close>

theorem secret_key_persists:
  assumes "key_codec C" and "from_file C fs path = Some (r, fs')" and "fs' \<noteq> fs"
    and "\<forall>q. read_fault fs q = None"
  shows "from_file (C\<lparr>generated := g\<rparr>) fs' path = Some (r, fs')"
proof (cases rule: from_file_cases [of C fs path])
  case (rejected e)
  with assms(2,3) show ?thesis by simp
next
  case (checked data t sk fs1)
  let ?kp = "toml_secret_key_path t"
  have fs1: "fs1 = fs'" "r = build_config C t sk" using checked assms(2) by simp_all
  obtain w: "fs_write fs ?kp (to_bytes C (generated C)) = Inr fs'" and sk: "sk = generated C"
    and nf: "fs_read fs ?kp = Inl NotFound"
    using checked(3) assms(3) fs1
    by (cases rule: get_secret_key_cases [of fs ?kp C]) auto
  note rd = fs_read_after_write [OF w]
  have "fs_read fs' path = Inr data" using rd nf checked(1) by auto
  moreover have "fs_read fs' ?kp = Inr (to_bytes C sk)" using rd assms(4) sk by simp
  then have "get_secret_key (C\<lparr>generated := g\<rparr>) fs' ?kp = Some (Inr sk, fs')"
    using assms(1) by (simp add: get_secret_key_def as_array_32_def key_codec_def)
  moreover have "build_config (C\<lparr>generated := g\<rparr>) t sk = build_config C t sk"
  proof -
    have "insert_peers (C\<lparr>generated := g\<rparr>) ps m = insert_peers C ps m" for ps m
      by (induction ps arbitrary: m) (simp_all split: sum.splits)
    then show ?thesis by (simp add: build_config_def get_peers_def)
  qed
  ultimately show ?thesis using checked(2) fs1 by (simp add: from_file_def)
qed

theorem secret_key_persists_witness:
  "from_file (sample_crates 4) (sample_fs\<lparr>files := (files sample_fs)(''secret.key'' \<mapsto> replicate 32 9)\<rparr>) ''config.toml'' =
     Some (Inr (sample_config 9), sample_fs\<lparr>files := (files sample_fs)(''secret.key'' \<mapsto> replicate 32 9)\<rparr>)"
proof -
  have "(files sample_fs)(''secret.key'' \<mapsto> replicate 32 9) \<noteq> files sample_fs"
    by (auto simp: sample_fs_def fun_eq_iff)
  then have "sample_fs\<lparr>files := (files sample_fs)(''secret.key'' \<mapsto> replicate 32 9)\<rparr> \<noteq> sample_fs"
    by (auto dest: arg_cong [of _ _ files])
  moreover have "\<forall>q. read_fault sample_fs q = None" by (simp add: sample_fs_def)
  moreover have "(sample_crates 9)\<lparr>generated := 4\<rparr> = sample_crates 4" by (simp add: sample_crates_def)
  ultimately show ?thesis using secret_key_persists [OF sample_codec sample_from_file, of 9 4] by simp
qed

text \<open>
  C32. The peer table is the one of the file: an address is assigned the key of its last entry,
  and the first entry that does not parse decides the error.
\<close>

theorem get_peers_correct:
  "get_peers C cfg =
     (case List.find (\<lambda>p. isl (parse_peer C p)) (toml_peers cfg) of
        Some p \<Rightarrow> Inl (projl (parse_peer C p))
      | None \<Rightarrow> Inr (map_of (rev (map (projr \<circ> parse_peer C) (toml_peers cfg)))))"
  unfolding get_peers_def insert_peers_eq by (simp split: option.splits)

text \<open>
  The subnet check covers the node's own address only: a file whose peer has an address
  outside 10.67.0.0/16 is accepted, and the address enters the routing table.
\<close>

theorem peer_address_outside_subnet_accepted:
  "\<exists>cfg fs'. from_file (sample_crates 9) sample_fs ''config.toml'' = Some (Inr cfg, fs') \<and>
     cfg_peers cfg (Ipv4Addr 8 8 8 8) = Some 7 \<and> ipv4_and (Ipv4Addr 8 8 8 8) NETMASK \<noteq> SUBNET"
  by (simp add: sample_from_file sample_config_def in_subnet)

end
