(* ===== verification/Gen_Configs.thy ===== *)
theory Gen_Configs
  imports Config_File
begin

text \<open>
  The configuration generator of \<^verbatim>\<open>src/bin/gen_configs.rs\<close>: it draws the keys of a full mesh
  of \<open>n\<close> nodes and writes one key file and one configuration file per node. The key functions
  of the iroh crate are the fields of the record \<open>KeyGen\<close>, where \<open>draw i\<close> is the \<open>i\<close>-th key
  that \<^verbatim>\<open>SecretKey::generate\<close> returns. The main theorem loads the generated files with the
  configuration reader of the node.
\<close>

section \<open>Data\<close>

record ('sk, 'pk) KeyGen =
  draw :: "nat \<Rightarrow> 'sk"
  public :: "'sk \<Rightarrow> 'pk"
  pk_to_string :: "'pk \<Rightarrow> string"
  key_bytes :: "'sk \<Rightarrow> bytes"

text \<open>The tuple that the program keeps per node.\<close>

record node_info =
  node_index :: nat
  node_pub_key :: string
  node_ip :: string
  node_secret_path :: string
  node_tun :: string

datatype gen_result =
    ExitCode nat FS
  | Panicked FS
  | Failed ErrorKind FS
  | Finished FS

section \<open>Text\<close>

definition newline :: string where
  "newline = [CHR 0x0A]"

definition quoted :: "string \<Rightarrow> string" where
  "quoted s = [CHR 0x22] @ s @ [CHR 0x22]"

definition writeln :: "string \<Rightarrow> string" where
  "writeln s = s @ newline"

definition ascii :: "string \<Rightarrow> bytes" where
  "ascii s = map of_char s"

definition gen_ip :: "nat \<Rightarrow> string" where
  "gen_ip i = ''10.67.1.'' @ dec_string i"

definition secret_path :: "nat \<Rightarrow> string" where
  "secret_path i = ''tmp/secret'' @ dec_string i @ ''.key''"

definition config_path :: "nat \<Rightarrow> string" where
  "config_path i = ''tmp/node_'' @ dec_string i @ ''.toml''"

definition make_node :: "('sk, 'pk) KeyGen \<Rightarrow> nat \<Rightarrow> node_info" where
  "make_node G i =
     \<lparr>node_index = i, node_pub_key = pk_to_string G (public G (draw G i)), node_ip = gen_ip i,
      node_secret_path = secret_path i, node_tun = ''tun'' @ dec_string i\<rparr>"

definition peer_text :: "node_info \<Rightarrow> string" where
  "peer_text peer =
     writeln ''[[peers]]'' @
     writeln (''pub_key = '' @ quoted (node_pub_key peer)) @
     writeln (''ipv4 = '' @ quoted (node_ip peer)) @
     writeln ''''"

definition config_text :: "node_info list \<Rightarrow> node_info \<Rightarrow> string" where
  "config_text nodes node =
     writeln ''# Path to the secret key'' @
     writeln (''secret_key_path = '' @ quoted (node_secret_path node)) @
     writeln '''' @
     writeln ''# Node IPv4 address'' @
     writeln (''node_ipv4 = '' @ quoted (node_ip node)) @
     writeln '''' @
     writeln ''# Port for incoming connections (0 means random available port)'' @
     writeln ''listen_port = 0'' @
     writeln '''' @
     writeln (''tun_name = '' @ quoted (node_tun node)) @
     writeln '''' @
     writeln (''log_level = '' @ quoted ''debug'') @
     writeln '''' @
     writeln ''# =========================================='' @
     writeln ''# Adjacent nodes (Whitelist)'' @
     writeln ''# =========================================='' @
     concat (map peer_text (filter (\<lambda>peer. node_index node \<noteq> node_index peer) nodes))"

section \<open>The program\<close>

text \<open>\<^verbatim>\<open>str::parse::<usize>\<close>: an optional plus sign, then digits, within 64 bits.\<close>

definition parse_usize :: "string \<Rightarrow> nat option" where
  "parse_usize s =
     (let ds = (if s \<noteq> [] \<and> hd s = CHR ''+'' then tl s else s) in
      if ds \<noteq> [] \<and> list_all is_digit ds \<and> dec_value ds < 2 ^ 64 then Some (dec_value ds) else None)"

fun gen_keys ::
  "('sk, 'pk) KeyGen \<Rightarrow> FS \<Rightarrow> nat list \<Rightarrow> (ErrorKind \<times> FS) + (node_info list \<times> FS)" where
  "gen_keys G fs [] = Inr ([], fs)"
| "gen_keys G fs (i # is) =
     (case fs_write fs (secret_path i) (key_bytes G (draw G i)) of
        Inl e \<Rightarrow> Inl (e, fs)
      | Inr fs' \<Rightarrow>
          (case gen_keys G fs' is of
             Inl failure \<Rightarrow> Inl failure
           | Inr (nodes, fs'') \<Rightarrow> Inr (make_node G i # nodes, fs'')))"

fun write_configs :: "node_info list \<Rightarrow> FS \<Rightarrow> node_info list \<Rightarrow> (ErrorKind \<times> FS) + FS" where
  "write_configs nodes fs [] = Inr fs"
| "write_configs nodes fs (node # rest) =
     (case fs_write fs (config_path (node_index node)) (ascii (config_text nodes node)) of
        Inl e \<Rightarrow> Inl (e, fs)
      | Inr fs' \<Rightarrow> write_configs nodes fs' rest)"

text \<open>\<open>dir_exists\<close> and \<open>mkdir\<close> are the answers of \<^verbatim>\<open>exists\<close> and \<^verbatim>\<open>create_dir_all\<close> for the
  directory \<^verbatim>\<open>tmp\<close>.\<close>

definition gen_configs ::
  "('sk, 'pk) KeyGen \<Rightarrow> bool \<Rightarrow> ErrorKind option \<Rightarrow> FS \<Rightarrow> string list \<Rightarrow> gen_result" where
  "gen_configs G dir_exists mkdir fs args =
     (if length args \<noteq> 2 then ExitCode 1 fs
      else case parse_usize (args ! 1) of
        None \<Rightarrow> Panicked fs
      | Some n \<Rightarrow>
          (case (if dir_exists then None else mkdir) of
             Some e \<Rightarrow> Failed e fs
           | None \<Rightarrow>
               (case gen_keys G fs [1..<Suc n] of
                  Inl (e, fs') \<Rightarrow> Failed e fs'
                | Inr (nodes, fs') \<Rightarrow>
                    (case write_configs nodes fs' nodes of
                       Inl (e, fs'') \<Rightarrow> Failed e fs''
                     | Inr fs'' \<Rightarrow> Finished fs''))))"

section \<open>What the files hold\<close>

text \<open>The values that the text of a configuration assigns to the keys of the format.\<close>

definition config_fields :: "node_info list \<Rightarrow> node_info \<Rightarrow> ConfigToml" where
  "config_fields nodes node =
     \<lparr>toml_secret_key_path = node_secret_path node, toml_node_ipv4 = node_ip node,
      toml_tun_name = Some (node_tun node), toml_listen_port = Some 0, toml_mtu = None,
      toml_log_level = Some ''debug'', toml_log_path = None,
      toml_peers = map (\<lambda>p. \<lparr>peer_pub_key = node_pub_key p, peer_ipv4 = node_ip p\<rparr>)
        (filter (\<lambda>peer. node_index node \<noteq> node_index peer) nodes)\<rparr>"

text \<open>
  What the generator relies on: the TOML parser returns the assigned values of a generated
  text, and the printed form of a public key is parsed to that key.
\<close>

definition toml_reads :: "('te, 'ke, 'sk, 'pk) Crates \<Rightarrow> node_info list \<Rightarrow> bool" where
  "toml_reads C nodes \<longleftrightarrow>
     list_all (\<lambda>node. from_slice C (ascii (config_text nodes node)) = Inr (config_fields nodes node)) nodes"

definition keys_agree :: "('te, 'ke, 'sk, 'pk) Crates \<Rightarrow> ('sk, 'pk) KeyGen \<Rightarrow> bool" where
  "keys_agree C G \<longleftrightarrow> key_codec C \<and> key_bytes G = to_bytes C \<and> (\<forall>k. pk_from_str C (pk_to_string G k) = Inr k)"

definition gen_addr :: "nat \<Rightarrow> Ipv4Addr" where
  "gen_addr i = Ipv4Addr 10 67 1 (word_of_nat i)"

abbreviation mesh :: "('sk, 'pk) KeyGen \<Rightarrow> nat \<Rightarrow> node_info list" where
  "mesh G n \<equiv> map (make_node G) [1..<Suc n]"

lemma gen_ip_eq:
  "gen_ip i = dec_string (unat (10 :: u8)) @ ''.'' @ dec_string (unat (67 :: u8)) @ ''.'' @
     dec_string (unat (1 :: u8)) @ ''.'' @ dec_string i"
proof -
  have "dec_string 10 = ''10''" "dec_string 67 = ''67''" "dec_string 1 = ''1''" by code_simp+
  then show ?thesis by (simp add: gen_ip_def)
qed

lemma gen_ip_addr: "i < 256 \<Longrightarrow> gen_ip i = ipv4_to_string (gen_addr i)"
  unfolding gen_ip_eq gen_addr_def ipv4_to_string.simps by (simp add: unat_of_nat)

lemma parse_gen_ip: "i < 256 \<Longrightarrow> ipv4_from_str (gen_ip i) = Inr (gen_addr i)"
  by (simp add: gen_ip_addr)

lemma parse_usize_dec_string:
  assumes "n < 2 ^ 64"
  shows "parse_usize (dec_string n) = Some n"
proof -
  have "hd (dec_string n) \<noteq> CHR ''+''"
    using dec_string_digits [of "hd (dec_string n)" n] by (auto simp: is_digit_def)
  with assms dec_string_digits [of _ n] show ?thesis
    by (simp add: parse_usize_def list_all_iff)
qed

lemma parse_gen_ip_too_big: "255 < i \<Longrightarrow> ipv4_from_str (gen_ip i) = Inl AddrParseError"
  unfolding gen_ip_eq ipv4_from_str_def by (subst read_ipv4_last_too_big) simp_all

lemma gen_addr_inject: "i < 256 \<Longrightarrow> j < 256 \<Longrightarrow> gen_addr i = gen_addr j \<longleftrightarrow> i = j"
  by (metis gen_ip_addr gen_ip_def same_append_eq dec_string_inject)

lemma path_inject [simp]:
  "secret_path i = secret_path j \<longleftrightarrow> i = j" "config_path i = config_path j \<longleftrightarrow> i = j"
  "secret_path i \<noteq> config_path j" "config_path j \<noteq> secret_path i"
  by (auto simp: secret_path_def config_path_def)

text \<open>With a file system that accepts every write, both loops finish.\<close>

definition faultless :: "FS \<Rightarrow> bool" where
  "faultless fs \<longleftrightarrow> (\<forall>q. read_fault fs q = None \<and> write_fault fs q = None)"

lemma faultless_upd [simp]: "faultless (fs\<lparr>files := m\<rparr>) = faultless fs"
  by (simp add: faultless_def)

lemma fs_write_faultless: "faultless fs \<Longrightarrow> fs_write fs p d = Inr (fs\<lparr>files := (files fs)(p \<mapsto> d)\<rparr>)"
  by (simp add: fs_write_def faultless_def)

lemma gen_keys_faultless:
  "faultless fs \<Longrightarrow>
   gen_keys G fs is = Inr (map (make_node G) is,
     fs\<lparr>files := files fs ++ map_of (rev (map (\<lambda>i. (secret_path i, key_bytes G (draw G i))) is))\<rparr>)"
  by (induction "is" arbitrary: fs) (simp_all add: fs_write_faultless map_add_assoc [symmetric] map_add_upd_left)

lemma write_configs_faultless:
  "faultless fs \<Longrightarrow>
   write_configs nodes fs ns = Inr (fs\<lparr>files := files fs ++
     map_of (rev (map (\<lambda>x. (config_path (node_index x), ascii (config_text nodes x))) ns))\<rparr>)"
  by (induction ns arbitrary: fs) (simp_all add: fs_write_faultless map_add_assoc [symmetric] map_add_upd_left)

lemma map_of_rev_inj:
  assumes "inj_on f (set xs)" and "x \<in> set xs"
  shows "map_of (rev (map (\<lambda>x. (f x, g x)) xs)) (f x) = Some (g x)"
proof -
  have "map_of (rev (map (\<lambda>x. (f x, g x)) xs)) (f x) \<noteq> None"
    using assms(2) by (auto simp: map_of_eq_None_iff image_image)
  then obtain y where "map_of (rev (map (\<lambda>x. (f x, g x)) xs)) (f x) = Some y" by blast
  with map_of_SomeD [OF this] assms show ?thesis by (auto dest: inj_onD)
qed

lemma gen_configs_files:
  assumes "faultless fs" and "n < 2 ^ 64" and "dir_exists \<or> mkdir = None"
  obtains fs' where "gen_configs G dir_exists mkdir fs [prog, dec_string n] = Finished fs'" and "faultless fs'"
    and "\<And>i. i \<in> {1..n} \<Longrightarrow> files fs' (secret_path i) = Some (key_bytes G (draw G i))"
    and "\<And>i. i \<in> {1..n} \<Longrightarrow> files fs' (config_path i) = Some (ascii (config_text (mesh G n) (make_node G i)))"
proof -
  define m1 where "m1 = map_of (rev (map (\<lambda>i. (secret_path i, key_bytes G (draw G i))) [1..<Suc n]))"
  define m2 where "m2 = map_of (rev (map (\<lambda>i. (config_path i, ascii (config_text (mesh G n) (make_node G i)))) [1..<Suc n]))"
  let ?fs = "fs\<lparr>files := files fs ++ m1 ++ m2\<rparr>"
  have idx: "node_index (make_node G i) = i" for i by (simp add: make_node_def)
  have "gen_keys G fs [1..<Suc n] = Inr (mesh G n, fs\<lparr>files := files fs ++ m1\<rparr>)"
    unfolding m1_def by (rule gen_keys_faultless [OF assms(1)])
  moreover have "write_configs (mesh G n) (fs\<lparr>files := files fs ++ m1\<rparr>) (mesh G n) = Inr ?fs"
    unfolding m2_def using write_configs_faultless [of "fs\<lparr>files := files fs ++ m1\<rparr>" "mesh G n" "mesh G n"] assms(1)
    by (simp add: idx comp_def)
  ultimately have "gen_configs G dir_exists mkdir fs [prog, dec_string n] = Finished ?fs"
    using assms(2,3) by (auto simp: gen_configs_def parse_usize_dec_string simp del: upt_Suc)
  moreover have "files ?fs (secret_path i) = Some (key_bytes G (draw G i))" if "i \<in> {1..n}" for i
  proof -
    have "m2 (secret_path i) = None" unfolding m2_def by (auto simp: map_of_eq_None_iff)
    moreover have "m1 (secret_path i) = Some (key_bytes G (draw G i))"
      unfolding m1_def by (rule map_of_rev_inj) (use that in \<open>auto simp: inj_on_def\<close>)
    ultimately show ?thesis by (simp add: map_add_def)
  qed
  moreover have "files ?fs (config_path i) = Some (ascii (config_text (mesh G n) (make_node G i)))" if "i \<in> {1..n}" for i
  proof -
    have "m2 (config_path i) = Some (ascii (config_text (mesh G n) (make_node G i)))"
      unfolding m2_def by (rule map_of_rev_inj) (use that in \<open>auto simp: inj_on_def\<close>)
    then show ?thesis by (simp add: map_add_def)
  qed
  ultimately show thesis using that [of ?fs] assms(1) by simp
qed

section \<open>Loading a generated file\<close>

text \<open>The peers that the file of node \<open>i\<close> lists, in order.\<close>

definition listed :: "nat \<Rightarrow> nat \<Rightarrow> nat list" where
  "listed n i = filter (\<lambda>j. i \<noteq> j) [1..<Suc n]"

lemma listed_set: "set (listed n i) = {1..n} - {i}"
  unfolding listed_def by (auto simp del: upt_Suc)

lemma listed_peers:
  "toml_peers (config_fields (mesh G n) (make_node G i)) =
     map (\<lambda>j. \<lparr>peer_pub_key = pk_to_string G (public G (draw G j)), peer_ipv4 = gen_ip j\<rparr>) (listed n i)"
  unfolding config_fields_def listed_def
  by (simp add: filter_map comp_def make_node_def del: upt_Suc)

lemma parse_listed:
  assumes "keys_agree C G"
  shows "parse_peer C \<lparr>peer_pub_key = pk_to_string G k, peer_ipv4 = gen_ip j\<rparr> =
    (if j < 256 then Inr (gen_addr j, k) else Inl (Ipv4ParseError AddrParseError))"
  using assms by (auto simp: parse_peer_def keys_agree_def parse_gen_ip parse_gen_ip_too_big)

lemma get_peers_mesh:
  assumes "keys_agree C G" and "n < 256"
  shows "get_peers C (config_fields (mesh G n) (make_node G i)) =
    Inr (map_of (rev (map (\<lambda>j. (gen_addr j, public G (draw G j))) (listed n i))))"
proof -
  let ?e = "\<lambda>j. \<lparr>peer_pub_key = pk_to_string G (public G (draw G j)), peer_ipv4 = gen_ip j\<rparr>"
  have p: "parse_peer C (?e j) = Inr (gen_addr j, public G (draw G j))" if "j \<in> set (listed n i)" for j
    using that assms(2) by (simp add: parse_listed [OF assms(1)] listed_set)
  have "List.find (\<lambda>x. isl (parse_peer C x)) (map ?e (listed n i)) = None"
    using p by (auto simp: find_None_iff)
  moreover have "map (projr \<circ> parse_peer C) (map ?e (listed n i)) =
      map (\<lambda>j. (gen_addr j, public G (draw G j))) (listed n i)"
    using p by (simp add: comp_def)
  ultimately show ?thesis
    unfolding get_peers_def insert_peers_eq listed_peers by (simp only: option.case empty_map_add)
qed

lemma mesh_table:
  assumes "n < 256"
  shows "map_of (rev (map (\<lambda>j. (gen_addr j, g j)) (listed n i))) ip = Some k \<longleftrightarrow>
    (\<exists>j. j \<in> {1..n} \<and> j \<noteq> i \<and> ip = gen_addr j \<and> k = g j)" (is "?m ip = Some k \<longleftrightarrow> ?R")
proof
  assume "?m ip = Some k"
  from map_of_SomeD [OF this] show ?R by (auto simp: listed_set)
next
  assume ?R
  then obtain j where j: "j \<in> {1..n}" "j \<noteq> i" "ip = gen_addr j" "k = g j" by blast
  show "?m ip = Some k"
    unfolding j(3,4)
    by (rule map_of_rev_inj) (use j assms in \<open>auto simp: listed_set inj_on_def gen_addr_inject\<close>)
qed

lemma from_file_generated:
  assumes agree: "keys_agree C G" and toml: "toml_reads C (mesh G n)" and fl: "faultless fs" and i: "i \<in> {1..n}"
    and key: "files fs (secret_path i) = Some (key_bytes G (draw G i))"
    and cfg: "files fs (config_path i) = Some (ascii (config_text (mesh G n) (make_node G i)))"
  shows "from_file C fs (config_path i) =
    Some (build_config C (config_fields (mesh G n) (make_node G i)) (draw G i), fs)"
proof -
  let ?t = "config_fields (mesh G n) (make_node G i)"
  have "fs_read fs (config_path i) = Inr (ascii (config_text (mesh G n) (make_node G i)))"
    and rk: "fs_read fs (secret_path i) = Inr (to_bytes C (draw G i))"
    using fl key cfg agree by (auto simp: fs_read_Inr faultless_def keys_agree_def)
  moreover have "from_slice C (ascii (config_text (mesh G n) (make_node G i))) = Inr ?t"
    using toml i by (auto simp: toml_reads_def list_all_iff simp del: upt_Suc)
  moreover have "get_secret_key C fs (secret_path i) = Some (Inr (draw G i), fs)"
    using rk agree by (simp add: get_secret_key_def as_array_32_def keys_agree_def key_codec_def)
  moreover have "toml_secret_key_path ?t = secret_path i" by (simp add: config_fields_def make_node_def)
  ultimately show ?thesis by (simp add: from_file_def)
qed

text \<open>The configuration that node \<open>i\<close> of a generated network ends up with.\<close>

definition mesh_config :: "('sk, 'pk) KeyGen \<Rightarrow> nat \<Rightarrow> nat \<Rightarrow> ('sk, 'pk) Config" where
  "mesh_config G n i =
     \<lparr>cfg_secret_key = draw G i, cfg_node_ipv4 = gen_addr i, cfg_netmask = NETMASK,
      cfg_tun_name = ''tun'' @ dec_string i, cfg_listen_port = 0, cfg_mtu = DEFAULT_MTU,
      cfg_log_level = ''debug'', cfg_log_path = None,
      cfg_peers = map_of (rev (map (\<lambda>j. (gen_addr j, public G (draw G j))) (listed n i)))\<rparr>"

text \<open>A configuration fits its place in the mesh: own key and address, and the other nodes as peers.\<close>

definition mesh_member :: "('sk, 'pk) KeyGen \<Rightarrow> nat \<Rightarrow> nat \<Rightarrow> ('sk, 'pk) Config \<Rightarrow> bool" where
  "mesh_member G n i cfg \<longleftrightarrow>
     cfg_secret_key cfg = draw G i \<and> cfg_node_ipv4 cfg = Ipv4Addr 10 67 1 (word_of_nat i) \<and>
     (\<forall>ip k. cfg_peers cfg ip = Some k \<longleftrightarrow>
        (\<exists>j. j \<in> {1..n} \<and> j \<noteq> i \<and> ip = Ipv4Addr 10 67 1 (word_of_nat j) \<and> k = public G (draw G j)))"

lemma mesh_config_member: "n < 256 \<Longrightarrow> mesh_member G n i (mesh_config G n i)"
  unfolding mesh_member_def mesh_config_def
  by (simp add: mesh_table) (simp add: gen_addr_def)

lemma build_config_mesh:
  assumes "keys_agree C G" and "n < 256" and "i \<in> {1..n}"
  shows "build_config C (config_fields (mesh G n) (make_node G i)) (draw G i) = Inr (mesh_config G n i)"
proof -
  have "get_peers C (config_fields (mesh G n) (make_node G i)) = Inr (cfg_peers (mesh_config G n i))"
    using get_peers_mesh [OF assms(1,2)] by (simp add: mesh_config_def del: upt_Suc)
  moreover have "ipv4_from_str (gen_ip i) = Inr (gen_addr i)" using assms(2,3) by (simp add: parse_gen_ip)
  ultimately show ?thesis
    unfolding build_config_Inr
    by (simp add: LOG_LEVELS_def) (simp add: config_fields_def make_node_def mesh_config_def gen_addr_def)
qed

lemma build_config_mesh_too_big:
  assumes "keys_agree C G" and "255 < n" and "i \<in> {1..n}"
  shows "build_config C (config_fields (mesh G n) (make_node G i)) sk = Inl (Ipv4ParseError AddrParseError)"
proof (cases "get_peers C (config_fields (mesh G n) (make_node G i))")
  case (Inl e)
  let ?e = "\<lambda>j. \<lparr>peer_pub_key = pk_to_string G (public G (draw G j)), peer_ipv4 = gen_ip j\<rparr>"
  have "\<exists>j. e = projl (parse_peer C (?e j)) \<and> isl (parse_peer C (?e j))"
    using Inl unfolding get_peers_def insert_peers_eq listed_peers
    by (auto split: option.splits dest!: find_SomeD)
  then have "e = Ipv4ParseError AddrParseError" by (auto simp: parse_listed [OF assms(1)] split: if_splits)
  with Inl show ?thesis by (simp add: build_config_def)
next
  case (Inr m)
  then have "List.find (\<lambda>p. isl (parse_peer C p)) (toml_peers (config_fields (mesh G n) (make_node G i))) = None"
    unfolding get_peers_def insert_peers_eq by (auto split: option.splits)
  then have "256 \<notin> set (listed n i)"
    unfolding listed_peers by (auto simp: find_None_iff parse_listed [OF assms(1)])
  then have "i = 256" using assms(2) by (auto simp: listed_set)
  then have "ipv4_from_str (toml_node_ipv4 (config_fields (mesh G n) (make_node G i))) = Inl AddrParseError"
    by (simp add: config_fields_def make_node_def parse_gen_ip_too_big)
  with Inr show ?thesis by (simp add: build_config_def)
qed

lemma generated_files_load:
  assumes "keys_agree C G" and "toml_reads C (mesh G n)" and "faultless fs" and "n < 256"
    and "dir_exists \<or> mkdir = None"
  obtains fs' where "gen_configs G dir_exists mkdir fs [prog, dec_string n] = Finished fs'"
    and "\<And>i. i \<in> {1..n} \<Longrightarrow> from_file C fs' (config_path i) = Some (Inr (mesh_config G n i), fs')"
proof -
  have big: "n < 2 ^ 64" using assms(4) by simp
  obtain fs' where fs': "gen_configs G dir_exists mkdir fs [prog, dec_string n] = Finished fs'" "faultless fs'"
    "\<And>i. i \<in> {1..n} \<Longrightarrow> files fs' (secret_path i) = Some (key_bytes G (draw G i))"
    "\<And>i. i \<in> {1..n} \<Longrightarrow> files fs' (config_path i) = Some (ascii (config_text (mesh G n) (make_node G i)))"
    using gen_configs_files [OF assms(3) big assms(5)] by blast
  have "from_file C fs' (config_path i) = Some (Inr (mesh_config G n i), fs')" if "i \<in> {1..n}" for i
    using from_file_generated [OF assms(1,2) fs'(2) that fs'(3) [OF that] fs'(4) [OF that]]
      build_config_mesh [OF assms(1,4) that] by simp
  with fs'(1) that show thesis by blast
qed

section \<open>A concrete network of two nodes\<close>

definition sample_gen :: "(u8, nat) KeyGen" where
  "sample_gen = \<lparr>draw = word_of_nat, public = unat, pk_to_string = dec_string, key_bytes = replicate 32\<rparr>"

definition sample_reader :: "nat \<Rightarrow> (unit, unit, u8, nat) Crates" where
  "sample_reader n = \<lparr>from_slice = (\<lambda>d. case List.find (\<lambda>x. ascii (config_text (mesh sample_gen n) x) = d) (mesh sample_gen n) of
       Some x \<Rightarrow> Inr (config_fields (mesh sample_gen n) x) | None \<Rightarrow> Inl ()),
     pk_from_str = (\<lambda>s. Inr (dec_value s)), generated = 0, to_bytes = replicate 32, from_bytes = hd\<rparr>"

definition empty_fs :: FS where
  "empty_fs = \<lparr>files = Map.empty, read_fault = (\<lambda>_. None), write_fault = (\<lambda>_. None)\<rparr>"

lemma sample_network:
  "keys_agree (sample_reader n) sample_gen" "faultless empty_fs"
  by (simp_all add: keys_agree_def key_codec_def sample_reader_def sample_gen_def faultless_def empty_fs_def)

lemma ascii_inject: "ascii s = ascii t \<longleftrightarrow> s = t"
proof -
  have u: "unat (of_char c :: u8) = of_char c" for c
  proof -
    have "unat (of_nat (of_char c) :: u8) = of_char c"
      unfolding unat_of_nat using nat_of_char_less_256 [of c] by simp
    then show ?thesis by (simp only: of_nat_of_char)
  qed
  have "inj (of_char :: char \<Rightarrow> u8)"
  proof
    fix c d :: char assume "(of_char c :: u8) = of_char d"
    then have "(of_char c :: nat) = of_char d" using u [of c] u [of d] by (simp only:)
    then show "c = d" by simp
  qed
  then show ?thesis unfolding ascii_def by (simp add: inj_map_eq_map)
qed

lemma dec_string_before_dot:
  assumes "dec_string i @ CHR ''.'' # x = dec_string j @ CHR ''.'' # y"
  shows "i = j"
proof -
  have "takeWhile is_digit (dec_string i @ CHR ''.'' # x) = takeWhile is_digit (dec_string j @ CHR ''.'' # y)"
    using assms by simp
  then show ?thesis by (simp add: takeWhile_dec_string)
qed

lemma config_text_inject:
  "config_text nodes (make_node G i) = config_text nodes (make_node G j) \<Longrightarrow> i = j"
  by (rule dec_string_before_dot)
     (auto simp: config_text_def writeln_def quoted_def make_node_def secret_path_def newline_def)

lemma sample_toml_reads: "toml_reads (sample_reader n) (mesh sample_gen n)"
  unfolding toml_reads_def list_all_iff
proof
  let ?ns = "mesh sample_gen n"
  fix x assume x: "x \<in> set ?ns"
  let ?f = "\<lambda>y. ascii (config_text ?ns y) = ascii (config_text ?ns x)"
  have eq: "y = x" if "y \<in> set ?ns" "?f y" for y
    using that x by (auto simp: ascii_inject simp del: upt_Suc dest: config_text_inject)
  have "List.find ?f ?ns \<noteq> None" using x by (auto simp: find_None_iff simp del: upt_Suc)
  then obtain y where "List.find ?f ?ns = Some y" by blast
  with eq find_SomeD [OF this] have "List.find ?f ?ns = Some x" by blast
  then show "from_slice (sample_reader n) (ascii (config_text ?ns x)) = Inr (config_fields ?ns x)"
    by (simp add: sample_reader_def del: upt_Suc)
qed

section \<open>Properties\<close>



text \<open>
  C34. A network of 256 nodes or more does not work: the generator finishes without complaint,
  and no node can load its file, because one of the addresses 10.67.1.i is not an address.
\<close>

theorem oversized_network_rejected:
  assumes "keys_agree C G" and "toml_reads C (mesh G n)" and "faultless fs" and "255 < n" and "n < 2 ^ 64"
    and "dir_exists \<or> mkdir = None"
  shows "\<exists>fs'. gen_configs G dir_exists mkdir fs [prog, dec_string n] = Finished fs' \<and>
    (\<forall>i. 1 \<le> i \<and> i \<le> n \<longrightarrow>
      from_file C fs' (config_path i) = Some (Inl (Ipv4ParseError AddrParseError), fs'))"
proof -
  obtain fs' where fs': "gen_configs G dir_exists mkdir fs [prog, dec_string n] = Finished fs'" "faultless fs'"
    "\<And>i. i \<in> {1..n} \<Longrightarrow> files fs' (secret_path i) = Some (key_bytes G (draw G i))"
    "\<And>i. i \<in> {1..n} \<Longrightarrow> files fs' (config_path i) = Some (ascii (config_text (mesh G n) (make_node G i)))"
    using gen_configs_files [OF assms(3,5,6)] by blast
  have "from_file C fs' (config_path i) = Some (Inl (Ipv4ParseError AddrParseError), fs')" if "i \<in> {1..n}" for i
    using from_file_generated [OF assms(1,2) fs'(2) that fs'(3) [OF that] fs'(4) [OF that]]
      build_config_mesh_too_big [OF assms(1,4) that] by simp
  with fs'(1) show ?thesis by auto
qed

theorem oversized_network_rejected_witness:
  "\<exists>fs'. gen_configs sample_gen False None empty_fs [''gen_configs'', dec_string 256] = Finished fs' \<and>
     from_file (sample_reader 256) fs' (config_path 1) = Some (Inl (Ipv4ParseError AddrParseError), fs')"
  using oversized_network_rejected [OF sample_network(1) sample_toml_reads sample_network(2),
      of 256 False None "''gen_configs''"] by fastforce

end
