(* ===== verification/Main_Program.thy ===== *)
theory Main_Program
  imports Mesh_Process Gen_Configs
begin

text \<open>
  The start-up of the program in \<^verbatim>\<open>src/main.rs\<close>: the configuration is loaded, the core, the
  coordinator, the manager and the virtual interface are built from it and their loops are
  spawned. The endpoint of the iroh crate and the iteration order of the hash containers are
  arguments. The theorems tie the generator, the configuration, the start-up and the running
  node together.
\<close>

section \<open>The logger\<close>

text \<open>
  What \<^verbatim>\<open>init_logger\<close> asks the tracing crates for: a filter, the layer on the console and, when a
  directory is configured, a daily rolling file whose writer lives as long as the returned
  guard; a setting the code leaves to the crate is \<open>None\<close>. The filter comes from the environment when that holds a valid one (\<open>env_ok\<close>).
\<close>

datatype LogFilter = FromEnvironment | Directives string

record LogLayer =
  with_ansi :: bool
  with_target :: "bool option"
  appender :: "(string \<times> string) option"

record Logger =
  env_filter :: LogFilter
  console_layer :: LogLayer
  file_layer :: "LogLayer option"

definition init_logger :: "bool \<Rightarrow> string option \<Rightarrow> string \<Rightarrow> Logger" where
  "init_logger env_ok log_dir app_level =
     (let filter_settings = ''error,mesh_network='' @ app_level
      in \<lparr>env_filter = (if env_ok then FromEnvironment else Directives filter_settings),
          console_layer = \<lparr>with_ansi = True, with_target = Some True, appender = None\<rparr>,
          file_layer = map_option (\<lambda>path. \<lparr>with_ansi = False, with_target = None,
            appender = Some (path, ''iroh-node.log'')\<rparr>) log_dir\<rparr>)"

definition log_guard :: "Logger \<Rightarrow> bool" where
  "log_guard l \<longleftrightarrow> file_layer l \<noteq> None"

section \<open>Start-up\<close>

text \<open>The binding of the endpoint: \<open>bind_addr\<close> rejects a socket address, \<open>bind\<close> gives the
  identity of the endpoint for a secret key; \<open>table_order\<close> and \<open>set_order\<close> are the orders in
  which the containers are iterated; \<open>env_ok\<close> tells whether the environment has a log filter.\<close>

record ('e1, 'e2, 'sk, 'pk) World =
  bind_addr :: "string \<Rightarrow> 'e1 option"
  bind :: "'sk \<Rightarrow> 'e2 + 'pk"
  table_order :: "(Ipv4Addr \<rightharpoonup> 'pk) \<Rightarrow> (Ipv4Addr \<times> 'pk) list"
  set_order :: "'pk set \<Rightarrow> 'pk list"
  env_ok :: bool

datatype ('te, 'ke, 'e1, 'e2, 'pk) startup =
    ConfigRejected "('te, 'ke) ConfigError"
  | IrohFailed "('e1, 'e2) InitError"
  | Started "'pk Node" TunConfig Logger

definition config_path_of :: "string list \<Rightarrow> string" where
  "config_path_of args = (if 1 < length args then args ! 1 else ''config.toml'')"

definition build_node ::
  "('e1, 'e2, 'sk, 'pk::linorder) World \<Rightarrow> ('sk, 'pk) Config \<Rightarrow>
     ('e1, 'e2) InitError + ('pk Node \<times> TunConfig)" where
  "build_node W cfg =
     (let iter = table_order W (cfg_peers cfg) in
      case node_start (bind_addr W) (bind W (cfg_secret_key cfg)) (cfg_node_ipv4 cfg) (cfg_peers cfg) iter
             (set_order W (peer_set iter)) (cfg_listen_port cfg) of
        Inl e \<Rightarrow> Inl e
      | Inr n \<Rightarrow> Inr (n, Tun_new (cfg_tun_name cfg) final_mtu (cfg_node_ipv4 cfg) (cfg_netmask cfg)))"

definition main_program ::
  "('te, 'ke, 'sk, 'pk) Crates \<Rightarrow> ('e1, 'e2, 'sk, 'pk::linorder) World \<Rightarrow> FS \<Rightarrow> string list \<Rightarrow>
     (('te, 'ke, 'e1, 'e2, 'pk) startup \<times> FS) option" where
  "main_program C W fs args =
     (case from_file C fs (config_path_of args) of
        None \<Rightarrow> None
      | Some (Inl e, fs') \<Rightarrow> Some (ConfigRejected e, fs')
      | Some (Inr cfg, fs') \<Rightarrow>
          (case build_node W cfg of
             Inl e \<Rightarrow> Some (IrohFailed e, fs')
           | Inr (n, tun) \<Rightarrow>
               Some (Started n tun (init_logger (env_ok W) (cfg_log_path cfg) (cfg_log_level cfg)), fs')))"

section \<open>What the environment guarantees\<close>

text \<open>A hash container is iterated exactly once over each of its (finitely many) entries.\<close>

definition fair_orders :: "('e1, 'e2, 'sk, 'pk) World \<Rightarrow> bool" where
  "fair_orders W \<longleftrightarrow>
     (\<forall>m. finite (dom m) \<longrightarrow> iterates (table_order W m) m) \<and>
     (\<forall>A. finite A \<longrightarrow> enumerates (set_order W A) A)"

text \<open>The endpoint can be bound, and its identity is the public key of the secret key.\<close>

definition binds_as :: "('sk \<Rightarrow> 'pk) \<Rightarrow> ('e1, 'e2, 'sk, 'pk) World \<Rightarrow> bool" where
  "binds_as pub W \<longleftrightarrow> (\<forall>a. bind_addr W a = None) \<and> (\<forall>sk. bind W sk = Inr (pub sk))"

lemma peer_set_ran: "iterates iter table \<Longrightarrow> peer_set iter = ran table"
  by (simp add: peer_set_eq iterates_values)

lemma peer_set_finite: "finite (peer_set iter)"
  by (simp add: peer_set_eq)

lemma get_peers_finite: "get_peers C t = Inr m \<Longrightarrow> finite (dom m)"
  unfolding get_peers_def insert_peers_eq by (auto simp: finite_dom_map_of split: option.splits)

lemma Iroh_new_errors:
  assumes "Iroh_new ba bound A iter port = Inr s"
  shows "Iroh_new (\<lambda>a. map_option (\<lambda>_. ()) (ba a)) (map_sum (\<lambda>_. ()) id bound) A iter port = Inr s"
  using assms by (auto simp: Iroh_new_def Let_def split: option.splits sum.splits)

lemma node_start_initial:
  assumes "iterates iter table" and "enumerates keys (peer_set iter)"
    and "node_start ba bound addr table iter keys port = Inr n"
  shows "node_initial n"
proof -
  obtain s where s: "Iroh_new ba bound (peer_set iter) keys port = Inr s"
    using assms(3) by (auto simp: node_start_def Let_def split: sum.splits)
  have "node_start (\<lambda>a. map_option (\<lambda>_. ()) (ba a)) (map_sum (\<lambda>_. ()) id bound) addr table iter keys port = Inr n"
    using assms(3) by (simp add: node_start_def Let_def s Iroh_new_errors [OF s])
  with assms(1,2) show ?thesis unfolding node_initial_def by blast
qed

text \<open>What a started node looks like.\<close>

lemma build_node_Started:
  fixes W :: "('e1, 'e2, 'sk, 'pk::linorder) World"
  assumes W: "fair_orders W" and fin: "finite (dom (cfg_peers cfg))" and st: "build_node W cfg = Inr (n, tun)"
  shows "node_initial n" and "whitelist (mgr n) = ran (cfg_peers cfg)"
    and "core (coord n) = VpnCore_new (cfg_node_ipv4 cfg) (cfg_peers cfg) (table_order W (cfg_peers cfg)) 1100"
    and "tun = Tun_new (cfg_tun_name cfg) 1100 (cfg_node_ipv4 cfg) (cfg_netmask cfg)"
    and "bind W (cfg_secret_key cfg) = Inr (endpoint_id (mgr n))"
    and "dial_tasks (mgr n) = {k \<in> ran (cfg_peers cfg). \<not> endpoint_id (mgr n) < k}"
proof -
  let ?it = "table_order W (cfg_peers cfg)"
  let ?ks = "set_order W (peer_set ?it)"
  have it: "iterates ?it (cfg_peers cfg)" and en: "enumerates ?ks (peer_set ?it)"
    using W fin by (simp_all add: fair_orders_def peer_set_finite)
  have ns: "node_start (bind_addr W) (bind W (cfg_secret_key cfg)) (cfg_node_ipv4 cfg) (cfg_peers cfg) ?it ?ks
      (cfg_listen_port cfg) = Inr n" and tun: "tun = Tun_new (cfg_tun_name cfg) final_mtu (cfg_node_ipv4 cfg) (cfg_netmask cfg)"
    using st by (auto simp: build_node_def Let_def split: sum.splits)
  obtain s where s: "Iroh_new (bind_addr W) (bind W (cfg_secret_key cfg)) (peer_set ?it) ?ks (cfg_listen_port cfg) = Inr s"
    and n: "mgr n = init ?ks s" "core (coord n) = VpnCore_new (cfg_node_ipv4 cfg) (cfg_peers cfg) ?it (unat final_mtu)"
    using ns by (auto simp: node_start_def Let_def Coordinator_new_def split: sum.splits)
  note st = Iroh_new_state [OF s en]
  have ran: "set ?ks = ran (cfg_peers cfg)" using en it by (simp add: enumerates_def peer_set_ran)
  show "node_initial n" by (rule node_start_initial [OF it en ns])
  show "whitelist (mgr n) = ran (cfg_peers cfg)" using n st(2) it by (simp add: peer_set_ran)
  show "core (coord n) = VpnCore_new (cfg_node_ipv4 cfg) (cfg_peers cfg) ?it 1100"
    using n(2) by (simp add: final_mtu_def)
  show "tun = Tun_new (cfg_tun_name cfg) 1100 (cfg_node_ipv4 cfg) (cfg_netmask cfg)" using tun by (simp add: final_mtu_def)
  show "bind W (cfg_secret_key cfg) = Inr (endpoint_id (mgr n))" using n st(1) by simp
  show "dial_tasks (mgr n) = {k \<in> ran (cfg_peers cfg). \<not> endpoint_id (mgr n) < k}"
    using n dial_tasks_init [OF st(6), of ?ks] by (simp add: ran)
qed

lemma build_node_starts:
  assumes "binds_as pub W"
  shows "\<exists>n tun. build_node W cfg = Inr (n, tun)"
  using assms by (auto simp: build_node_def node_start_def Iroh_new_def binds_as_def Let_def)

lemma mesh_config_peers:
  assumes "n < 256"
  shows "finite (dom (cfg_peers (mesh_config G n i)))"
    and "j \<in> {1..n} \<Longrightarrow> j \<noteq> i \<Longrightarrow> cfg_peers (mesh_config G n i) (gen_addr j) = Some (public G (draw G j))"
    and "j \<in> {1..n} \<Longrightarrow> j \<noteq> i \<Longrightarrow> public G (draw G j) \<in> ran (cfg_peers (mesh_config G n i))"
proof -
  show *: "cfg_peers (mesh_config G n i) (gen_addr j) = Some (public G (draw G j))" if "j \<in> {1..n}" "j \<noteq> i" for j
    using that assms by (auto simp: mesh_config_def mesh_table)
  show "public G (draw G j) \<in> ran (cfg_peers (mesh_config G n i))" if "j \<in> {1..n}" "j \<noteq> i" for j
    using * [OF that] by (rule ranI)
  show "finite (dom (cfg_peers (mesh_config G n i)))" by (simp add: mesh_config_def finite_dom_map_of)
qed

section \<open>A concrete world\<close>

definition sample_world :: "(unit, unit, u8, nat) World" where
  "sample_world = \<lparr>bind_addr = (\<lambda>_. None), bind = (\<lambda>k. Inr (unat k)),
     table_order = (\<lambda>m. map (\<lambda>ip. (ip, the (m ip))) (sorted_list_of_set (dom m))),
     set_order = sorted_list_of_set, env_ok = False\<rparr>"

lemma sample_world_fair: "fair_orders sample_world"
proof -
  have "iterates (map (\<lambda>ip. (ip, the (m ip))) (sorted_list_of_set (dom m))) m"
    if "finite (dom m)" for m :: "Ipv4Addr \<rightharpoonup> nat"
  proof -
    let ?xs = "map (\<lambda>ip. (ip, the (m ip))) (sorted_list_of_set (dom m))"
    have d: "distinct (map fst ?xs)" by (simp add: comp_def)
    have "map_of ?xs ip = m ip" for ip
    proof (cases "m ip")
      case None
      then have "ip \<notin> fst ` set ?xs" using that by auto
      with None show ?thesis by (simp add: map_of_eq_None_iff del: set_map)
    next
      case (Some k)
      then have "(ip, k) \<in> set ?xs" using that by (auto simp: image_iff intro!: bexI [of _ ip])
      with Some d show ?thesis by simp
    qed
    with d show ?thesis by (auto simp: iterates_def)
  qed
  then show ?thesis by (simp add: fair_orders_def sample_world_def enumerates_def)
qed

lemma sample_world_binds: "binds_as (public sample_gen) sample_world"
  by (simp add: binds_as_def sample_world_def sample_gen_def)

end
