(* ===== verification/Mesh_Deployment.thy ===== *)
theory Mesh_Deployment
  imports Mesh_Traffic Gen_Configs Main_Program
begin

text \<open>
  A deployed network: the generator writes the files, every node starts from its own file, and
  the processes form a mesh that carries the packets of the hosts.
\<close>

section \<open>Starting from the generated files\<close>

text \<open>The nodes that the program starts from the files of a generated network.\<close>

definition deployed :: "('sk, 'pk::linorder) KeyGen \<Rightarrow> nat \<Rightarrow> (nat \<Rightarrow> 'pk Node) \<Rightarrow> bool" where
  "deployed G n a \<longleftrightarrow> (\<forall>i. node_initial (a i) \<and> endpoint_id (mgr (a i)) = public G (draw G i) \<and>
     whitelist (mgr (a i)) = ran (cfg_peers (mesh_config G n i)) \<and> max_packet_size (core (coord (a i))) = 1100 \<and>
     ipv4_addr (core (coord (a i))) = gen_addr i \<and> route_table (core (coord (a i))) = cfg_peers (mesh_config G n i))"

lemma generated_nodes_start:
  assumes "keys_agree C G" and "toml_reads C (mesh G n)" and "faultless fs" and "n < 256"
    and "dir_exists \<or> mkdir = None" and "fair_orders W" and "binds_as (public G) W"
  obtains fs' a where "gen_configs G dir_exists mkdir fs [prog, dec_string n] = Finished fs'" "deployed G n a"
    "\<forall>i \<in> {1..n}. \<exists>t l. main_program C W fs' [exe, config_path i] = Some (Started (a i) t l, fs')"
proof -
  let ?c = "mesh_config G n"
  obtain fs' where fs': "gen_configs G dir_exists mkdir fs [prog, dec_string n] = Finished fs'"
    "\<And>i. i \<in> {1..n} \<Longrightarrow> from_file C fs' (config_path i) = Some (Inr (?c i), fs')"
    using generated_files_load [OF assms(1-5)] by blast
  define a ta where "a i = fst (projr (build_node W (?c i)))" and "ta i = snd (projr (build_node W (?c i)))" for i
  have st: "build_node W (?c i) = Inr (a i, ta i)" for i
    using build_node_starts [OF assms(7), of "?c i"] by (auto simp: a_def ta_def)
  note b = build_node_Started [OF assms(6) mesh_config_peers(1) [OF assms(4), where G = G] st]
  have "endpoint_id (mgr (a i)) = public G (draw G i)" for i
    using b(5) [of i] assms(7) by (simp add: binds_as_def mesh_config_def)
  then have "deployed G n a" using b(1-3) by (simp add: deployed_def VpnCore_new_def) (simp add: mesh_config_def)
  moreover have "\<forall>i \<in> {1..n}. \<exists>t l. main_program C W fs' [exe, config_path i] = Some (Started (a i) t l, fs')"
    using fs'(2) st by (simp add: main_program_def config_path_of_def)
  ultimately show thesis using that [OF fs'(1)] by blast
qed

section \<open>Packets between the hosts\<close>

text \<open>A packet that the host of one node sends to the host of another: a complete IPv4 packet of at
  most 1100 bytes with time to live, from the address of the one to the address of the other.\<close>

definition host_packet :: "nat \<Rightarrow> nat \<Rightarrow> bytes \<Rightarrow> bool" where
  "host_packet i j p \<longleftrightarrow> well_formed 1100 p \<and> p ! 8 \<noteq> 0 \<and> header_src p = gen_addr i \<and> header_dst p = gen_addr j"

lemma sample_host_packet: "host_packet 1 2 (sample_packet b)"
  by (simp add: host_packet_def well_formed_def sample_packet_def gen_addr_def header_version_def ipv4_header_length
      ipv4_header_fields)

lemma deployed_mutual:
  assumes "deployed G n a" and "n < 256" and "inj_on (\<lambda>i. public G (draw G i)) {1..n}"
  shows "mutual (\<lambda>i. spawn_loops (a i) :: (_, 'te) Process) {1..n}"
  using assms mesh_config_peers(3) [OF assms(2), where G = G]
  by (auto simp: mutual_def deployed_def spawn_loops_def)

lemma deployed_routes:
  assumes "deployed G n a" and "n < 256" and "j \<in> {1..n}" and "i \<noteq> j"
  shows "route_table (core (coord (a i))) (gen_addr j) = Some (endpoint_id (mgr (a j)))"
  using assms mesh_config_peers(2) [OF assms(2,3), of i, where G = G] by (simp add: deployed_def)

lemma deployed_delivers:
  assumes d: "deployed G n a" and "n < 256"
    and ms: "\<forall>(i, j, p) \<in> set ms. i \<in> {1..n} \<and> j \<in> {1..n} \<and> i \<noteq> j \<and> host_packet i j p"
  shows "traffic_ok (\<lambda>i. spawn_loops (a i) :: (_, 'te) Process) {1..n} ms"
proof -
  have "deliverable (\<lambda>i. spawn_loops (a i) :: (_, 'te) Process) i j p"
    if "i \<in> {1..n}" "j \<in> {1..n}" "i \<noteq> j" "host_packet i j p" for i j p
    using that d deployed_routes [OF d assms(2) that(2,3)] deployed_routes [OF d assms(2) that(1), of j]
    by (auto simp: deliverable_def egress_ok_def ingress_ok_def host_packet_def deployed_def spawn_loops_def)
  with ms show ?thesis unfolding traffic_ok_def by blast
qed

end
