(* ===== verification/Custom_Transport.thy ===== *)
theory Custom_Transport
  imports Prelude
begin

text \<open>
  The congestion controller of \<^verbatim>\<open>src/custom_transport.rs\<close>, which the endpoint installs in its
  QUIC transport: a fixed window that ignores losses, so that the virtual network never
  throttles the tunnelled traffic itself. Time stamps are not used by the code and are left
  out of the events; \<^verbatim>\<open>clone_box\<close> and \<^verbatim>\<open>into_any\<close> return the same controller.
\<close>

record CustomController =
  ctrl_mtu :: u16

text \<open>The calls that the transport makes, in any order, on a live controller.\<close>

datatype controller_event =
    CongestionEvent (persistent: bool) (ecn: bool) (lost_bytes: u64)
  | MtuUpdate u16
  | CloneBox

definition on_congestion_event :: "bool \<Rightarrow> bool \<Rightarrow> u64 \<Rightarrow> CustomController \<Rightarrow> CustomController" where
  "on_congestion_event is_persistent_congestion is_ecn lost c = c"

definition on_mtu_update :: "u16 \<Rightarrow> CustomController \<Rightarrow> CustomController" where
  "on_mtu_update new_mtu c = c\<lparr>ctrl_mtu := new_mtu\<rparr>"

definition window :: "CustomController \<Rightarrow> u64" where
  "window c = 1000000000"

definition initial_window :: "CustomController \<Rightarrow> u64" where
  "initial_window c = 1000000000"

definition clone_box :: "CustomController \<Rightarrow> CustomController" where
  "clone_box c = c"

definition into_any :: "CustomController \<Rightarrow> CustomController" where
  "into_any c = c"

definition factory_build :: "u16 \<Rightarrow> CustomController" where
  "factory_build current_mtu = \<lparr>ctrl_mtu = 1200\<rparr>"

fun controller_step :: "controller_event \<Rightarrow> CustomController \<Rightarrow> CustomController" where
  "controller_step (CongestionEvent p e l) c = on_congestion_event p e l c"
| "controller_step (MtuUpdate m) c = on_mtu_update m c"
| "controller_step CloneBox c = clone_box c"

fun mtu_of :: "controller_event \<Rightarrow> u16 option" where
  "mtu_of (MtuUpdate m) = Some m"
| "mtu_of _ = None"

lemma fold_controller_mtu:
  "ctrl_mtu (fold controller_step evs c) = last (ctrl_mtu c # List.map_filter mtu_of evs)"
proof (induction evs arbitrary: c)
  case Nil
  then show ?case by (simp add: map_filter_simps)
next
  case (Cons ev evs)
  then show ?case
    by (cases ev)
       (auto simp: map_filter_simps on_congestion_event_def on_mtu_update_def clone_box_def)
qed

text \<open>
  The send window never shrinks: after any sequence of losses, MTU updates and clones the
  controller allows the same 10^9 bytes in flight as at the start (the value fits the 64 bits
  of the interface), and its MTU is the last one reported, or 1200, whatever MTU the factory
  was given.
\<close>

theorem window_never_shrinks:
  "window (fold controller_step evs (factory_build m)) = initial_window (factory_build m) \<and>
   unat (window (fold controller_step evs (factory_build m))) = 10 ^ 9 \<and>
   ctrl_mtu (fold controller_step evs (factory_build m)) = last (1200 # List.map_filter mtu_of evs)"
  by (simp add: window_def initial_window_def fold_controller_mtu factory_build_def)

end
