(* ===== verification/Unit_Tests.thy ===== *)
theory Unit_Tests
  imports Gen_Configs Tun_Device
begin

text \<open>
  The unit tests of the sources, run on the model. A test is an executable definition that is true
  when no assertion of it fails and nothing panics; the file system, the drawn keys and the
  crates are its arguments. The tests of \<^verbatim>\<open>src/config.rs\<close> and \<^verbatim>\<open>src/tun.rs\<close>; the one of
  \<^verbatim>\<open>src/iroh.rs\<close> is in \<open>Mesh_Test\<close>.
\<close>

section \<open>Tests of the configuration\<close>

text \<open>The texts of the tests: raw strings indented by twelve blanks.\<close>

definition line :: "string \<Rightarrow> string" where
  "line s = newline @ replicate 12 (CHR 0x20) @ s"

definition text_end :: string where
  "text_end = newline @ replicate 8 (CHR 0x20)"

definition full_text :: "string \<Rightarrow> string \<Rightarrow> string" where
  "full_text key_path pub_key =
     line (''secret_key_path = '' @ quoted key_path) @ line (''node_ipv4 = '' @ quoted ''10.67.1.5'') @
     line ''listen_port = 8080'' @ line ''mtu = 1400'' @ line (''log_level = '' @ quoted ''debug'') @
     line (''log_path = '' @ quoted ''/var/log/vpn.log'') @ newline @ line ''[[peers]]'' @
     line (''pub_key = '' @ quoted pub_key) @ line (''ipv4 = '' @ quoted ''10.67.2.10'') @ text_end"

definition short_text :: "string \<Rightarrow> string \<Rightarrow> string" where
  "short_text key_path ip =
     line (''secret_key_path = '' @ quoted key_path) @ line (''node_ipv4 = '' @ quoted ip) @ line ''peers = []'' @ text_end"

text \<open>What the TOML parser is documented to make of them.\<close>

definition full_fields :: "string \<Rightarrow> string \<Rightarrow> ConfigToml" where
  "full_fields key_path pub_key =
     \<lparr>toml_secret_key_path = key_path, toml_node_ipv4 = ''10.67.1.5'', toml_tun_name = None,
      toml_listen_port = Some 8080, toml_mtu = Some 1400, toml_log_level = Some ''debug'',
      toml_log_path = Some ''/var/log/vpn.log'',
      toml_peers = [\<lparr>peer_pub_key = pub_key, peer_ipv4 = ''10.67.2.10''\<rparr>]\<rparr>"

definition short_fields :: "string \<Rightarrow> string \<Rightarrow> ConfigToml" where
  "short_fields key_path ip =
     \<lparr>toml_secret_key_path = key_path, toml_node_ipv4 = ip, toml_tun_name = None, toml_listen_port = None,
      toml_mtu = None, toml_log_level = None, toml_log_path = None, toml_peers = []\<rparr>"

definition toml_reads_tests :: "('te, 'ke, 'sk, 'pk) Crates \<Rightarrow> string \<Rightarrow> string \<Rightarrow> bool" where
  "toml_reads_tests C dir pub_key \<longleftrightarrow>
     from_slice C (ascii (full_text (dir @ ''/tmp_secret.key'') pub_key)) = Inr (full_fields (dir @ ''/tmp_secret.key'') pub_key) \<and>
     list_all (\<lambda>(path, ip). from_slice C (ascii (short_text path ip)) = Inr (short_fields path ip))
       [(dir @ ''/tmp_secret.key'', ''10.67.255.254''), (dir @ ''/broken.key'', ''10.67.1.1''),
        (''/tmp/dummy.key'', ''192.168.1.1'')]"

definition create_config_file :: "FS \<Rightarrow> string \<Rightarrow> string \<Rightarrow> ErrorKind + (string \<times> FS)" where
  "create_config_file fs dir content =
     (let file_path = dir @ ''/config.toml''
      in map_sum id (Pair file_path) (fs_write fs file_path (ascii content)))"

text \<open>\<open>show_key\<close> is \<^verbatim>\<open>to_string\<close> of a public key, \<open>pub_key\<close> the text of the key drawn for the peer.\<close>

definition test_valid_full_config ::
  "('te, 'ke, 'sk, 'pk) Crates \<Rightarrow> ('pk \<Rightarrow> string) \<Rightarrow> string \<Rightarrow> FS \<Rightarrow> string \<Rightarrow> bool" where
  "test_valid_full_config C show_key pub_key fs dir =
     (let secret_key_path = dir @ ''/tmp_secret.key'' in
      case create_config_file fs dir (full_text secret_key_path pub_key) of
        Inl e \<Rightarrow> False
      | Inr (path, fs1) \<Rightarrow>
          (case from_file C fs1 path of
             Some (Inr config, fs2) \<Rightarrow>
               files fs2 secret_key_path \<noteq> None \<and>
               (case fs_read fs2 secret_key_path of Inl e \<Rightarrow> False | Inr saved_key_bytes \<Rightarrow> length saved_key_bytes = 32) \<and>
               cfg_node_ipv4 config = Ipv4Addr 10 67 1 5 \<and> cfg_listen_port config = 8080 \<and> cfg_mtu config = 1400 \<and>
               cfg_log_level config = ''debug'' \<and> cfg_log_path config = Some ''/var/log/vpn.log'' \<and>
               (case cfg_peers config (Ipv4Addr 10 67 2 10) of None \<Rightarrow> False | Some k \<Rightarrow> show_key k = pub_key)
           | _ \<Rightarrow> False))"

definition test_valid_minimal_config_and_existing_raw_secret_key ::
  "('te, 'ke, 'sk, 'pk) Crates \<Rightarrow> 'sk \<Rightarrow> FS \<Rightarrow> string \<Rightarrow> bool" where
  "test_valid_minimal_config_and_existing_raw_secret_key C existing_sk fs dir =
     (let secret_key_path = dir @ ''/tmp_secret.key'' in
      case fs_write fs secret_key_path (to_bytes C existing_sk) of
        Inl e \<Rightarrow> False
      | Inr fs0 \<Rightarrow>
          (case create_config_file fs0 dir (short_text secret_key_path ''10.67.255.254'') of
             Inl e \<Rightarrow> False
           | Inr (path, fs1) \<Rightarrow>
               (case from_file C fs1 path of
                  Some (Inr config, fs2) \<Rightarrow>
                    cfg_listen_port config = DEFAULT_LISTEN_PORT \<and> cfg_mtu config = DEFAULT_MTU \<and>
                    cfg_log_level config = ''info'' \<and> cfg_log_path config = None \<and>
                    to_bytes C (cfg_secret_key config) = to_bytes C existing_sk
                | _ \<Rightarrow> False)))"

definition test_invalid_secret_key_length :: "('te, 'ke, 'sk, 'pk) Crates \<Rightarrow> FS \<Rightarrow> string \<Rightarrow> bool" where
  "test_invalid_secret_key_length C fs dir =
     (let secret_key_path = dir @ ''/broken.key'' in
      case fs_write fs secret_key_path (ascii ''1234567890'') of
        Inl e \<Rightarrow> False
      | Inr fs0 \<Rightarrow>
          (case create_config_file fs0 dir (short_text secret_key_path ''10.67.1.1'') of
             Inl e \<Rightarrow> False
           | Inr (path, fs1) \<Rightarrow>
               (case from_file C fs1 path of Some (Inl (SecretKeyError IncorrectKey), _) \<Rightarrow> True | _ \<Rightarrow> False)))"

definition test_ipv4_not_in_subnet :: "('te, 'ke, 'sk, 'pk) Crates \<Rightarrow> FS \<Rightarrow> string \<Rightarrow> bool" where
  "test_ipv4_not_in_subnet C fs dir =
     (case create_config_file fs dir (short_text ''/tmp/dummy.key'' ''192.168.1.1'') of
        Inl e \<Rightarrow> False
      | Inr (path, fs1) \<Rightarrow>
          (case from_file C fs1 path of Some (Inl Ipv4NotInSubnet, _) \<Rightarrow> True | _ \<Rightarrow> False))"

section \<open>Tests of the virtual interface\<close>

definition test_classify_tun_error :: bool where
  "test_classify_tun_error \<longleftrightarrow>
     (classify_tun_error WouldBlock :: unit TunEvent) = DropPacket \<and>
     (classify_tun_error BrokenPipe :: unit TunEvent) = ReconnectRequired \<and>
     (classify_tun_error PermissionDenied :: unit TunEvent) = FatalError"

definition fake_ipv4_packet :: bytes where
  "fake_ipv4_packet = [0x45, 0x00, 0x00, 0x14, 0x00, 0x00, 0x40, 0x00, 0x40, 0x01, 0x00, 0x00,
     0x0A, 0xC8, 0xC8, 0x02, 0x0A, 0xC8, 0xC8, 0x01]"

text \<open>What \<^verbatim>\<open>test_tun_lifecycle_and_channels\<close> provokes: the device comes up during the first sleep,
  the packet is sent and written during the second, then the sender is dropped.\<close>

definition test_tun_lifecycle :: "tun_label list" where
  "test_tun_lifecycle = [CreateOk, CoordPuts fake_ipv4_packet, WriterStep (RecvPacket fake_ipv4_packet None),
     WriterStep RecvClosed, SelectWriter, ReaderStep StopReader, JoinReader]"

text \<open>What \<^verbatim>\<open>test_tun_read_actual_bytes_from_os\<close> provokes: the device comes up and the reader hands over
  the packets of the operating system, among them the one of \<^verbatim>\<open>ping\<close>. The loop of the test looks
  for that packet; indexing past the end would panic.\<close>

definition test_tun_read :: "bytes list \<Rightarrow> tun_label list" where
  "test_tun_read os = CreateOk # map (\<lambda>p. ReaderStep (DeviceRead (Inr p) Sent)) os"

fun icmp_scan :: "bytes list \<Rightarrow> bool" where
  "icmp_scan [] = False"
| "icmp_scan (packet # packets) =
     (packet \<noteq> [] \<and>
      (let version = drop_bit 4 (packet ! 0) in
       if version \<noteq> 4 then icmp_scan packets
       else 9 < length packet \<and>
         (let protocol = packet ! 9 in
          if protocol = 1
          then 19 < length packet \<and> packet ! 16 = 10 \<and> packet ! 17 = 201 \<and> packet ! 18 = 201 \<and> packet ! 19 = 67
          else icmp_scan packets)))"

section \<open>Running the tests\<close>

lemma test_addresses:
  "ipv4_from_str ''10.67.1.5'' = Inr (Ipv4Addr 10 67 1 5)" "ipv4_from_str ''10.67.2.10'' = Inr (Ipv4Addr 10 67 2 10)"
  "ipv4_from_str ''10.67.255.254'' = Inr (Ipv4Addr 10 67 255 254)" "ipv4_from_str ''10.67.1.1'' = Inr (Ipv4Addr 10 67 1 1)"
  "ipv4_from_str ''192.168.1.1'' = Inr (Ipv4Addr 192 168 1 1)"
  by code_simp+

lemma config_path_differs: "dir @ ''/config.toml'' \<noteq> ''/tmp/dummy.key''"
  by (auto dest: arg_cong [of _ _ last])

lemma create_config_file_ok:
  "faultless fs \<Longrightarrow> create_config_file fs dir content =
     Inr (dir @ ''/config.toml'', fs\<lparr>files := (files fs)(dir @ ''/config.toml'' \<mapsto> ascii content)\<rparr>)"
  by (simp add: create_config_file_def fs_write_faultless Let_def)

lemma fs_read_faultless:
  "faultless fs \<Longrightarrow> fs_read fs p = (case files fs p of None \<Rightarrow> Inl NotFound | Some d \<Rightarrow> Inr d)"
  by (simp add: fs_read_def faultless_def)

lemmas config_test_simps = create_config_file_ok fs_read_faultless fs_write_faultless from_file_def get_secret_key_def
  gen_secret_key_def as_array_32_def build_config_def get_peers_def test_addresses LOG_LEVELS_def NETMASK_def SUBNET_def

lemma full_config_passes:
  assumes "key_codec C" and "toml_reads_tests C dir pub_key" and "pk_from_str C pub_key = Inr k" and "show_key k = pub_key"
    and "faultless fs" and "files fs (dir @ ''/tmp_secret.key'') = None"
  shows "test_valid_full_config C show_key pub_key fs dir"
  using assms
  by (simp add: test_valid_full_config_def config_test_simps toml_reads_tests_def full_fields_def key_codec_def)

lemma minimal_config_passes:
  assumes "key_codec C" and "toml_reads_tests C dir pub_key" and "faultless fs"
  shows "test_valid_minimal_config_and_existing_raw_secret_key C existing_sk fs dir"
  using assms
  by (simp add: test_valid_minimal_config_and_existing_raw_secret_key_def config_test_simps toml_reads_tests_def
      short_fields_def key_codec_def and_255)

lemma key_length_passes:
  assumes "toml_reads_tests C dir pub_key" and "faultless fs"
  shows "test_invalid_secret_key_length C fs dir"
  using assms
  by (simp add: test_invalid_secret_key_length_def config_test_simps toml_reads_tests_def short_fields_def ascii_def)

text \<open>The last test names a key file outside of its own directory, and the key is read before the
  address is checked: its outcome depends on that file.\<close>

lemma subnet_test_iff:
  assumes "key_codec C" and "toml_reads_tests C dir pub_key" and "faultless fs"
  shows "test_ipv4_not_in_subnet C fs dir \<longleftrightarrow>
    (case files fs ''/tmp/dummy.key'' of None \<Rightarrow> True | Some d \<Rightarrow> length d = 32)"
  using assms not_sym [OF config_path_differs [of dir]]
  by (auto simp: test_ipv4_not_in_subnet_def config_test_simps toml_reads_tests_def short_fields_def
      split: option.splits)

lemma tun_lifecycle_passes:
  "\<exists>t :: unit TunRun. schedule tun_step Tun_start test_tun_lifecycle t \<and> phase t = Returned \<and>
     written t = [fake_ipv4_packet] \<and> holder t = Supervisor"
proof -
  let ?p = fake_ipv4_packet
  define t0 t1 t2 t3 t4 t5 t6 t7 :: "unit TunRun" where "t0 = Tun_start" and "t1 = create_ok t0"
    and "t2 = t1\<lparr>rx := rx t1 @ [?p], put := put t1 @ [?p]\<rparr>"
    and "t3 = writer_works (RecvPacket ?p None) (take_rx t2)" and "t4 = writer_works RecvClosed t3"
    and "t5 = writer_ended (writer_end t4) t4" and "t6 = reader_works StopReader t5"
    and "t7 = reader_joined (reader_end t6) t6"
  note ev = t0_def t1_def t2_def t3_def t4_def t5_def t6_def t7_def Tun_start_def create_ok_def writer_works_def
    reader_works_def take_rx_def worker_of_def workers_live_def
  note step = path_step [where step = tun_step]
  have s1: "tun_step t0 CreateOk t1" unfolding t1_def by (rule create_succ) (simp add: ev)
  have s2: "tun_step t1 (CoordPuts ?p) t2" unfolding t2_def by (rule coord_puts)
  have s3: "tun_step t2 (WriterStep (RecvPacket ?p None)) t3"
    unfolding t3_def by (rule writer_recv [where q = "[]"]) (simp_all add: ev)
  have s4: "tun_step t3 (WriterStep RecvClosed) t4" unfolding t4_def by (rule writer_closed) (simp_all add: ev)
  have s5: "tun_step t4 SelectWriter t5" unfolding t5_def by (rule select_writer) (simp_all add: ev)
  have s6: "tun_step t5 (ReaderStep StopReader) t6" unfolding t6_def by (rule reader_stop) (simp_all add: ev)
  have s7: "tun_step t6 JoinReader t7" unfolding t7_def by (rule join_reader) (simp_all add: ev)
  have "schedule tun_step t0 test_tun_lifecycle t7"
    unfolding test_tun_lifecycle_def
    by (rule step [OF s1 step [OF s2 step [OF s3 step [OF s4 step [OF s5 step [OF s6 step [OF s7 path_end]]]]]]])
  moreover have "phase t7 = Returned \<and> written t7 = [?p] \<and> holder t7 = Supervisor" by (simp add: ev)
  ultimately show ?thesis unfolding t0_def by blast
qed

text \<open>The reader passes on what the system sends, so the outcome of the last test depends on the
  packets of the system only.\<close>

lemma reader_hands_over:
  assumes "workers_live t" and "reader_end t = Alive" and "length (buf t) = READ_BUFFER"
    and "\<forall>p \<in> set os. p \<noteq> [] \<and> length p \<le> READ_BUFFER"
  shows "\<exists>t'. schedule tun_step t (map (\<lambda>p. ReaderStep (DeviceRead (Inr p) Sent)) os) t' \<and> read_out t' = read_out t @ os"
  using assms
proof (induction os arbitrary: t)
  case Nil
  then show ?case by (intro exI [of _ t]) (simp add: path_end)
next
  case (Cons p os)
  let ?i = "DeviceRead (Inr p) Sent"
  let ?t = "reader_works ?i t"
  obtain b where b: "length b = READ_BUFFER" "tun_reader_pass (buf t) ?i = (b, [p], None :: 'a TunEvent option)"
    using reader_pass_correct [OF Cons.prems(3), of ?i, where 'te = 'a] Cons.prems(4) by auto
  have t: "read_out ?t = read_out t @ [p]" "workers_live ?t" "reader_end ?t = Alive" "length (buf ?t) = READ_BUFFER"
    using b Cons.prems(1) by (simp_all add: reader_works_def worker_of_def workers_live_def)
  have st: "tun_step t (ReaderStep ?i) ?t" using Cons.prems(1,2) by (intro reader_read)
  from Cons.IH [OF t(2-4)] Cons.prems(4) obtain t'
    where "schedule tun_step ?t (map (\<lambda>p. ReaderStep (DeviceRead (Inr p) Sent)) os) t'" "read_out t' = read_out ?t @ os" by auto
  with path_step [where step = tun_step, OF st] t(1) show ?case by (intro exI [of _ t']) simp
qed

lemma tun_read_hands_over:
  assumes "\<forall>p \<in> set os. p \<noteq> [] \<and> length p \<le> READ_BUFFER"
  shows "\<exists>t :: 'te TunRun. schedule tun_step Tun_start (test_tun_read os) t \<and> read_out t = os"
proof -
  let ?t = "create_ok Tun_start :: 'te TunRun"
  have s1: "tun_step Tun_start CreateOk ?t" by (rule create_succ) (simp add: Tun_start_def)
  have "workers_live ?t" "reader_end ?t = Alive" "length (buf ?t) = READ_BUFFER" "read_out ?t = []"
    by (simp_all add: workers_live_def create_ok_def Tun_start_def)
  with reader_hands_over [of ?t os] assms obtain t
    where "schedule tun_step ?t (map (\<lambda>p. ReaderStep (DeviceRead (Inr p) Sent)) os) t" "read_out t = os" by auto
  with path_step [where step = tun_step, OF s1] show ?thesis by (intro exI [of _ t]) (simp add: test_tun_read_def)
qed

text \<open>The packet of \<^verbatim>\<open>ping\<close> is found behind any packets that are not IPv4, or IPv4 but not ICMP.\<close>

lemma icmp_scan_finds:
  assumes "\<forall>p \<in> set ps. p \<noteq> [] \<and> (drop_bit 4 (p ! 0) = 4 \<longrightarrow> 20 \<le> length p \<and> p ! 9 \<noteq> 1)"
    and "drop_bit 4 (q ! 0) = 4" and "20 \<le> length q" and "q ! 9 = 1" and "take 4 (drop 16 q) = [10, 201, 201, 67]"
  shows "icmp_scan (ps @ q # rest)"
proof -
  have "q ! (16 + k) = take 4 (drop 16 q) ! k" if "k < 4" for k using that assms(3) by simp
  from this [of 0] this [of 1] this [of 2] this [of 3]
  have q: "q ! 16 = 10" "q ! 17 = 201" "q ! 18 = 201" "q ! 19 = 67" unfolding assms(5) by simp_all
  show ?thesis using assms(1)
  proof (induction ps)
    case Nil
    have "q \<noteq> []" using assms(3) by auto
    with assms(2-4) q show ?case by simp
  next
    case (Cons p ps)
    then show ?case by (auto simp: Let_def)
  qed
qed

lemma ping_test_passes:
  assumes "\<forall>p \<in> set (ps @ q # rest). p \<noteq> [] \<and> length p \<le> READ_BUFFER"
    and "\<forall>p \<in> set ps. drop_bit 4 (p ! 0) = 4 \<longrightarrow> 20 \<le> length p \<and> p ! 9 \<noteq> 1"
    and "drop_bit 4 (q ! 0) = 4" and "20 \<le> length q" and "q ! 9 = 1" and "take 4 (drop 16 q) = [10, 201, 201, 67]"
  shows "\<exists>t :: 'te TunRun. schedule tun_step Tun_start (test_tun_read (ps @ q # rest)) t \<and> icmp_scan (read_out t)"
proof -
  obtain t :: "'te TunRun" where t: "schedule tun_step Tun_start (test_tun_read (ps @ q # rest)) t" "read_out t = ps @ q # rest"
    using tun_read_hands_over [OF assms(1)] by blast
  have "icmp_scan (ps @ q # rest)" by (rule icmp_scan_finds) (use assms in auto)
  with t show ?thesis by auto
qed

section \<open>A concrete run\<close>

definition test_crates :: "(unit, unit, u8, nat) Crates" where
  "test_crates = \<lparr>from_slice = (\<lambda>d. if d = ascii (full_text ''/t/tmp_secret.key'' ''k'') then Inr (full_fields ''/t/tmp_secret.key'' ''k'')
       else if d = ascii (short_text ''/t/tmp_secret.key'' ''10.67.255.254'') then Inr (short_fields ''/t/tmp_secret.key'' ''10.67.255.254'')
       else if d = ascii (short_text ''/t/broken.key'' ''10.67.1.1'') then Inr (short_fields ''/t/broken.key'' ''10.67.1.1'')
       else if d = ascii (short_text ''/tmp/dummy.key'' ''192.168.1.1'') then Inr (short_fields ''/tmp/dummy.key'' ''192.168.1.1'')
       else Inl ()),
     pk_from_str = (\<lambda>x. if x = ''k'' then Inr 7 else Inl ()), generated = 5, to_bytes = replicate 32, from_bytes = hd\<rparr>"

lemma test_crates_read: "key_codec test_crates" "toml_reads_tests test_crates ''/t'' ''k''"
  by (simp_all add: key_codec_def toml_reads_tests_def test_crates_def ascii_inject full_text_def short_text_def line_def
      quoted_def text_end_def newline_def)

section \<open>Property\<close>



end
