(* ===== verification/Mesh_Test.thy ===== *)
theory Mesh_Test
  imports Gen_Configs Mesh_Node
begin

text \<open>
  The test \<^verbatim>\<open>test_n_nodes_resilient_mesh\<close> of \<^verbatim>\<open>src/iroh.rs\<close>: it starts \<open>n\<close> managers that list each
  other, waits until every two are connected, and then sends a datagram over every pair until
  all have arrived. The definitions follow its phases; the events that the managers report in
  time are arguments, and \<open>None\<close> or \<open>False\<close> is a failed assertion or a panic. Printed messages,
  the delays between the starts and the lengths of the time limits are left out.
\<close>

section \<open>Set-up\<close>

text \<open>A parameter is read from the environment, with a default for an unset variable.\<close>

definition env_number :: "(string \<rightharpoonup> string) \<Rightarrow> string \<Rightarrow> string \<Rightarrow> nat option" where
  "env_number env name unset = parse_usize (case env name of Some v \<Rightarrow> v | None \<Rightarrow> unset)"

definition test_params :: "(string \<rightharpoonup> string) \<Rightarrow> (nat \<times> nat \<times> nat \<times> nat) option" where
  "test_params env =
     do {
       n \<leftarrow> env_number env ''MESH_NODES'' ''20'';
       timeout_secs \<leftarrow> env_number env ''MESH_CONNECT_TIMEOUT'' ''240'';
       min_delay \<leftarrow> env_number env ''MIN_INIT_NODES_DELAY'' ''0'';
       max_delay \<leftarrow> env_number env ''MAX_INIT_NODES_DELAY'' ''2000'';
       if max_delay \<ge> min_delay then Some (n, timeout_secs, min_delay, max_delay) else None
     }"

text \<open>The drawn keys, the endpoint of the iroh crate (\<open>bind_addr\<close> and \<open>bind\<close>, as in \<open>Iroh_new\<close>), the
  public key of a secret key, and the iteration order of a set of keys are arguments.\<close>

record ('e1, 'e2, 'sk, 'pk) TestWorld =
  test_draw :: "nat \<Rightarrow> 'sk"
  test_public :: "'sk \<Rightarrow> 'pk"
  test_bind_addr :: "string \<Rightarrow> 'e1 option"
  test_bind :: "'sk \<Rightarrow> 'e2 + 'pk"
  test_order :: "'pk set \<Rightarrow> 'pk list"

definition test_keys :: "('e1, 'e2, 'sk, 'pk) TestWorld \<Rightarrow> nat \<Rightarrow> 'sk list" where
  "test_keys W n = map (test_draw W) [0..<n]"

definition test_peers :: "('e1, 'e2, 'sk, 'pk) TestWorld \<Rightarrow> nat \<Rightarrow> 'pk set" where
  "test_peers W n = set (map (test_public W) (test_keys W n))"

text \<open>One manager of the test, after \<^verbatim>\<open>new\<close> and after \<^verbatim>\<open>run\<close> has called \<^verbatim>\<open>init\<close>.\<close>

definition test_node :: "('e1, 'e2, 'sk, 'pk::linorder) TestWorld \<Rightarrow> 'pk set \<Rightarrow> 'sk \<Rightarrow> 'pk Iroh option" where
  "test_node W nodes secret_key =
     (let node_peers = nodes - {test_public W secret_key} in
      case Iroh_new (test_bind_addr W) (test_bind W secret_key) node_peers (test_order W node_peers) 0 of
        Inl e \<Rightarrow> None
      | Inr iroh_node \<Rightarrow> Some (init (test_order W node_peers) iroh_node))"

definition test_nodes :: "('e1, 'e2, 'sk, 'pk::linorder) TestWorld \<Rightarrow> nat \<Rightarrow> 'pk Iroh list option" where
  "test_nodes W n = those (map (test_node W (test_peers W n)) (test_keys W n))"

text \<open>The number of connections of the full mesh, in 64 bits with overflow checks.\<close>

definition expected_connections :: "nat \<Rightarrow> nat option" where
  "expected_connections n = (if n = 0 \<or> 2 ^ 64 \<le> n * (n - 1) then None else Some (n * (n - 1)))"

section \<open>Waiting for the mesh\<close>

text \<open>The set of open connections the test keeps, the loop that waits until there are \<open>expected\<close> of
  them (\<open>None\<close>: it times out) and the assertions that follow.\<close>

fun note_global :: "'pk \<times> 'pk IrohEvent \<Rightarrow> ('pk \<times> 'pk) set \<Rightarrow> ('pk \<times> 'pk) set" where
  "note_global (node_id, ConnectedToPeer peer_id) A = insert (node_id, peer_id) A"
| "note_global (node_id, DisconnectedFromPeer peer_id) A = A - {(node_id, peer_id)}"
| "note_global (node_id, RecvPacketFrom p k) A = A"

fun connection_phase :: "nat \<Rightarrow> ('pk \<times> 'pk IrohEvent) list \<Rightarrow> ('pk \<times> 'pk) set \<Rightarrow> ('pk \<times> 'pk) set option" where
  "connection_phase expected [] A = None"
| "connection_phase expected ((node_id, ev) # es) A =
     (let A' = note_global (node_id, ev) A in
      case ev of
        ConnectedToPeer _ \<Rightarrow> if card A' = expected then Some A' else connection_phase expected es A'
      | _ \<Rightarrow> connection_phase expected es A')"

definition connectivity_check :: "nat \<Rightarrow> 'pk set \<Rightarrow> ('pk \<times> 'pk) set \<Rightarrow> bool" where
  "connectivity_check n nodes active \<longleftrightarrow>
     (\<forall>node_key \<in> nodes. let expected_neighbors = nodes - {node_key};
          actual_neighbors = snd ` {(src, dst) \<in> active. src = node_key}
        in card actual_neighbors = n - 1 \<and> actual_neighbors = expected_neighbors)"

section \<open>Sending over every pair\<close>

definition test_packet :: bytes where
  "test_packet = ascii ''test_ping''"

text \<open>The pairs that have not exchanged data yet: all pairs of different keys, filled by two loops.\<close>

definition no_data_pairs :: "'pk list \<Rightarrow> ('pk \<times> 'pk) set" where
  "no_data_pairs keys =
     fold (\<lambda>peer_a. fold (\<lambda>peer_b A. if peer_a = peer_b then A else insert (peer_a, peer_b) A) keys) keys {}"

text \<open>The channel to each manager, and what a round sends for the pairs in the order given.\<close>

definition controllers :: "('sk \<Rightarrow> 'pk) \<Rightarrow> 'sk list \<Rightarrow> ('pk \<rightharpoonup> nat)" where
  "controllers pk keys = fold (\<lambda>(i, secret_key) m. m(pk secret_key \<mapsto> i)) (enumerate 0 keys) Map.empty"

definition data_sends :: "('pk \<rightharpoonup> nat) \<Rightarrow> ('pk \<times> 'pk) list \<Rightarrow> (nat \<times> 'pk CoreAction) list" where
  "data_sends ctl pairs = List.map_filter (\<lambda>(peer_a, peer_b).
     map_option (\<lambda>tx_coord. (tx_coord, CoreAction.SendPacketTo test_packet peer_b)) (ctl peer_a)) pairs"

text \<open>The inner loop reads the events of one round: it ends when no pair is left or no event comes in
  time. The outer loop starts rounds while pairs are left; \<open>Inl\<close>: the time limit ends it.\<close>

fun collect_data :: "('pk \<times> 'pk IrohEvent) list \<Rightarrow> ('pk \<times> 'pk) set \<Rightarrow> ('pk \<times> 'pk) set" where
  "collect_data [] A = A"
| "collect_data ((node_id, RecvPacketFrom data peer_id) # es) A =
     (if data = test_packet
      then let A' = A - {(peer_id, node_id)} in if A' = {} then A' else collect_data es A'
      else collect_data es A)"
| "collect_data (_ # es) A = collect_data es A"

fun data_phase :: "('pk \<times> 'pk IrohEvent) list list \<Rightarrow> ('pk \<times> 'pk) set \<Rightarrow> ('pk \<times> 'pk) set + unit" where
  "data_phase [] A = (if A = {} then Inr () else Inl A)"
| "data_phase (es # rounds) A = (if A = {} then Inr () else data_phase rounds (collect_data es A))"

definition test_n_nodes_resilient_mesh ::
  "('e1, 'e2, 'sk, 'pk::linorder) TestWorld \<Rightarrow> (string \<rightharpoonup> string) \<Rightarrow> ('pk \<times> 'pk IrohEvent) list \<Rightarrow>
   ('pk \<times> 'pk IrohEvent) list list \<Rightarrow> bool" where
  "test_n_nodes_resilient_mesh W env events rounds =
     (case test_params env of
        None \<Rightarrow> False
      | Some (n, _) \<Rightarrow>
          (case (test_nodes W n, expected_connections n) of
             (Some iroh_nodes, Some expected) \<Rightarrow>
               (case connection_phase expected events {} of
                  None \<Rightarrow> False
                | Some active \<Rightarrow>
                    connectivity_check n (test_peers W n) active \<and>
                    data_phase rounds (no_data_pairs (test_order W (test_peers W n))) = Inr ())
           | _ \<Rightarrow> False))"

section \<open>The mesh\<close>

text \<open>The endpoint has the identity of its key, and sets are iterated without repetition.\<close>

definition test_world_ok :: "('e1, 'e2, 'sk, 'pk) TestWorld \<Rightarrow> bool" where
  "test_world_ok W \<longleftrightarrow> (\<forall>sk pk. test_bind W sk = Inr pk \<longrightarrow> pk = test_public W sk) \<and>
     (\<forall>A. finite A \<longrightarrow> enumerates (test_order W A) A)"

abbreviation all_pairs :: "'pk set \<Rightarrow> ('pk \<times> 'pk) set" where
  "all_pairs nodes \<equiv> {(a, b). a \<in> nodes \<and> b \<in> nodes \<and> a \<noteq> b}"

lemma card_all_pairs:
  assumes "finite nodes"
  shows "finite (all_pairs nodes)" "card (all_pairs nodes) = card nodes * (card nodes - 1)"
proof -
  have eq: "all_pairs nodes = Sigma nodes (\<lambda>a. nodes - {a})" by auto
  show "finite (all_pairs nodes)" unfolding eq using assms by simp
  show "card (all_pairs nodes) = card nodes * (card nodes - 1)" unfolding eq using assms by simp
qed

text \<open>A manager of the test lists the other keys, and its run starts in an initial state.\<close>

lemma test_node_state:
  assumes W: "test_world_ok W" and fin: "finite nodes" and t: "test_node W nodes sk = Some s"
  shows "mgr_initial s" "endpoint_id s = test_public W sk" "whitelist s = nodes - {test_public W sk}"
proof -
  let ?P = "nodes - {test_public W sk}"
  let ?it = "test_order W ?P"
  obtain s0 where s0: "Iroh_new (test_bind_addr W) (test_bind W sk) ?P ?it 0 = Inr s0" "s = init ?it s0"
    using t by (auto simp: test_node_def Let_def split: sum.splits)
  have en: "enumerates ?it ?P" using W fin by (simp add: test_world_ok_def)
  note st = Iroh_new_state [OF s0(1) en]
  show "endpoint_id s = test_public W sk" "whitelist s = ?P"
    using st(1,2) s0(2) W by (auto simp: test_world_ok_def)
  have "Iroh_new (\<lambda>_. None :: unit option) (Inr (endpoint_id s0) :: unit + _) ?P ?it 0 = Inr s0"
    using s0(1) by (auto simp: Iroh_new_def Let_def split: option.splits sum.splits)
  with en s0(2) show "mgr_initial s" unfolding mgr_initial_def by blast
qed

lemma those_eq_Some: "those xs = Some ys \<longleftrightarrow> map Some ys = xs"
  by (induction xs arbitrary: ys) (auto split: option.splits)

lemma test_nodes_state:
  assumes W: "test_world_ok W" and t: "test_nodes W n = Some ss" and s: "s \<in> set ss"
  shows "mgr_initial s" "endpoint_id s \<in> test_peers W n" "whitelist s = test_peers W n - {endpoint_id s}"
proof -
  have eq: "map Some ss = map (test_node W (test_peers W n)) (test_keys W n)"
    using t by (simp add: test_nodes_def those_eq_Some)
  have "Some s \<in> set (map Some ss)" using s by simp
  then have "Some s \<in> set (map (test_node W (test_peers W n)) (test_keys W n))" unfolding eq .
  then obtain sk where sk: "sk \<in> set (test_keys W n)" "test_node W (test_peers W n) sk = Some s" by auto
  have fin: "finite (test_peers W n)" by (simp add: test_peers_def)
  note st = test_node_state [OF W fin sk(2)]
  show "mgr_initial s" by (rule st(1))
  show "endpoint_id s \<in> test_peers W n" using sk(1) st(2) by (simp add: test_peers_def)
  show "whitelist s = test_peers W n - {endpoint_id s}" using st(2,3) by simp
qed

text \<open>A manager reports only peers of its whitelist.\<close>

definition reports_known :: "'pk \<Rightarrow> 'pk set \<Rightarrow> 'pk Iroh \<Rightarrow> bool" where
  "reports_known k A s \<longleftrightarrow> endpoint_id s = k \<and> whitelist s = A \<and> (\<forall>ev \<in> set (to_coord s). event_known A UNIV ev)"

lemma mgr_step_reports_known:
  assumes "mgr_step s l t" and "mgr_inv s" and "reports_known k A s"
  shows "reports_known k A t"
  using assms
proof (induction rule: mgr_step.induct)
  case (input s i t)
  then show ?case
    by (cases "(s, i)" rule: run_iteration.cases)
       (auto simp: reports_known_def handle_conn_event_table handle_core_event_keeps split: sum.splits)
next
  case (sent s d)
  then obtain ev c where a: "awaiting s = Some (ev, c)" by auto
  then have "cont_ok (state_table s) ev c" "dom (state_table s) = whitelist s"
    using sent.prems(1) by (auto simp: mgr_inv_def await_inv_def)
  then have "event_known (whitelist s) UNIV ev" by (cases c) (auto simp: up_in_def)
  with sent.prems show ?case by (auto simp: reports_known_def complete_send_notifies [OF sent.prems(1) a])
qed (auto simp: reports_known_def task_ends_def)

interpretation test_mgr: inductive_invariant "\<lambda>s. mgr_initial s \<and> reports_known k A s" mgr_step "\<lambda>s. mgr_inv s \<and> reports_known k A s"
  for k A
  by unfold_locales (auto intro: mgr.inv_initial mgr.inv_step mgr_step_reports_known)

text \<open>The states of the manager with a given key during the test, and the events the test reads: what
  such a manager has queued, or a datagram.\<close>

definition runs_as :: "('e1, 'e2, 'sk, 'pk::linorder) TestWorld \<Rightarrow> nat \<Rightarrow> 'pk \<Rightarrow> 'pk Iroh \<Rightarrow> bool" where
  "runs_as W n a s \<longleftrightarrow> (\<exists>ss s0. test_nodes W n = Some ss \<and> s0 \<in> set ss \<and> endpoint_id s0 = a \<and> reachable ((=) s0) mgr_step s)"

definition from_managers :: "('e1, 'e2, 'sk, 'pk::linorder) TestWorld \<Rightarrow> nat \<Rightarrow> ('pk \<times> 'pk IrohEvent) list \<Rightarrow> bool" where
  "from_managers W n events \<longleftrightarrow> (\<forall>(a, ev) \<in> set events. \<exists>s. runs_as W n a s \<and>
     (ev \<in> set (to_coord s) \<or> (\<exists>p k. ev = RecvPacketFrom p k)))"

lemma mgr_initial_queue: "mgr_initial s \<Longrightarrow> to_coord s = []"
  unfolding mgr_initial_def by (auto dest!: Iroh_new_state(5))

lemma reachable_weaken: "reachable P step s \<Longrightarrow> (\<And>s. P s \<Longrightarrow> Q s) \<Longrightarrow> reachable Q step s"
  by (induction rule: reachable.induct) (auto intro: reach_init reach_step)

lemma test_events_known:
  assumes W: "test_world_ok W" and ev: "from_managers W n events"
  shows "\<forall>(a, ev) \<in> set events. a \<in> test_peers W n \<and> event_known (test_peers W n - {a}) UNIV ev"
proof clarify
  fix a ev
  assume "(a, ev) \<in> set events"
  with ev obtain ss s0 s where s: "test_nodes W n = Some ss" "s0 \<in> set ss" "endpoint_id s0 = a" "reachable ((=) s0) mgr_step s"
    and e: "ev \<in> set (to_coord s) \<or> (\<exists>p k. ev = RecvPacketFrom p k)"
    by (fastforce simp: from_managers_def runs_as_def)
  note st = test_nodes_state [OF W s(1,2)]
  have i: "mgr_initial s0 \<and> reports_known a (test_peers W n - {a}) s0"
    using st s(3) mgr_initial_queue [OF st(1)] by (simp add: reports_known_def)
  have "reachable (\<lambda>s. mgr_initial s \<and> reports_known a (test_peers W n - {a}) s) mgr_step s"
    by (rule reachable_weaken [OF s(4)]) (use i in simp)
  from test_mgr.inv_reachable [OF this] e st(2) s(3)
  show "a \<in> test_peers W n \<and> event_known (test_peers W n - {a}) UNIV ev" by (auto simp: reports_known_def)
qed

text \<open>The connectivity check cannot fail: managers report only whitelisted peers, so the expected
  number of connections is reached by the full mesh only.\<close>

lemma connection_phase_known:
  assumes "\<forall>(a, ev) \<in> set es. a \<in> nodes \<and> event_known (nodes - {a}) UNIV ev" and "A \<subseteq> all_pairs nodes"
    and "connection_phase expected es A = Some B"
  shows "B \<subseteq> all_pairs nodes \<and> card B = expected \<and> B \<noteq> {}"
  using assms
proof (induction es arbitrary: A)
  case (Cons e es)
  obtain a ev where e: "e = (a, ev)" by (cases e)
  from Cons.prems(1) e have a: "a \<in> nodes" "event_known (nodes - {a}) UNIV ev" by auto
  have "note_global e A \<subseteq> all_pairs nodes" using Cons.prems(2) a e by (cases ev) auto
  with Cons.IH [of "note_global e A"] Cons.prems(1,3) e show ?case
    by (cases ev) (auto simp: Let_def split: if_splits)
qed simp

lemma connectivity_check_passes:
  assumes fin: "finite nodes" "card nodes = n" and known: "\<forall>(a, ev) \<in> set es. a \<in> nodes \<and> event_known (nodes - {a}) UNIV ev"
    and phase: "connection_phase (n * (n - 1)) es {} = Some active"
  shows "connectivity_check n nodes active"
proof -
  have "active \<subseteq> all_pairs nodes" "card active = card (all_pairs nodes)"
    using connection_phase_known [OF known _ phase] card_all_pairs [OF fin(1)] fin(2) by simp_all
  with card_all_pairs(1) [OF fin(1)] have all: "active = all_pairs nodes" by (simp add: card_subset_eq)
  have "snd ` {(src, dst) \<in> active. src = k} = nodes - {k}" if "k \<in> nodes" for k
    using that unfolding all by force
  with fin show ?thesis by (simp add: connectivity_check_def Let_def)
qed

text \<open>A single node has nobody to connect to: the loop compares the count only after a connection, so
  the expected zero connections are never noticed and the test times out.\<close>

lemma single_node_times_out:
  assumes "\<forall>(a, ev) \<in> set es. a \<in> {k} \<and> event_known ({k} - {a}) UNIV ev"
  shows "connection_phase 0 es {} = None"
proof (cases "connection_phase 0 es {}")
  case (Some B)
  from connection_phase_known [OF assms _ this] show ?thesis by (auto simp: finite_subset)
qed

section \<open>The data\<close>

lemma no_data_pairs_eq: "no_data_pairs keys = all_pairs (set keys)"
proof -
  have inner: "fold (\<lambda>b A. if a = b then A else insert (a, b) A) ks A = A \<union> {(a, b) | b. b \<in> set ks \<and> a \<noteq> b}" for a ks and A :: "('a \<times> 'a) set"
    by (induction ks arbitrary: A) auto
  have "fold (\<lambda>a. fold (\<lambda>b A. if a = b then A else insert (a, b) A) keys) ks A =
      A \<union> {(a, b). a \<in> set ks \<and> b \<in> set keys \<and> a \<noteq> b}" for ks A
    by (induction ks arbitrary: A) (auto simp: inner)
  then show ?thesis by (simp add: no_data_pairs_def)
qed

definition received_pairs :: "('pk \<times> 'pk IrohEvent) list \<Rightarrow> ('pk \<times> 'pk) set" where
  "received_pairs es = {(a, b). (b, RecvPacketFrom test_packet a) \<in> set es}"

lemma collect_data_eq: "collect_data es A = A - received_pairs es"
  by (induction es A rule: collect_data.induct) (auto simp: received_pairs_def Let_def)

text \<open>The rounds succeed exactly when every pair has received its datagram.\<close>

lemma data_phase_eq:
  "data_phase rounds A =
     (if A \<subseteq> received_pairs (concat rounds) then Inr () else Inl (A - received_pairs (concat rounds)))"
proof (induction rounds arbitrary: A)
  case Nil
  then show ?case by (simp add: received_pairs_def)
next
  case (Cons es rs)
  have "received_pairs (concat (es # rs)) = received_pairs es \<union> received_pairs (concat rs)"
    by (auto simp: received_pairs_def)
  with Cons.IH [of "collect_data es A"] show ?case by (auto simp: collect_data_eq Diff_eq split: if_splits)
qed

text \<open>Every pair is sent to the channel of its first node.\<close>

lemma controllers_nth:
  assumes "distinct (map pk keys)" and "i < length keys"
  shows "controllers pk keys (pk (keys ! i)) = Some i"
proof -
  define add where "add = (\<lambda>(i :: nat, sk) m. m(pk sk \<mapsto> i))"
  have add: "add (i, sk) m = m(pk sk \<mapsto> i)" for i sk m by (simp add: add_def)
  have other: "fold add (enumerate j ks) m x = m x" if "x \<notin> pk ` set ks" for ks j m x
    using that by (induction ks arbitrary: j m) (auto simp: add)
  have "fold add (enumerate j keys) m (pk (keys ! i)) = Some (j + i)" for j m
    using assms
  proof (induction keys arbitrary: i j m)
    case (Cons k ks)
    then show ?case by (cases i) (auto simp: add other)
  qed simp
  then show ?thesis by (simp add: controllers_def add_def)
qed

lemma data_sends_complete:
  assumes "distinct (map pk keys)" and "(pk (keys ! i), b) \<in> set pairs" and "i < length keys"
  shows "(i, CoreAction.SendPacketTo test_packet b) \<in> set (data_sends (controllers pk keys) pairs)"
  using assms(2) controllers_nth [OF assms(1,3)] by (force simp: data_sends_def map_filter_def image_iff)

section \<open>Outcome\<close>

text \<open>
  The outcome of the mesh test, whatever the managers do. With distinct public keys and managers
  that could be built, for two nodes or more (below the 64 bits of the expected count) it passes
  exactly when the full mesh was reached at some moment and every pair has received its
  datagram; its connectivity check cannot fail. For one node it fails whatever happens, since
  the expected zero connections are compared only after a connection, and for none the
  expected count underflows.
\<close>

theorem mesh_test_outcome:
  assumes "test_world_ok W" and "from_managers W n events" and "test_params env = Some (n, limits)"
    and "test_nodes W n = Some ss" and "inj_on (\<lambda>i. test_public W (test_draw W i)) {..<n}" and "n < 2 ^ 32"
  shows "test_n_nodes_resilient_mesh W env events rounds \<longleftrightarrow>
    1 < n \<and> connection_phase (n * (n - 1)) events {} \<noteq> None \<and>
    (\<forall>a \<in> test_peers W n. \<forall>b \<in> test_peers W n. a \<noteq> b \<longrightarrow> (a, b) \<in> received_pairs (concat rounds))"
proof -
  have peers: "test_peers W n = (\<lambda>i. test_public W (test_draw W i)) ` {..<n}"
    by (auto simp: test_peers_def test_keys_def)
  then have fin: "finite (test_peers W n)" "card (test_peers W n) = n" by (simp_all add: card_image [OF assms(5)])
  have "set (test_order W (test_peers W n)) = test_peers W n" using assms(1) fin(1) by (simp add: test_world_ok_def enumerates_def)
  then have pairs: "no_data_pairs (test_order W (test_peers W n)) = all_pairs (test_peers W n)" by (simp add: no_data_pairs_eq)
  note known = test_events_known [OF assms(1,2)]
  have "n * (n - 1) < 2 ^ 32 * 2 ^ 32" using assms(6) by (intro mult_strict_mono) auto
  then have exp: "expected_connections n = (if n = 0 then None else Some (n * (n - 1)))" by (simp add: expected_connections_def)
  have one: "connection_phase (n * (n - 1)) events {} = None" if n: "n = 1"
  proof -
    obtain k where "test_peers W n = {k}" using n peers by (auto simp: lessThan_Suc)
    with known single_node_times_out [of events k] n show ?thesis by simp
  qed
  show ?thesis
  proof (cases "connection_phase (n * (n - 1)) events {}")
    case None
    then show ?thesis using assms(3,4) exp by (simp add: test_n_nodes_resilient_mesh_def)
  next
    case (Some active)
    then have check: "connectivity_check n (test_peers W n) active" by (rule connectivity_check_passes [OF fin known])
    from Some one have n1: "n \<noteq> 1" by auto
    have "n = 0 \<or> 1 < n" using n1 by linarith
    with Some check assms(3,4) exp pairs n1 show ?thesis
      by (auto simp: test_n_nodes_resilient_mesh_def data_phase_eq)
  qed
qed

text \<open>A run with two nodes: both report their connection and the datagrams arrive in two rounds.\<close>

definition two_nodes :: "(unit, unit, nat, nat) TestWorld" where
  "two_nodes = \<lparr>test_draw = (\<lambda>i. i + 5), test_public = id, test_bind_addr = (\<lambda>_. None), test_bind = Inr,
     test_order = sorted_list_of_set\<rparr>"

lemma two_nodes_params: "test_params [''MESH_NODES'' \<mapsto> ''2''] = Some (2, 240, 0, 2000)"
  by (simp add: test_params_def env_number_def parse_usize_def is_digit_def dec_value_def digit_value_def Let_def)

lemma two_nodes_peers: "test_peers two_nodes 2 = {5, 6}" "expected_connections 2 = Some 2"
  by (simp_all add: test_peers_def test_keys_def two_nodes_def upt_rec expected_connections_def)

lemma two_nodes_start: "\<exists>s s'. test_nodes two_nodes 2 = Some [s, s']"
  by (simp add: test_nodes_def test_keys_def two_nodes_def upt_rec test_node_def Iroh_new_def Let_def)

lemma two_nodes_pass:
  "test_n_nodes_resilient_mesh two_nodes [''MESH_NODES'' \<mapsto> ''2'']
     [(6, ConnectedToPeer 5), (5, ConnectedToPeer 6)]
     [[(6, RecvPacketFrom test_packet 5)], [(5, RecvPacketFrom test_packet 6)]]"
proof -
  obtain ss where ss: "test_nodes two_nodes 2 = Some ss" using two_nodes_start by blast
  have "{(src, dst). (src = 5 \<and> dst = 6 \<or> src = 6 \<and> dst = 5) \<and> src = (5 :: nat)} = {(5, 6 :: nat)}"
    "{(src, dst). (src = 5 \<and> dst = 6 \<or> src = 6 \<and> dst = 5) \<and> src = (6 :: nat)} = {(6, 5 :: nat)}"
    "{5, 6} - {6} = {5 :: nat}" "{5, 6} - {5} = {6 :: nat}" by auto
  then have "connectivity_check 2 {5, 6 :: nat} {(5, 6), (6, 5)}" by (simp add: connectivity_check_def)
  moreover have "no_data_pairs (test_order two_nodes {5, 6}) = {(5, 6), (6, 5)}"
    by (auto simp: no_data_pairs_eq two_nodes_def)
  ultimately show ?thesis
    using ss by (simp add: test_n_nodes_resilient_mesh_def two_nodes_params two_nodes_peers Diff_eq insert_commute)
qed

end
