(* ===== verification/Spec2Isabelle.thy ===== *)
theory Spec2Isabelle
  imports Vpn_Core_History Mesh_Ideal Mesh_Deployment Custom_Transport Unit_Tests Mesh_Test
begin

text \<open>
  Verification of a peer-to-peer mesh VPN written in Rust.

  \<^bold>\<open>The program.\<close> A node reads a configuration with its secret key, its virtual IPv4 address in
  10.67.0.0/16 and a whitelist of peers (public key and virtual address). Packets of the host
  arrive through a virtual interface (\<^verbatim>\<open>src/tun.rs\<close>), packets of peers through authenticated
  QUIC connections (\<^verbatim>\<open>src/iroh.rs\<close>, over the iroh crate). A coordinator (\<^verbatim>\<open>src/coord.rs\<close>)
  feeds both into a pure core (\<^verbatim>\<open>src/vpn_core.rs\<close>), which checks, routes and buffers packets
  and answers with actions; the coordinator passes the actions to the connection manager and
  to the interface. The parts run as separate tasks and only share bounded channels.

  \<^bold>\<open>Theories and sources.\<close>
  \<^item> \<open>Prelude\<close>: machine types, panics as \<open>None\<close>, iteration orders of hash containers, decimal
    numbers, reachable states, and the interfaces of the development as locales:
    \<open>inductive_invariant\<close> (a one-step proof gives an invariant of all reachable states) and its
    extension \<open>simulation\<close> (seen through a view, every step is one of an abstract system or none),
    \<open>panic_free\<close> (a processor that never panics under its invariant has total runs) and its
    extension \<open>refined_processor\<close> (a one-step simulation gives a simulation of runs).
  \<^item> \<open>Rust_Net\<close>, \<open>Rust_Io\<close>: what the program uses of \<^verbatim>\<open>std::net\<close>, \<^verbatim>\<open>std::io\<close> and
    \<^verbatim>\<open>std::fs\<close>: addresses with their parser, printer and order, error kinds, files.
  \<^item> \<open>Ipv4_Packet\<close>: \<^verbatim>\<open>src/packet/ipv4.rs\<close>, the header parser.
  \<^item> \<open>Vpn_Core\<close>: \<^verbatim>\<open>src/vpn_core.rs\<close>. The record \<open>VpnCore\<close> is the struct; one definition per
    method; \<open>process\<close> has an optional result because the code indexes hash maps. \<open>core_inv\<close> is
    its invariant, \<open>egress_ok\<close> and \<open>ingress_ok\<close> say on the bytes of a packet what the two
    verification methods decide. Interprets \<open>panic_free\<close>.
  \<^item> \<open>Vpn_Core_Spec\<close>: an abstract router (per peer a link that is up, or down with a queue) and
    the interpretation of \<open>refined_processor\<close>; \<open>Vpn_Core_History\<close>: a reference that computes the
    state of a peer from the whole list of events, and its equivalence with the core.
  \<^item> \<open>Channels\<close>: the bounded channels between the tasks with the capacities of \<^verbatim>\<open>src/main.rs\<close> and
    \<^verbatim>\<open>src/iroh.rs\<close>; the interface is the locale \<open>bounded_channel\<close>, interpreted on queues.
  \<^item> \<open>Iroh_Manager\<close>: the connection manager of \<^verbatim>\<open>src/iroh.rs\<close>: \<open>Iroh_new\<close>, \<open>init\<close>, the event
    loop \<open>run_iteration\<close> and its handlers. A \<^verbatim>\<open>send(...).await\<close> suspends the handler (field
    \<open>awaiting\<close>), spawned tasks and packet channels are entries of maps. Interprets
    \<open>inductive_invariant\<close>.
  \<^item> \<open>Iroh_Tasks\<close>: the spawned tasks of the same file: session, dialling loop (a
    \<open>partial_function\<close>: it retries for ever) and accept loop.
  \<^item> \<open>Coordinator\<close>: \<^verbatim>\<open>src/coord.rs\<close>, one definition per method; the answers of the channels
    are an argument, so every full or closed channel is a branch.
  \<^item> \<open>Tun_Device\<close>: \<^verbatim>\<open>src/tun.rs\<close>: error classes, reader, writer, and the supervising loop as a
    step relation that includes lost workers. Interprets \<open>inductive_invariant\<close>.
  \<^item> \<open>Config_File\<close>: \<^verbatim>\<open>src/config.rs\<close> over a model of files; \<open>Gen_Configs\<close>:
    \<^verbatim>\<open>src/bin/gen_configs.rs\<close>.
  \<^item> \<open>Custom_Transport\<close>: \<^verbatim>\<open>src/custom_transport.rs\<close>.
  \<^item> \<open>Mesh_Node\<close>: the coordinator, the manager and its tasks as one state; a step is a pass of one
    loop or task, with the network and the host free to do anything and the channels answering
    by their fill. \<open>Mesh_Delivery\<close> has schedules of a node, \<open>Mesh_Bounds\<close> the bounds of its
    queues, \<open>Mesh_Progress\<close> termination of its passes and absence of deadlocks.
  \<^item> \<open>Mesh_Process\<close>: node and interface joined by their two channels, and the final \<^verbatim>\<open>select!\<close> of
    \<^verbatim>\<open>main\<close> that ends the process when one of the three loops ends.
  \<^item> \<open>Mesh_Network\<close>: several processes; datagrams of a node of the network are authenticated by
    its key, all other identities are hostile. \<open>Mesh_Resilience\<close>: no configured peer is forgotten
    and a node can connect to each. \<open>Mesh_Healing\<close>: a finite set of nodes can connect pair by pair
    without losing a session, from any reachable state. \<open>Mesh_Traffic\<close>: such a mesh works off what
    is queued and then carries any sequence of packets between its nodes. \<open>Mesh_Deployment\<close>: the
    mesh of the nodes that start from generated files.
  \<^item> \<open>Mesh_Ordering\<close>: order and multiplicity on the data path, as an invariant on subsequences
    towards the host and a conservation invariant on multisets towards the wire. \<open>Mesh_Ideal\<close>: an
    ideal private network and the interpretation of \<open>simulation\<close> on the mesh.
  \<^item> \<open>Unit_Tests\<close>: the unit tests of \<^verbatim>\<open>src/config.rs\<close> and \<^verbatim>\<open>src/tun.rs\<close>, run on the model;
    \<open>Mesh_Test\<close>: the test of \<^verbatim>\<open>src/iroh.rs\<close> that starts a mesh, and when it passes.
  \<^item> \<open>Main_Program\<close>: \<^verbatim>\<open>src/main.rs\<close>: the start-up and the plan of the logger.

  The step relations \<open>tun_step\<close>, \<open>node_step\<close>, \<open>proc_step\<close> and \<open>net_step\<close> each have their invariant
  by an interpretation of \<open>inductive_invariant\<close>; an invariant of a part is lifted to the whole
  because every step of the whole is a step of its parts.

  \<^bold>\<open>What is shown.\<close> The packet layer: the parser is total and inverts the header layout. The
  core: it never panics, admits exactly the packets that the rules allow, buffers and releases
  in order within its bound, refines the abstract router and equals the reference on histories.
  The manager: the table invariant, a single session per peer, the dialling role by key order,
  replacement of connections. The interface: the channel survives reconnects without
  loss, rounds end, reads are forwarded exactly. The configuration: validity, totality, stable
  identity; generated networks load. This theory: properties of nodes, processes and networks,
  in every reachable state and under every interleaving. Packets that reach a host are
  authentic from host to host and arrive in order and at most once per datagram read, only routed
  packets of the own host reach the wire and none of them twice, the whole mesh refines the ideal
  private network, the core's
  view of connections agrees with the manager's, the coordinator never panics or blocks, queues
  are bounded, passes terminate and end with nothing in flight, a process ends only with its
  interface, no peer is forgotten, the mesh heals after any loss of connections and then carries
  any traffic of its hosts, each packet once and in order, and so does a network started from
  generated files.

  \<^bold>\<open>Modelling choices.\<close> Public keys are any linearly ordered type. The crates iroh, tokio, toml
  and tun are not modelled: their answers are arguments or nondeterministic inputs, with named
  hypotheses where a theorem relies on documented behaviour (\<open>key_codec\<close>, \<open>keys_agree\<close>,
  \<open>toml_reads\<close>, \<open>toml_reads_tests\<close>, \<open>binds_as\<close>, \<open>fair_orders\<close>, \<open>test_world_ok\<close>, \<open>authenticated\<close>). A \<^verbatim>\<open>try_send\<close> on a live channel
  answers full exactly when the channel holds as many messages as its capacity (8192), and
  \<^verbatim>\<open>send(...).await\<close> waits for room. Apart from the dialling loop, whose theorem says exactly when
  it returns, loops are total functions over the list of their inputs or step relations, so no
  fuel is involved. Healing and traffic theorems exhibit a schedule and do not assume fairness.
  The order of datagrams on the wire is not claimed: a session that the table has forgotten may
  still drain its queue beside its successor.

  \<^bold>\<open>Not modelled.\<close> The text of log messages, the QUIC and TUN drivers, wall-clock time except the
  seconds slept, the write half of a torn-down interface in the instant between its return and
  the end of the process, and in the tests the delays between the starts of the nodes, the call of
  \<^verbatim>\<open>ping\<close> and the lengths of the time limits: what happens within them is an argument. The file
  \<^verbatim>\<open>src/lib.rs\<close> only declares the modules.
\<close>

section \<open>Properties that span the components\<close>

text \<open>
  C1. Host-to-host authenticity. In a network of any number of nodes with distinct keys, next to
  any number of foreign and hostile identities, a packet that a node hands to its host and whose
  source address belongs to the key of another node of the network was read from the virtual
  interface of exactly that node, carries that node's own address, and was routed by it to the
  receiver. This rests on one assumption about the iroh crate, that a connection is
  authenticated by the key of its remote end.
\<close>

theorem host_to_host_authenticity:
  assumes "net_reachable S" and "inj (\<lambda>i. key (S i))" and "p \<in> set (written (proc_tun (S i)))"
  shows "\<exists>k. route_table (core (coord (proc_node (S i)))) (header_src p) = Some k \<and>
    header_dst p = ipv4_addr (core (coord (proc_node (S i)))) \<and>
    (\<forall>j. key (S j) = k \<longrightarrow> p \<in> set (read_out (proc_tun (S j))) \<and>
       header_src p = ipv4_addr (core (coord (proc_node (S j)))) \<and>
       route_table (core (coord (proc_node (S j)))) (header_dst p) = Some (key (S i)))"
proof -
  have r: "proc_reachable (S j)" for j using net.inv_reachable [OF assms(1)] by (simp add: net_inv_def)
  obtain k where k: "(p, k) \<in> set (arrived (proc_node (S i)))" "ingress_ok (core (coord (proc_node (S i)))) p k"
    using written_authentic [OF r assms(3)] by (auto simp: authentic_def)
  have a: "authenticated S (key (S i)) p k" using net.inv_reachable [OF assms(1)] k(1) by (simp add: net_inv_def)
  have "p \<in> set (read_out (proc_tun (S j))) \<and> egress_ok (core (coord (proc_node (S j)))) p (key (S i))"
    if j: "key (S j) = k" for j
  proof -
    obtain j' where "key (S j') = k" and w: "(p, key (S i)) \<in> set (wire (proc_node (S j')))"
      using a j unfolding authenticated_def by blast
    then have "j' = j" using j injD [OF assms(2), of j' j] by simp
    with wire_outbound [OF r w] show ?thesis by simp
  qed
  with k(2) show ?thesis by (auto simp: ingress_ok_def egress_ok_def)
qed

theorem host_to_host_authenticity_witness:
  "\<exists>S :: (bool, nat, unit) Network. net_reachable S \<and> sample_packet 3 \<in> set (written (proc_tun (S True))) \<and>
     sample_packet 3 \<in> set (read_out (proc_tun (S False)))"
proof -
  obtain S :: "(bool, nat, unit) Network" where S: "net_reachable S"
    "sample_packet 3 \<in> set (written (proc_tun (S True)))" "key (S False) = 5" "key (S True) = 7"
    "core_config (core (coord (proc_node (S True)))) = core_config far_up"
    using crossed_network by blast
  have "inj (\<lambda>i. key (S i))"
  proof (rule injI)
    show "i = j" if "key (S i) = key (S j)" for i j using that S(3,4) by (cases i; cases j) simp_all
  qed
  from host_to_host_authenticity [OF S(1) this S(2)] obtain k
    where k: "route_table (core (coord (proc_node (S True)))) (header_src (sample_packet 3)) = Some k"
      "\<forall>j. key (S j) = k \<longrightarrow> sample_packet 3 \<in> set (read_out (proc_tun (S j)))" by blast
  have "route_table (core (coord (proc_node (S True)))) = route_table far_up" using S(5) by (simp add: core_config_def)
  with k(1) far_ingress [of 3] have "k = 5" by (simp add: ingress_ok_def)
  with k(2) S show ?thesis by blast
qed

text \<open>
  C3. No spoofed packet reaches the host. In every state a process can reach, under any
  interleaving and any behaviour of the network and the device, each packet written to the
  virtual interface, or waiting to be, was read from a connection of a configured peer, passes
  the size and length checks, is addressed to this node and carries as its source an address
  that the routing table assigns to exactly that peer.
\<close>

theorem no_spoofed_packet_reaches_device:
  assumes "proc_reachable s" and "p \<in> set (written (proc_tun s)) \<union> set (tx_to_tun (coord (proc_node s)))"
  shows "\<exists>k. (p, k) \<in> set (arrived (proc_node s)) \<and> k \<in> whitelist (mgr (proc_node s)) \<and>
    header_dst p = ipv4_addr (core (coord (proc_node s))) \<and>
    route_table (core (coord (proc_node s))) (header_src p) = Some k \<and>
    well_formed (max_packet_size (core (coord (proc_node s)))) p"
proof -
  have n: "node_reachable (proc_node s)" using proc_invD [OF assms(1)] by blast
  have "authentic (proc_node s) p"
    using assms(2) written_authentic [OF assms(1)] node_invD [OF n] unfolding authentic_def by blast
  then obtain k where "(p, k) \<in> set (arrived (proc_node s))" "ingress_ok (core (coord (proc_node s))) p k"
    by (auto simp: authentic_def)
  with ingress_known [OF node.inv_reachable [OF n]] show ?thesis unfolding ingress_ok_def by blast
qed

theorem no_spoofed_packet_reaches_device_witness:
  "\<exists>s :: (nat, unit) Process. proc_reachable s \<and> sample_reply \<in> set (written (proc_tun s)) \<and>
     (\<exists>k. (sample_reply, k) \<in> set (arrived (proc_node s)) \<and> k \<in> whitelist (mgr (proc_node s)) \<and>
      route_table (core (coord (proc_node s))) (header_src sample_reply) = Some k)"
proof -
  obtain s :: "(nat, unit) Process" where s: "proc_reachable s" "sample_reply \<in> set (written (proc_tun s))"
    using live_process_writes by blast
  from no_spoofed_packet_reaches_device [OF s(1), of sample_reply] s show ?thesis by blast
qed

text \<open>
  C4. Isolation of the wire. Every datagram a process ever sends is a packet that was read from
  its own virtual interface and passes the checks of outgoing packets, and it goes to the one
  peer to which the routing table assigns the destination address.
\<close>

theorem wire_carries_device_packets:
  assumes "proc_reachable s" and "(p, k) \<in> set (wire (proc_node s))"
  shows "p \<in> set (read_out (proc_tun s)) \<and> egress_ok (core (coord (proc_node s))) p k \<and>
    k \<in> whitelist (mgr (proc_node s)) \<and> (\<forall>k'. egress_ok (core (coord (proc_node s))) p k' \<longrightarrow> k' = k)"
proof -
  note e = wire_outbound [OF assms]
  have inv: "node_inv (proc_node s)" using proc_invD [OF assms(1)] node.inv_reachable by blast
  have "k \<in> whitelist (mgr (proc_node s))"
    using core_inv_route [OF _ conjunct2 [OF e]] inv by (auto simp: node_inv_def)
  moreover have "k' = k" if "egress_ok (core (coord (proc_node s))) p k'" for k'
    using conjunct2 [OF e] that by (rule egress_ok_unique)
  ultimately show ?thesis using e by simp
qed

theorem wire_carries_device_packets_witness:
  "\<exists>s :: (nat, unit) Process. proc_reachable s \<and> (sample_packet 3, 7) \<in> set (wire (proc_node s)) \<and>
     sample_packet 3 \<in> set (read_out (proc_tun s)) \<and> egress_ok (core (coord (proc_node s))) (sample_packet 3) 7"
proof -
  obtain s :: "(nat, unit) Process" where s: "proc_reachable s" "(sample_packet 3, 7) \<in> set (wire (proc_node s))"
    using live_process_reads by blast
  from wire_carries_device_packets [OF s] s show ?thesis by blast
qed

text \<open>
  C5. The host receives in order and nothing twice: what a process has written to its virtual
  interface is a subsequence of the datagrams it has read, in the order in which it has read
  them and with their multiplicities, restricted to those that pass the incoming checks for the
  key of their connection. Packets may be dropped on the way but are never reordered,
  duplicated or made up, across all connections, queues and reconnects of the interface.
\<close>

theorem inbound_in_order:
  assumes "proc_reachable s"
  shows "subseq (written (proc_tun s))
    (map fst (filter (\<lambda>(p, k). ingress_ok (core (coord (proc_node s))) p k) (arrived (proc_node s))))"
  using written_in_order [OF assms] by (simp add: admitted_def)

theorem inbound_in_order_witness:
  "\<exists>s :: (nat, unit) Process. proc_reachable s \<and> sample_packet 3 \<in> set (written (proc_tun s)) \<and>
     (\<exists>k. (sample_packet 3, k) \<in> set (arrived (proc_node s)))"
proof -
  obtain S :: "(bool, nat, unit) Network" where S: "net_reachable S" "sample_packet 3 \<in> set (written (proc_tun (S True)))"
    using crossed_network by blast
  have r: "proc_reachable (S True)" using net.inv_reachable [OF S(1)] by (simp add: net_inv_def)
  obtain q where q: "q \<in> set (map fst (filter (\<lambda>(p, k). ingress_ok (core (coord (proc_node (S True)))) p k)
      (arrived (proc_node (S True)))))" "sample_packet 3 = q"
    by (rule list_emb_set [OF inbound_in_order [OF r] S(2)])
  then have "\<exists>k. (sample_packet 3, k) \<in> set (arrived (proc_node (S True)))" by auto
  with r S(2) show ?thesis by (intro exI [of _ "S True"]) simp
qed

text \<open>
  C6. Nothing leaves twice: counted with multiplicity, the datagrams a process has sent together
  with the packets that still wait in the coordinator's channel, in the core, in the manager's
  channel and in the channels of the sessions are among the packets it has read from its
  virtual interface. In particular no packet is sent more often than the host handed it over,
  whatever connections broke or were replaced meanwhile.
\<close>

theorem outbound_at_most_once:
  assumes "proc_reachable s"
  shows "mset (map fst (wire (proc_node s))) + in_flight (proc_node s) \<subseteq># mset (read_out (proc_tun s)) \<and>
    count (mset (map fst (wire (proc_node s)))) p \<le> count (mset (read_out (proc_tun s))) p"
proof -
  note s = sent_at_most_once [OF assms]
  from mset_subset_eq_count [OF s, of p] s show ?thesis by simp
qed

theorem outbound_at_most_once_witness:
  "\<exists>s :: (nat, unit) Process. proc_reachable s \<and> 0 < count (mset (map fst (wire (proc_node s)))) (sample_packet 3) \<and>
     0 < count (mset (read_out (proc_tun s))) (sample_packet 3)"
proof -
  obtain s :: "(nat, unit) Process" where s: "proc_reachable s" "(sample_packet 3, 7) \<in> set (wire (proc_node s))"
    using live_process_reads by blast
  then have "sample_packet 3 \<in> fst ` set (wire (proc_node s))" by force
  then have "0 < count (mset (map fst (wire (proc_node s)))) (sample_packet 3)"
    by (metis count_greater_zero_iff list.set_map set_mset_mset)
  with s(1) outbound_at_most_once [OF s(1), of "sample_packet 3"] show ?thesis
    by (intro exI [of _ s]) linarith
qed

text \<open>
  C2. The mesh implements an ideal private network. Seen from the hosts, every run of the
  network, with any interleaving of its processes, any hostile identities and any failures of
  connections and interfaces, is a run of the ideal network: each step lets a host send a
  packet, or hands to a host a packet that is addressed to it and was sent before by the owner of
  its source address (if that key is a node's) to this host, or is invisible to the hosts.
\<close>

theorem mesh_refines_ideal_network:
  assumes "net_reachable S" and "schedule net_step S ls S'"
  shows "reachable ideal_initial ideal_step (mesh_view S) \<and>
    (\<exists>ms. schedule ideal_step (mesh_view S) ms (mesh_view S') \<and> length ms \<le> length ls)"
  using mesh.view_reachable [OF assms(1)] mesh.view_schedule [OF assms(2) net.inv_reachable [OF assms(1)]] by blast

theorem mesh_refines_ideal_network_witness:
  "\<exists>A :: (bool, nat) Ideal. reachable ideal_initial ideal_step A \<and> sample_packet 3 \<in> set (site_in (A True))"
proof -
  obtain S :: "(bool, nat, unit) Network" where S: "net_reachable S" "sample_packet 3 \<in> set (written (proc_tun (S True)))"
    using crossed_network by blast
  from mesh_refines_ideal_network [OF S(1) path_end] S(2) show ?thesis
    by (intro exI [of _ "mesh_view S"]) (auto simp: mesh_view_def site_of_def)
qed

text \<open>
  C7. The core's view of the network catches up with the manager's: replaying the
  notifications in flight on the set of peers the core holds for connected gives exactly the
  peers that have a connection in the manager's table; with none in flight the two agree.
\<close>

theorem core_view_catches_up:
  assumes "node_reachable n"
  shows "replay (to_coord (mgr n)) (core_up (core (coord n))) = up_keys (mgr n) \<and>
    dom (peers (core (coord n))) = whitelist (mgr n) \<and>
    (to_coord (mgr n) = [] \<longrightarrow> core_up (core (coord n)) = up_keys (mgr n))"
  using node_invD [OF assms] by auto

theorem core_view_catches_up_witness:
  "node_reachable live_node \<and> core_up (core (coord live_node)) = up_keys (mgr live_node) \<and>
   7 \<in> core_up (core (coord live_node))"
proof -
  have "7 \<in> up_keys (mgr live_node)" by (simp add: up_keys_def up_in_def live_node_state)
  with core_view_catches_up [OF live_node_reachable] live_node_state(1) live_node_reachable
  show ?thesis by (simp add: calm_def)
qed

text \<open>
  C8. A running node never panics and never blocks in its coordinator: whatever packet or
  event comes next, the pass is defined and never suspends on a full channel, and the core
  never asks the manager to connect to or to disconnect from a peer.
\<close>

theorem coordinator_never_panics_or_blocks:
  assumes "node_reachable n"
  shows "pending n = [] \<and>
    coord_run_pass ans (coord n) (RecvTun (Some p)) \<noteq> None \<and>
    coord_run_pass ans (coord n) (RecvIroh (Some ev)) \<noteq> None \<and>
    (\<forall>a \<in> set (tx_to_iroh (coord n)). \<exists>p k. a = CoreAction.SendPacketTo p k)"
proof -
  note inv = node_invD [OF assms]
  have ci: "core_inv (core (coord n))" using inv by blast
  have "process (core (coord n)) e \<noteq> None" for e using core.no_panic [OF ci] .
  then have "handle_core_input ans (coord n) e \<noteq> None" for e by (simp add: handle_core_input_def)
  moreover have "\<exists>p k. a = CoreAction.SendPacketTo p k" if "a \<in> set (tx_to_iroh (coord n))" for a
    using inv that by (cases a) auto
  ultimately show ?thesis
    using inv by (auto simp: handle_iroh_event_def handle_packet_from_tun_def)
qed

theorem coordinator_never_panics_or_blocks_witness:
  "pending live_node = [] \<and> coord_run_pass (\<lambda>_. Full) (coord live_node) (RecvTun (Some (sample_packet 1))) \<noteq> None"
  using coordinator_never_panics_or_blocks [OF live_node_reachable, of "\<lambda>_. Full" "sample_packet 1"] by blast



text \<open>
  C13. Bounded memory. In every reachable state every queue between the parts of a node holds
  at most as many messages as its channel was created for, and at most 1000 packets wait for a
  peer that is not connected, whatever the network and the host do.
\<close>

theorem node_queues_bounded:
  assumes "node_reachable n"
  shows "length (tx_to_iroh (coord n)) \<le> 8192 \<and> length (tx_to_tun (coord n)) \<le> 8192 \<and>
    length (to_coord (mgr n)) \<le> 8192 \<and> length (from_tun n) \<le> 8192 \<and> length (inbox n) \<le> 8192 \<and>
    (\<forall>ch q. channels (mgr n) ch = Some q \<longrightarrow> length q \<le> 8192) \<and>
    (\<forall>k peer. peers (core (coord n)) k = Some peer \<longrightarrow> length (packet_queue peer) \<le> 1000)"
proof -
  have "node_bounded n" using bounds.inv_reachable [OF assms] by blast
  moreover have "length (packet_queue peer) \<le> 1000" if "peers (core (coord n)) k = Some peer" for k peer
    using node_invD [OF assms] core_inv_peer [OF _ that] by (simp add: peer_inv_def MAX_PACKETS_IN_QUEUE_def)
  ultimately show ?thesis
    by (simp add: node_bounded_def INTERMOD_CHANNEL_CAPACITY_def CHANNEL_CAPACITY_def)
qed

theorem node_queues_bounded_witness:
  "node_reachable live_node \<and> length (to_coord (mgr live_node)) \<le> 8192 \<and>
   channels (mgr live_node) 1 = Some [] \<and> length (inbox live_node) \<le> 8192"
  using node_queues_bounded [OF live_node_reachable] live_node_reachable live_node_state(4) by simp

text \<open>
  C15. The passes of the coordinator and of the manager terminate: without a new message from
  the network or the host there is no infinite sequence of them, from any reachable state.
\<close>

theorem node_passes_terminate:
  "wf (internal_step :: ('pk::linorder Node \<times> 'pk Node) set)"
  by (rule wf_internal_step)

text \<open>
  C14. No deadlock: from every reachable state passes of the coordinator and the manager alone
  lead to a state in which nothing is in flight, where the core and the manager agree on who is
  connected. In particular a manager that waits for room in the channel to the coordinator is
  always let through.
\<close>

theorem node_settles:
  assumes "node_reachable n"
  shows "\<exists>ls n'. list_all internal ls \<and> node_path n ls n' \<and> settled n' \<and>
    core_up (core (coord n')) = up_keys (mgr n')"
proof -
  obtain ls n' where s: "list_all internal ls" "node_path n ls n'" "settled n'" using settles [OF assms] by blast
  from node_invD [OF path_reachable [OF s(2) assms]] s(3) have "core_up (core (coord n')) = up_keys (mgr n')"
    by (simp add: settled_def calm_def)
  with s show ?thesis by blast
qed

theorem node_settles_witness:
  "\<exists>n ls n'. node_reachable n \<and> \<not> settled (n :: nat Node) \<and> list_all internal ls \<and> node_path n ls n' \<and> settled n'"
proof -
  obtain n where n: "node_reachable (n :: nat Node)" "\<not> settled n" using unsettled_node by blast
  from node_settles [OF n(1)] n show ?thesis by blast
qed



text \<open>
  C11. No peer is ever forgotten. Whatever connections broke, were replaced or refused before, in
  every reachable state with nothing in flight each configured peer has a live session, or,
  when this node has the larger key, a task that dials it, or, when it has the smaller one, is
  awaited by a running accept loop.
\<close>

theorem no_peer_forgotten:
  assumes "node_reachable n" and "settled n" and "k \<in> whitelist (mgr n)"
  shows "session_with (mgr n) k \<or>
    (k \<le> endpoint_id (mgr n) \<and>
      (\<exists>t. state_table (mgr n) k = Some (Connecting t) \<and> tasks (mgr n) t = Some (ConnectTask k))) \<or>
    (endpoint_id (mgr n) < k \<and> state_table (mgr n) k = Some WaitingIncomingConnection \<and>
      (\<exists>t. tasks (mgr n) t = Some AcceptTask))"
proof -
  have "\<exists>t. tasks (mgr n) t = Some AcceptTask" using resilience.inv_reachable [OF assms(1)] by (simp add: attended_def)
  then show ?thesis
    by (cases rule: settled_entry [OF assms]) (auto simp: session_with_def)
qed

theorem no_peer_forgotten_witness:
  "node_reachable sample_node \<and> settled sample_node \<and> 7 \<in> whitelist (mgr sample_node) \<and>
   (\<exists>t. tasks (mgr sample_node) t = Some AcceptTask) \<and> \<not> session_with (mgr sample_node) 7"
proof -
  note s = sample_start_state
  from no_peer_forgotten [OF s(1,2), of 7] s show ?thesis by (auto simp: session_with_def)
qed



text \<open>
  C37. A late report hits the wrong connection: in this schedule of a node the peer opens a new
  connection while the old one breaks; the manager installs the new session, then takes the
  report about the old one for a report about the new, announces a disconnection and forgets
  the new session, which was neither closed nor aborted.
\<close>

theorem stale_report_drops_live_session:
  "\<exists>n. node_reachable n \<and> node_path live_node stale_schedule n \<and>
     tasks (mgr n) 4 = Some (SessionTask (sample_conn 1) 3) \<and>
     state_table (mgr n) 7 = Some WaitingIncomingConnection \<and>
     to_coord (mgr n) = [ConnectedToPeer 7, DisconnectedFromPeer 7] \<and>
     (\<forall>c r. (sample_conn 1, c, r) \<notin> set (closed (mgr n)))"
proof -
  obtain n where n: "node_path live_node stale_schedule n" "tasks (mgr n) 4 = Some (SessionTask (sample_conn 1) 3)"
    "state_table (mgr n) 7 = Some WaitingIncomingConnection" "to_coord (mgr n) = [ConnectedToPeer 7, DisconnectedFromPeer 7]"
    "closed (mgr n) = [(sample_conn 0, 1, ''connection is expired: peer open another connection'')]"
    using stale_report_schedule by blast
  have "node_reachable n" by (rule path_reachable [OF n(1) live_node_reachable])
  with n show ?thesis by (auto simp: sample_conn_def)
qed

text \<open>
  C25. Start-up is right: whenever the program starts its loops, the node is in an initial state
  of the model and the process it spawns is one too, so everything proved of reachable states
  holds from then on; its address and the one of the virtual interface are the configured one inside 10.67.0.0/16, its routing
  table and whitelist are the configured peers, and the virtual interface and the core agree on
  the size limit of 1100 bytes. The logger filters by the configured level, one of the known
  ones, unless the environment says otherwise, and writes a file exactly when a path is
  configured.
\<close>

theorem startup_correct:
  assumes "fair_orders W" and "main_program C W fs args = Some (Started n tun logger, fs')"
  shows "node_reachable n \<and> proc_reachable (spawn_loops n :: (_, 'te) Process) \<and>
    (\<exists>cfg. from_file C fs (config_path_of args) = Some (Inr cfg, fs') \<and>
       octet0 (cfg_node_ipv4 cfg) = 10 \<and> octet1 (cfg_node_ipv4 cfg) = 67 \<and>
       ipv4_addr (core (coord n)) = cfg_node_ipv4 cfg \<and> tun_address tun = cfg_node_ipv4 cfg \<and>
       route_table (core (coord n)) = cfg_peers cfg \<and> whitelist (mgr n) = ran (cfg_peers cfg) \<and>
       cfg_log_level cfg \<in> set LOG_LEVELS \<and>
       env_filter logger = (if env_ok W then FromEnvironment
         else Directives (''error,mesh_network='' @ cfg_log_level cfg)) \<and>
       (log_guard logger \<longleftrightarrow> cfg_log_path cfg \<noteq> None)) \<and>
    max_packet_size (core (coord n)) = unat (tun_mtu tun) \<and> unat (tun_mtu tun) = 1100"
proof -
  obtain cfg where cfg: "from_file C fs (config_path_of args) = Some (Inr cfg, fs')" "build_node W cfg = Inr (n, tun)"
    and log: "logger = init_logger (env_ok W) (cfg_log_path cfg) (cfg_log_level cfg)"
    using assms(2) by (auto simp: main_program_def split: option.splits sum.splits)
  obtain t sk where b: "build_config C t sk = Inr cfg"
    using cfg(1) by (cases rule: from_file_cases [of C fs "config_path_of args"]) auto
  then have "finite (dom (cfg_peers cfg))" "octet0 (cfg_node_ipv4 cfg) = 10" "octet1 (cfg_node_ipv4 cfg) = 67"
    and lvl: "cfg_log_level cfg \<in> set LOG_LEVELS"
    by (auto simp: build_config_Inr intro: get_peers_finite)
  moreover note st = build_node_Started [OF assms(1) \<open>finite (dom (cfg_peers cfg))\<close> cfg(2)]
  moreover have proc: "proc_reachable (spawn_loops n :: (_, 'te) Process)"
    by (rule reach_init) (rule spawn_loops_initial [OF st(1)])
  ultimately show ?thesis
    using cfg(1) lvl log proc reach_init [of node_initial n node_step]
    by (simp add: VpnCore_new_def Tun_new_def init_logger_def log_guard_def Let_def)
qed

theorem startup_correct_witness:
  "\<exists>n tun logger fs'. main_program (sample_crates 9) sample_world sample_fs [''node''] = Some (Started n tun logger, fs') \<and>
     node_reachable n \<and> unat (tun_mtu tun) = 1100"
proof -
  obtain n tun where "build_node sample_world (sample_config 9) = Inr (n, tun)"
    using build_node_starts [OF sample_world_binds] by blast
  then obtain logger fs' where m: "main_program (sample_crates 9) sample_world sample_fs [''node''] = Some (Started n tun logger, fs')"
    by (simp add: main_program_def config_path_of_def sample_from_file)
  from startup_correct [OF sample_world_fair m] m show ?thesis by blast
qed

text \<open>
  The configured MTU has no effect: two configurations that differ only in it start the
  same node and the same virtual interface.
\<close>

theorem configured_mtu_has_no_effect:
  "build_node W (cfg\<lparr>cfg_mtu := m\<rparr>) = build_node W cfg"
  by (simp add: build_node_def Let_def split: sum.splits)



end
